(* ===== verification/Wadjet_Base.thy ===== *)
theory Wadjet_Base
  imports Main "HOL-Library.Word"
begin

text \<open>
  The prelude of the development: the Go integer types as words, two's complement reading and
  wrap-around of Go's 64-bit \<open>int\<close>, little-endian byte strings, Go errors as chains of
  sentinels, and the generic list lemmas the components share. The collections
  \<open>go_defs\<close> (definitions to unfold) and \<open>go_simps\<close> (rewrite rules) carry the component
  proofs.
\<close>

unbundle bit_operations_syntax

named_theorems go_simps
named_theorems go_defs

section \<open>Integer types\<close>

type_synonym byte = "8 word"
type_synonym u16 = "16 word"
type_synonym u32 = "32 word"
type_synonym u64 = "64 word"
type_synonym i32 = "32 word"
type_synonym i64 = "64 word"

text \<open>Go's \<open>int\<close> and \<open>int64\<close> arithmetic wraps at 64 bits; \<open>wrap64\<close> is the value a
  mathematical result has after the wrap.\<close>

definition wrap64 :: "int \<Rightarrow> int" where
  "wrap64 x = (x + 2 ^ 63) mod 2 ^ 64 - 2 ^ 63"

lemma wrap64_id [simp]: "- (2 ^ 63) \<le> x \<Longrightarrow> x < 2 ^ 63 \<Longrightarrow> wrap64 x = x"
  by (simp add: wrap64_def)

lemma wrap64_range: "- (2 ^ 63) \<le> wrap64 x \<and> wrap64 x < 2 ^ 63"
  by (simp add: wrap64_def)

lemma wrap64_over:
  assumes "2 ^ 63 \<le> x" and "x < 2 ^ 63 + 2 ^ 63"
  shows "wrap64 x = x - 2 ^ 64"
proof -
  have "(x + 2 ^ 63) mod 2 ^ 64 = (x + 2 ^ 63 - 2 ^ 64) mod 2 ^ 64"
    by (rule minus_mod_self2 [symmetric])
  moreover have "(x + 2 ^ 63 - 2 ^ 64) mod 2 ^ 64 = x + 2 ^ 63 - 2 ^ 64"
    by (rule mod_pos_pos_trivial) (use assms in simp_all)
  ultimately show ?thesis by (simp add: wrap64_def)
qed

lemma sint_range64: "- (2 ^ 63) \<le> sint (x :: i64)" "sint (x :: i64) < 2 ^ 63"
  using sint_range_size [of x] by (simp_all add: word_size)

lemma sint_wrap: "sint (word_of_int k :: i64) = wrap64 k"
  unfolding wrap64_def by transfer (simp add: signed_take_bit_eq_take_bit_shift take_bit_eq_mod)

lemma sint_add_wrap: "sint (x + y) = wrap64 (sint x + sint y)" for x y :: i64
  using sint_wrap [of "sint x + sint y"] by simp

lemma sint_add_exact:
  "- (2 ^ 63) \<le> sint x + sint y \<Longrightarrow> sint x + sint y < 2 ^ 63 \<Longrightarrow> sint (x + y) = sint x + sint y" for x y :: i64
  by (simp add: sint_add_wrap)

lemma sint_incr: "sint x < 2 ^ 63 - 1 \<Longrightarrow> sint (x + 1) = sint x + 1" for x :: i64
  using sint_add_exact [of x 1] sint_range64 [of x] by simp

lemma sint_next: "sint x < sint y \<Longrightarrow> sint (x + 1) = sint x + 1" for x y :: i64
  using sint_incr [of x] sint_range64 [of y] by simp

section \<open>Decimal rendering\<close>

text \<open>The decimal digits of \<^verbatim>\<open>strconv.FormatUint\<close> and \<^verbatim>\<open>%d\<close>, most significant first, and the sign.\<close>

definition digit_char :: "nat \<Rightarrow> char" where "digit_char d = char_of (48 + d)"

fun show_nat :: "nat \<Rightarrow> string" where
  "show_nat n = (if n < 10 then [digit_char n] else show_nat (n div 10) @ [digit_char (n mod 10)])"

declare show_nat.simps [simp del]

definition show_int :: "int \<Rightarrow> string" where
  "show_int k = (if k < 0 then CHR ''-'' # show_nat (nat (- k)) else show_nat (nat k))"

section \<open>Lists\<close>

lemma sum_list_update_group:
  fixes xs :: "'a::ab_group_add list"
  shows "k < length xs \<Longrightarrow> sum_list (xs[k := x]) = sum_list xs + x - xs ! k"
  by (induction xs arbitrary: k) (auto split: nat.splits simp: algebra_simps)

lemma list_all_update: "list_all P xs \<Longrightarrow> P x \<Longrightarrow> list_all P (xs[k := x])"
  by (auto simp: list_all_iff dest!: set_update_subset_insert [THEN subsetD])

end
