(* ===== verification/Circuit_Breaker.thy ===== *)
theory Circuit_Breaker
  imports Wadjet_Base
begin

text \<open>
  The per-class circuit breaker in front of the object store
  (\<^verbatim>\<open>internal/storage/objstore/circuit.go\<close>). Each operation class (read, write, delete)
  has its own state machine. Every method takes the mutex for its whole body, so a method is one
  step. The counters and limits are Go \<open>int\<close>s, so 64-bit words read as signed. Time is an argument: the value \<^verbatim>\<open>time.Now()\<close> returns in that call. The wrapped
  store is a parameter: an operation of it is a function from a world to an outcome and the next
  world.
\<close>

section \<open>State\<close>

datatype circuit_state = CircuitClosed | CircuitOpen | CircuitHalfOpen

datatype op_class = OpRead | OpWrite | OpDelete

text \<open>An error value is the chain of errors it wraps; \<^verbatim>\<open>errors.Is\<close> looks for a sentinel in
  the chain.\<close>

datatype sentinel = ErrCircuitOpen | ErrNotFound | ErrBucketNotFound | ErrPreconditionFailed
  | ContextCanceled | DeadlineExceeded | NoReaderAt | OtherErr nat

type_synonym store_err = "sentinel list"

definition errors_Is :: "store_err \<Rightarrow> sentinel \<Rightarrow> bool" where
  [go_defs]: "errors_Is e s = (s \<in> set e)"

record circuit_config =
  FailureThreshold :: i64
  ResetTimeout :: int
  HalfOpenMax :: i64
  RequestTimeout :: int

record class_state =
  cstate :: circuit_state
  failures :: i64
  lastFailure :: int
  halfOpenUsed :: i64
  opened :: u64

text \<open>\<open>onOpen\<close> says whether a callback is registered and \<open>notified\<close> lists the calls made to
  it, latest last.\<close>

record circuit_store =
  config :: circuit_config
  cls :: "op_class \<Rightarrow> class_state"
  onOpen :: bool
  notified :: "op_class list"

definition second :: int where
  [go_defs]: "second = 1000000000"

definition DefaultCircuitConfig :: circuit_config where
  [go_defs]: "DefaultCircuitConfig = \<lparr>FailureThreshold = 5, ResetTimeout = 30 * second,
     HalfOpenMax = 1, RequestTimeout = 10 * second\<rparr>"

text \<open>The zero \<^verbatim>\<open>time.Time\<close> of a fresh class is never read: \<open>lastFailure\<close> is written before
  the class can open. The model takes 0.\<close>

definition zero_class :: class_state where
  [go_defs]: "zero_class = \<lparr>cstate = CircuitClosed, failures = 0, lastFailure = 0,
     halfOpenUsed = 0, opened = 0\<rparr>"

definition NewCircuitStore :: "circuit_config \<Rightarrow> circuit_store" where
  "NewCircuitStore cfg =
     (let cfg = (if sint (FailureThreshold cfg) \<le> 0 then cfg\<lparr>FailureThreshold := 5\<rparr> else cfg);
          cfg = (if ResetTimeout cfg \<le> 0 then cfg\<lparr>ResetTimeout := 30 * second\<rparr> else cfg);
          cfg = (if sint (HalfOpenMax cfg) \<le> 0 then cfg\<lparr>HalfOpenMax := 1\<rparr> else cfg);
          cfg = (if RequestTimeout cfg \<le> 0 then cfg\<lparr>RequestTimeout := 10 * second\<rparr> else cfg)
      in \<lparr>config = cfg, cls = (\<lambda>_. zero_class), onOpen = False, notified = []\<rparr>)"

definition SetOnOpen :: "circuit_store \<Rightarrow> circuit_store" where
  [go_defs]: "SetOnOpen cs = cs\<lparr>onOpen := True\<rparr>"

fun worst_state :: "circuit_state list \<Rightarrow> circuit_state \<Rightarrow> circuit_state" where
  "worst_state [] worst = worst"
| "worst_state (s # ss) worst =
     (case s of CircuitOpen \<Rightarrow> CircuitOpen
      | CircuitHalfOpen \<Rightarrow> worst_state ss CircuitHalfOpen
      | CircuitClosed \<Rightarrow> worst_state ss worst)"

definition State :: "circuit_store \<Rightarrow> circuit_state" where
  "State cs = worst_state (map (\<lambda>c. cstate (cls cs c)) [OpRead, OpWrite, OpDelete]) CircuitClosed"

definition StateFor :: "circuit_store \<Rightarrow> op_class \<Rightarrow> circuit_state" where
  [go_defs]: "StateFor cs c = cstate (cls cs c)"

definition OpenedTotal :: "circuit_store \<Rightarrow> op_class \<Rightarrow> u64" where
  [go_defs]: "OpenedTotal cs c = opened (cls cs c)"

section \<open>The breaker's three transitions\<close>

definition set_class :: "circuit_store \<Rightarrow> op_class \<Rightarrow> class_state \<Rightarrow> circuit_store" where
  [go_defs]: "set_class cs c x = cs\<lparr>cls := (cls cs)(c := x)\<rparr>"

definition beforeRequest ::
  "int \<Rightarrow> op_class \<Rightarrow> circuit_store \<Rightarrow> store_err option \<times> circuit_store" where
  "beforeRequest now class cs =
     (let c = cls cs class in
      case cstate c of
        CircuitClosed \<Rightarrow> (None, cs)
      | CircuitOpen \<Rightarrow>
          (if ResetTimeout (config cs) \<le> now - lastFailure c
           then (None, set_class cs class (c\<lparr>cstate := CircuitHalfOpen, halfOpenUsed := 0\<rparr>))
           else (Some [ErrCircuitOpen], cs))
      | CircuitHalfOpen \<Rightarrow>
          (if sint (HalfOpenMax (config cs)) \<le> sint (halfOpenUsed c) then (Some [ErrCircuitOpen], cs)
           else (None, set_class cs class (c\<lparr>halfOpenUsed := halfOpenUsed c + 1\<rparr>))))"

definition onSuccess :: "op_class \<Rightarrow> circuit_store \<Rightarrow> circuit_store" where
  "onSuccess class cs =
     set_class cs class ((cls cs class)\<lparr>failures := 0, cstate := CircuitClosed\<rparr>)"

definition onFailure :: "int \<Rightarrow> op_class \<Rightarrow> store_err \<Rightarrow> circuit_store \<Rightarrow> circuit_store" where
  "onFailure now class err cs =
     (if errors_Is err ContextCanceled then cs
      else if errors_Is err ErrNotFound \<or> errors_Is err ErrBucketNotFound then onSuccess class cs
      else
        let c = (cls cs class)\<lparr>failures := failures (cls cs class) + 1, lastFailure := now\<rparr>;
            opens = (cstate c = CircuitHalfOpen \<or>
              sint (FailureThreshold (config cs)) \<le> sint (failures c) \<and> cstate c \<noteq> CircuitOpen);
            c' = (if opens then c\<lparr>cstate := CircuitOpen, opened := opened c + 1\<rparr> else c);
            cs' = set_class cs class c'
        in if opens \<and> onOpen cs then cs'\<lparr>notified := notified cs @ [class]\<rparr> else cs')"

section \<open>The store operations\<close>

text \<open>An inner operation runs in a world \<open>'w\<close> and answers an error chain or a value. Methods
  built on \<open>do\<close> and the streaming ones (\<open>Put\<close>, \<open>PutIfMatch\<close>, \<open>Get\<close>, \<open>GetReaderAt\<close>), which
  repeat its shape without the per-request timeout, differ only in the class they charge. The two
  clock readings of a request are \<open>t0\<close> (before) and \<open>t1\<close> (after).\<close>

type_synonym ('w, 'a) inner = "'w \<Rightarrow> (store_err + 'a) \<times> 'w"

definition guarded ::
  "int \<Rightarrow> int \<Rightarrow> op_class \<Rightarrow> ('w, 'a) inner \<Rightarrow> circuit_store \<Rightarrow> 'w \<Rightarrow>
     (store_err + 'a) \<times> circuit_store \<times> 'w" where
  "guarded t0 t1 class fn cs w =
     (case beforeRequest t0 class cs of
        (Some e, cs1) \<Rightarrow> (Inl e, cs1, w)
      | (None, cs1) \<Rightarrow>
          (case fn w of
             (Inl e, w') \<Rightarrow> (Inl e, onFailure t1 class e cs1, w')
           | (Inr a, w') \<Rightarrow> (Inr a, onSuccess class cs1, w')))"

definition cs_Put where [go_defs]: "cs_Put t0 t1 fn = guarded t0 t1 OpWrite fn"
definition cs_PutIfMatch where [go_defs]: "cs_PutIfMatch t0 t1 fn = guarded t0 t1 OpWrite fn"
definition cs_Get where [go_defs]: "cs_Get t0 t1 fn = guarded t0 t1 OpRead fn"
definition cs_Head where [go_defs]: "cs_Head t0 t1 fn = guarded t0 t1 OpRead fn"
definition cs_List where [go_defs]: "cs_List t0 t1 fn = guarded t0 t1 OpRead fn"
definition cs_Delete where [go_defs]: "cs_Delete t0 t1 fn = guarded t0 t1 OpDelete fn"
definition cs_BucketExists where [go_defs]: "cs_BucketExists t0 t1 fn = guarded t0 t1 OpRead fn"
definition cs_MakeBucket where [go_defs]: "cs_MakeBucket t0 t1 fn = guarded t0 t1 OpWrite fn"

text \<open>\<open>GetReaderAt\<close> first asks whether the inner store implements the interface; \<open>None\<close> is a store
  that does not, and the breaker is then not consulted.\<close>

definition cs_GetReaderAt ::
  "int \<Rightarrow> int \<Rightarrow> ('w, 'a) inner option \<Rightarrow> circuit_store \<Rightarrow> 'w \<Rightarrow>
     (store_err + 'a) \<times> circuit_store \<times> 'w" where
  "cs_GetReaderAt t0 t1 ras cs w =
     (case ras of None \<Rightarrow> (Inl [NoReaderAt], cs, w) | Some fn \<Rightarrow> guarded t0 t1 OpRead fn cs w)"

definition putTimeout :: "circuit_store \<Rightarrow> int \<Rightarrow> int" where
  "putTimeout cs sz =
     (let timeout = RequestTimeout (config cs) in
      if 0 < sz then
        let sized = wrap64 ((sz div (20 * 1024 * 1024)) * second) in
        if timeout < sized then sized else timeout
      else timeout)"

text \<open>A chain of store wrappers, outermost first, as \<open>Unwrap\<close> walks it.\<close>

datatype wrapped = Circuit circuit_store wrapped | Wrapper wrapped | Plain | Nil_store

fun FindCircuitStore :: "wrapped \<Rightarrow> circuit_store option" where
  "FindCircuitStore (Circuit cs _) = Some cs"
| "FindCircuitStore (Wrapper w) = FindCircuitStore w"
| "FindCircuitStore Plain = None"
| "FindCircuitStore Nil_store = None"

section \<open>Runs\<close>

text \<open>The mutex makes every call of the three transitions one step, so an execution of any number of
  concurrent requests is a sequence of them. \<open>Begin\<close> is a \<open>beforeRequest\<close>, \<open>Success\<close> and
  \<open>Failure\<close> the completion of a request some earlier \<open>Begin\<close> admitted.\<close>

datatype cevent = Begin int op_class | Success op_class | Failure int op_class store_err

fun ev_class :: "cevent \<Rightarrow> op_class" where
  "ev_class (Begin _ c) = c"
| "ev_class (Success c) = c"
| "ev_class (Failure _ c _) = c"

fun cstep :: "cevent \<Rightarrow> circuit_store \<Rightarrow> circuit_store" where
  "cstep (Begin now c) cs = snd (beforeRequest now c cs)"
| "cstep (Success c) cs = onSuccess c cs"
| "cstep (Failure now c e) cs = onFailure now c e cs"

fun crun :: "cevent list \<Rightarrow> circuit_store \<Rightarrow> circuit_store" where
  "crun [] cs = cs"
| "crun (e # es) cs = crun es (cstep e cs)"

lemmas cb_defs = beforeRequest_def onSuccess_def onFailure_def set_class_def Let_def

text \<open>What a step reads and writes: the class's own state and the configuration.\<close>

definition same_class :: "op_class \<Rightarrow> circuit_store \<Rightarrow> circuit_store \<Rightarrow> bool" where
  "same_class c cs cs' = (cls cs c = cls cs' c \<and> config cs = config cs')"

lemma cstep_config [simp]: "config (cstep e cs) = config cs"
  by (cases e) (auto simp: cb_defs split: circuit_state.splits)

lemma onFailure_config [simp]: "config (onFailure now c e cs) = config cs"
  using cstep_config [of "Failure now c e" cs] by simp

lemma crun_config [simp]: "config (crun es cs) = config cs"
  by (induction es arbitrary: cs) simp_all

lemma cstep_other: "ev_class e \<noteq> c \<Longrightarrow> same_class c (cstep e cs) cs"
  by (cases e) (auto simp: cb_defs same_class_def split: circuit_state.splits)

lemma cstep_same: "same_class c cs cs' \<Longrightarrow> ev_class e = c \<Longrightarrow> same_class c (cstep e cs) (cstep e cs')"
  by (cases e) (auto simp: cb_defs same_class_def split: circuit_state.splits)

lemma same_class_refl [simp]: "same_class c cs cs"
  by (simp add: same_class_def)

lemma same_class_trans: "same_class c x y \<Longrightarrow> same_class c y z \<Longrightarrow> same_class c x z"
  by (simp add: same_class_def)

lemma crun_project:
  "same_class c cs cs' \<Longrightarrow>
   same_class c (crun es cs) (crun (filter (\<lambda>e. ev_class e = c) es) cs')"
proof (induction es arbitrary: cs cs')
  case (Cons e es)
  show ?case
  proof (cases "ev_class e = c")
    case True
    with Cons show ?thesis by (simp add: cstep_same)
  next
    case False
    then have "same_class c (cstep e cs) cs'"
      using cstep_other Cons.prems same_class_trans by blast
    with False show ?thesis by (simp add: Cons.IH)
  qed
qed simp

lemma beforeRequest_same_class:
  "same_class c cs cs' \<Longrightarrow> fst (beforeRequest now c cs) = fst (beforeRequest now c cs')"
  by (auto simp: cb_defs same_class_def split: circuit_state.splits)

text \<open>The invariant of a class: a closed class has counted fewer failures than the threshold. The counter of
  an open class is unbounded, and the increment of a closed one cannot wrap.\<close>

definition class_inv :: "circuit_config \<Rightarrow> class_state \<Rightarrow> bool" where
  "class_inv cfg c = (cstate c = CircuitClosed \<longrightarrow> 0 \<le> sint (failures c) \<and> sint (failures c) < sint (FailureThreshold cfg))"

definition store_inv :: "circuit_store \<Rightarrow> bool" where
  "store_inv cs = (0 < sint (FailureThreshold (config cs)) \<and> 0 < sint (HalfOpenMax (config cs)) \<and>
     (\<forall>c. class_inv (config cs) (cls cs c)))"

lemma NewCircuitStore_inv: "store_inv (NewCircuitStore cfg)"
  by (simp add: store_inv_def class_inv_def NewCircuitStore_def zero_class_def Let_def)

lemma cstep_inv: "store_inv cs \<Longrightarrow> store_inv (cstep e cs)"
proof -
  assume inv: "store_inv cs"
  have "0 \<le> sint (failures (cls cs c) + 1)" if "cstate (cls cs c) = CircuitClosed" for c
    using inv that sint_next [of "failures (cls cs c)" "FailureThreshold (config cs)"] by (simp add: store_inv_def class_inv_def)
  with inv show "store_inv (cstep e cs)"
    by (cases e) (auto simp: store_inv_def class_inv_def cb_defs split: circuit_state.splits)
qed

lemma crun_inv: "store_inv cs \<Longrightarrow> store_inv (crun es cs)"
  by (induction es arbitrary: cs) (simp_all add: cstep_inv)

lemma crun_append: "crun (xs @ ys) cs = crun ys (crun xs cs)"
  by (induction xs arbitrary: cs) simp_all


text \<open>An event that leaves an exhausted half-open class \<open>c\<close> as it is: an arriving request, any event
  of another class, or a completion whose error is the caller's own cancellation.\<close>

fun quiet :: "op_class \<Rightarrow> cevent \<Rightarrow> bool" where
  "quiet c (Begin _ _) = True"
| "quiet c (Success d) = (d \<noteq> c)"
| "quiet c (Failure _ d e) = (d \<noteq> c \<or> errors_Is e ContextCanceled)"

definition exhausted :: "op_class \<Rightarrow> circuit_store \<Rightarrow> bool" where
  "exhausted c cs = (cstate (cls cs c) = CircuitHalfOpen \<and>
     sint (HalfOpenMax (config cs)) \<le> sint (halfOpenUsed (cls cs c)))"

lemma cstep_exhausted: "exhausted c cs \<Longrightarrow> quiet c e \<Longrightarrow> exhausted c (cstep e cs)"
  by (cases e) (auto simp: exhausted_def cb_defs split: circuit_state.splits)

lemma crun_exhausted: "exhausted c cs \<Longrightarrow> list_all (quiet c) es \<Longrightarrow> exhausted c (crun es cs)"
  by (induction es arbitrary: cs) (simp_all add: cstep_exhausted)

definition counted :: "store_err \<Rightarrow> bool" where
  "counted e = (\<not> errors_Is e ContextCanceled \<and> \<not> errors_Is e ErrNotFound \<and>
     \<not> errors_Is e ErrBucketNotFound)"

abbreviation fail_run :: "op_class \<Rightarrow> (int \<times> store_err) list \<Rightarrow> cevent list" where
  "fail_run c xs \<equiv> map (\<lambda>(t, e). Failure t c e) xs"

lemma fail_run_closed:
  "list_all (\<lambda>(t, e). counted e) xs \<Longrightarrow> cstate (cls cs c) = CircuitClosed \<Longrightarrow> 0 \<le> sint (failures (cls cs c)) \<Longrightarrow>
   sint (failures (cls cs c)) + int (length xs) < sint (FailureThreshold (config cs)) \<Longrightarrow>
   cstate (cls (crun (fail_run c xs) cs) c) = CircuitClosed \<and>
   sint (failures (cls (crun (fail_run c xs) cs) c)) = sint (failures (cls cs c)) + int (length xs)"
proof (induction xs arbitrary: cs)
  case (Cons x xs)
  obtain t e where x: "x = (t, e)" by fastforce
  let ?cs = "cstep (Failure t c e) cs"
  have n: "sint (failures (cls cs c) + 1) = sint (failures (cls cs c)) + 1"
    using Cons.prems by (intro sint_next [where y = "FailureThreshold (config cs)"]) auto
  have "cstate (cls ?cs c) = CircuitClosed \<and> sint (failures (cls ?cs c)) = sint (failures (cls cs c)) + 1"
    using Cons.prems x n by (auto simp: cb_defs counted_def)
  then show ?case using Cons.IH [of ?cs] Cons.prems x by (simp add: add.assoc)
qed simp

text \<open>The requests of a class a run admits, and those it brings.\<close>

fun admissions :: "op_class \<Rightarrow> cevent list \<Rightarrow> circuit_store \<Rightarrow> nat" where
  "admissions c [] cs = 0"
| "admissions c (e # es) cs =
     (case e of Begin now d \<Rightarrow> if d = c \<and> fst (beforeRequest now d cs) = None then 1 else 0 | _ \<Rightarrow> 0) +
     admissions c es (cstep e cs)"

definition requests :: "op_class \<Rightarrow> cevent list \<Rightarrow> nat" where
  "requests c es = length (filter (\<lambda>e. case e of Begin _ d \<Rightarrow> d = c | _ \<Rightarrow> False) es)"

text \<open>Every request of the class comes after the reset timeout of the opening failure.\<close>

definition all_late :: "op_class \<Rightarrow> int \<Rightarrow> cevent list \<Rightarrow> bool" where
  "all_late c due es = list_all (\<lambda>e. case e of Begin now d \<Rightarrow> d = c \<longrightarrow> due \<le> now | _ \<Rightarrow> True) es"

lemma half_open_admissions:
  "cstate (cls cs c) = CircuitHalfOpen \<Longrightarrow> 0 \<le> sint (halfOpenUsed (cls cs c)) \<Longrightarrow>
   sint (halfOpenUsed (cls cs c)) \<le> sint (HalfOpenMax (config cs)) \<Longrightarrow> list_all (quiet c) es \<Longrightarrow>
   admissions c es cs = min (requests c es) (nat (sint (HalfOpenMax (config cs)) - sint (halfOpenUsed (cls cs c))))"
proof (induction es arbitrary: cs)
  case (Cons e es)
  show ?case
  proof (cases "\<exists>now. e = Begin now c \<and> sint (halfOpenUsed (cls cs c)) < sint (HalfOpenMax (config cs))")
    case True
    then obtain now where e: "e = Begin now c" and u: "sint (halfOpenUsed (cls cs c)) < sint (HalfOpenMax (config cs))" by blast
    have n: "sint (halfOpenUsed (cls cs c) + 1) = sint (halfOpenUsed (cls cs c)) + 1" using Cons.prems u by (intro sint_next)
    have "admissions c es (cstep e cs) = min (requests c es) (nat (sint (HalfOpenMax (config cs)) - (sint (halfOpenUsed (cls cs c)) + 1)))"
      using Cons.IH [of "cstep e cs"] Cons.prems e u n by (simp add: cb_defs)
    moreover have "admissions c (e # es) cs = Suc (admissions c es (cstep e cs))"
      using e u Cons.prems(1) by (simp add: beforeRequest_def Let_def)
    moreover have "requests c (e # es) = Suc (requests c es)" using e by (simp add: requests_def)
    moreover have "nat (sint (HalfOpenMax (config cs)) - sint (halfOpenUsed (cls cs c))) =
        Suc (nat (sint (HalfOpenMax (config cs)) - (sint (halfOpenUsed (cls cs c)) + 1)))" using u by linarith
    ultimately show ?thesis by (simp only: min_Suc_Suc)
  next
    case False
    have same: "same_class c (cstep e cs) cs"
      using Cons.prems False by (cases e) (auto simp: same_class_def cb_defs split: circuit_state.splits)
    have IH: "admissions c es (cstep e cs) = min (requests c es) (nat (sint (HalfOpenMax (config cs)) - sint (halfOpenUsed (cls cs c))))"
      using Cons.IH [of "cstep e cs"] Cons.prems same by (simp add: same_class_def)
    show ?thesis
    proof (cases "\<exists>now. e = Begin now c")
      case True
      then have "sint (HalfOpenMax (config cs)) = sint (halfOpenUsed (cls cs c))" using False Cons.prems by force
      then show ?thesis using IH Cons.prems True by (auto simp: requests_def beforeRequest_def Let_def)
    next
      case no: False
      then show ?thesis using IH by (cases e) (auto simp: requests_def)
    qed
  qed
qed (simp add: requests_def)

lemma open_admissions:
  "cstate (cls cs c) = CircuitOpen \<Longrightarrow> 0 \<le> sint (HalfOpenMax (config cs)) \<Longrightarrow> list_all (quiet c) es \<Longrightarrow>
   admissions c es cs \<le> nat (sint (HalfOpenMax (config cs))) + 1 \<and>
   (all_late c (lastFailure (cls cs c) + ResetTimeout (config cs)) es \<longrightarrow>
    admissions c es cs = min (requests c es) (nat (sint (HalfOpenMax (config cs))) + 1))"
proof (induction es arbitrary: cs)
  case (Cons e es)
  show ?case
  proof (cases "\<exists>now. e = Begin now c \<and> ResetTimeout (config cs) \<le> now - lastFailure (cls cs c)")
    case True
    then obtain now where e: "e = Begin now c" and late: "ResetTimeout (config cs) \<le> now - lastFailure (cls cs c)" by blast
    have "admissions c es (cstep e cs) = min (requests c es) (nat (sint (HalfOpenMax (config cs))))"
      using half_open_admissions [of "cstep e cs" c es] Cons.prems e late by (simp add: cb_defs)
    then show ?thesis using e late Cons.prems by (simp add: requests_def beforeRequest_def Let_def min_def)
  next
    case False
    have same: "same_class c (cstep e cs) cs"
      using Cons.prems False by (cases e) (auto simp: same_class_def cb_defs split: circuit_state.splits)
    have IH: "admissions c es (cstep e cs) \<le> nat (sint (HalfOpenMax (config cs))) + 1 \<and>
        (all_late c (lastFailure (cls cs c) + ResetTimeout (config cs)) es \<longrightarrow>
         admissions c es (cstep e cs) = min (requests c es) (nat (sint (HalfOpenMax (config cs))) + 1))"
      using Cons.IH [of "cstep e cs"] Cons.prems same by (simp add: same_class_def)
    show ?thesis
    proof (cases "\<exists>now. e = Begin now c")
      case True
      then show ?thesis using IH False Cons.prems by (auto simp: all_late_def beforeRequest_def Let_def)
    next
      case no: False
      then show ?thesis using IH by (cases e) (auto simp: requests_def all_late_def)
    qed
  qed
qed (simp add: requests_def)

section \<open>Properties\<close>

text \<open>C32: Class isolation. Whatever the interleaving of requests of all classes, the state of a class
  and the answer it gives to the next request are those of the run with the other classes' events
  removed: failed writes or deletes can never fast-fail a read.\<close>

theorem breaker_class_isolation:
  "cls (crun es cs) c = cls (crun (filter (\<lambda>e. ev_class e = c) es) cs) c \<and>
   fst (beforeRequest now c (crun es cs)) =
   fst (beforeRequest now c (crun (filter (\<lambda>e. ev_class e = c) es) cs))"
proof -
  have "same_class c (crun es cs) (crun (filter (\<lambda>e. ev_class e = c) es) cs)"
    by (rule crun_project) simp
  then show ?thesis
    using beforeRequest_same_class by (auto simp: same_class_def)
qed

text \<open>C33: After every interleaving of calls on a new store, whatever configuration it was given, the effective
  threshold and probe limit are positive and every closed class has counted fewer consecutive failures than the
  threshold, its counter not having wrapped.\<close>

theorem breaker_invariant:
  "let cs = crun es (NewCircuitStore cfg) in
     0 < sint (FailureThreshold (config cs)) \<and> 0 < sint (HalfOpenMax (config cs)) \<and>
     (cstate (cls cs c) \<in> {CircuitOpen, CircuitHalfOpen} \<or>
      0 \<le> sint (failures (cls cs c)) \<and> sint (failures (cls cs c)) < sint (FailureThreshold (config cs)))"
  using crun_inv [OF NewCircuitStore_inv, of es cfg] unfolding store_inv_def class_inv_def Let_def
  by (cases "cstate (cls (crun es (NewCircuitStore cfg)) c)") auto

text \<open>C36: How many requests a recovering class lets through. From an open class, along any interleaving with the
  other classes in which no request of the class completes except by the caller's own cancellation, at most
  \<open>HalfOpenMax + 1\<close> of its requests are admitted; when they all come after the reset timeout, exactly the first
  \<open>HalfOpenMax + 1\<close> are. The documented maximum is \<open>HalfOpenMax\<close>.\<close>

theorem half_open_admits_one_extra:
  assumes "cstate (cls cs c) = CircuitOpen" and "0 \<le> sint (HalfOpenMax (config cs))" and "list_all (quiet c) es"
  shows "admissions c es cs \<le> nat (sint (HalfOpenMax (config cs))) + 1 \<and>
    (all_late c (lastFailure (cls cs c) + ResetTimeout (config cs)) es \<longrightarrow>
     admissions c es cs = min (requests c es) (nat (sint (HalfOpenMax (config cs))) + 1))"
  by (rule open_admissions [OF assms])

theorem half_open_admits_one_extra_witness:
  "admissions OpRead [Begin 30000000000 OpRead, Begin 30000000001 OpRead, Begin 30000000002 OpRead]
     (crun (fail_run OpRead (replicate 5 (0, [OtherErr 0]))) (NewCircuitStore DefaultCircuitConfig)) = 2"
  using half_open_admits_one_extra [of "crun (fail_run OpRead (replicate 5 (0, [OtherErr 0]))) (NewCircuitStore DefaultCircuitConfig)"
      OpRead "[Begin 30000000000 OpRead, Begin 30000000001 OpRead, Begin 30000000002 OpRead]"]
  by (simp add: numeral_eq_Suc NewCircuitStore_def zero_class_def DefaultCircuitConfig_def
      errors_Is_def second_def cb_defs all_late_def requests_def)

text \<open>C34: From a closed class with no counted failure, a burst of consecutive counted failures opens the
  breaker at exactly the threshold: one failure short of it the class is still closed, and at it the
  class is open, its opening counter has advanced by one and the failure time is recorded.\<close>

theorem breaker_opens_at_threshold:
  assumes "cstate (cls cs c) = CircuitClosed" and "failures (cls cs c) = 0"
    and "list_all (\<lambda>(t, e). counted e) xs" and "counted e"
    and "int (length xs) + 1 = sint (FailureThreshold (config cs))"
  shows "cstate (cls (crun (fail_run c xs) cs) c) = CircuitClosed \<and>
    (let c' = cls (crun (fail_run c (xs @ [(t, e)])) cs) c in
       cstate c' = CircuitOpen \<and> lastFailure c' = t \<and> failures c' = FailureThreshold (config cs) \<and>
       opened c' = opened (cls (crun (fail_run c xs) cs) c) + 1)"
proof -
  let ?f = "failures (cls (crun (fail_run c xs) cs) c)"
  have f: "cstate (cls (crun (fail_run c xs) cs) c) = CircuitClosed \<and> sint ?f = int (length xs)"
    using fail_run_closed [of xs cs c] assms by simp
  then have n: "sint (?f + 1) = sint (FailureThreshold (config cs))"
    using assms(5) sint_next [of ?f "FailureThreshold (config cs)"] by simp
  then have "?f + 1 = FailureThreshold (config cs)" by (rule signed_word_eqI)
  then show ?thesis
    using f n assms(4) by (auto simp: crun_append cb_defs counted_def)
qed

theorem breaker_opens_at_threshold_witness:
  "cstate (cls (crun (fail_run OpRead (replicate 4 (7, [OtherErr 0]) @ [(9, [OtherErr 1])]))
     (NewCircuitStore DefaultCircuitConfig)) OpRead) = CircuitOpen"
  using breaker_opens_at_threshold [of "NewCircuitStore DefaultCircuitConfig" OpRead
      "replicate 4 (7, [OtherErr 0])" "[OtherErr 1]" 9]
  by (simp add: NewCircuitStore_def zero_class_def DefaultCircuitConfig_def counted_def
      errors_Is_def Let_def list_all_iff)

text \<open>C35: While a class is open and the reset timeout has not elapsed, a request is answered
  \<open>ErrCircuitOpen\<close> without the inner store being called: the world and the breaker are unchanged.\<close>

theorem breaker_fast_fail:
  assumes "StateFor cs c = CircuitOpen" and "t0 - lastFailure (cls cs c) < ResetTimeout (config cs)"
  shows "guarded t0 t1 c fn cs w = (Inl [ErrCircuitOpen], cs, w)"
  using assms by (simp add: guarded_def beforeRequest_def StateFor_def)

theorem breaker_fast_fail_witness:
  "guarded 20 21 OpRead (\<lambda>w. (Inr (), w + 1))
     (crun (fail_run OpRead (replicate 5 (10, [OtherErr 0]))) (NewCircuitStore DefaultCircuitConfig))
     (0::nat) =
   (Inl [ErrCircuitOpen],
    crun (fail_run OpRead (replicate 5 (10, [OtherErr 0]))) (NewCircuitStore DefaultCircuitConfig), 0)"
  by (rule breaker_fast_fail)
    (simp_all add: numeral_eq_Suc NewCircuitStore_def zero_class_def DefaultCircuitConfig_def
      errors_Is_def StateFor_def second_def cb_defs)

text \<open>C37: A half-open class whose probes are used up stays closed to traffic for ever unless a probe
  completes with something other than the caller's cancellation: no elapsed time reopens it, every
  later request of the class is refused, and a cancelled probe does not give its slot back.\<close>

theorem breaker_half_open_wedge:
  assumes "exhausted c cs" and "list_all (quiet c) es"
  shows "beforeRequest now c (crun es cs) = (Some [ErrCircuitOpen], crun es cs)"
  using crun_exhausted [OF assms] by (simp add: exhausted_def beforeRequest_def Let_def)

text \<open>The wedge is reached from a new store: five failures open the class, the reset timeout lets two
  probes through, and both callers cancel.\<close>

abbreviation wedge_run :: "cevent list" where
  "wedge_run \<equiv> replicate 5 (Failure 0 OpRead [OtherErr 0]) @
     [Begin 30000000000 OpRead, Begin 30000000001 OpRead,
      Failure 30000000002 OpRead [ContextCanceled], Failure 30000000003 OpRead [ContextCanceled]]"

theorem breaker_half_open_wedge_witness:
  "beforeRequest 99000000000000 OpRead
     (crun [Begin 40000000000 OpRead] (crun wedge_run (NewCircuitStore DefaultCircuitConfig))) =
   (Some [ErrCircuitOpen],
     crun [Begin 40000000000 OpRead] (crun wedge_run (NewCircuitStore DefaultCircuitConfig)))"
  by (rule breaker_half_open_wedge)
    (simp_all add: numeral_eq_Suc NewCircuitStore_def zero_class_def DefaultCircuitConfig_def
      errors_Is_def second_def exhausted_def cb_defs)

end
