(* ===== verification/Mem_Tracker.thy ===== *)
theory Mem_Tracker
  imports Wadjet_Base
begin

text \<open>
  The hierarchical memory ledger: \<^verbatim>\<open>internal/engine/memory/tracker.go\<close>,
  \<^verbatim>\<open>forced.go\<close> and \<^verbatim>\<open>acquire.go\<close>. A \<^verbatim>\<open>*Tracker\<close> is its identity together with the
  fields no method writes (name, budget, parent); the atomic counters live in a store indexed by the
  identity. The int64 counters are 64-bit words, so \<open>+\<close> is the wrapping atomic \<^verbatim>\<open>Add\<close>, and
  comparisons read them as signed.
\<close>

section \<open>Purposes of a forced charge\<close>

type_synonym force_purpose = byte

definition ForceUnattributed :: force_purpose where "ForceUnattributed = 0"
definition ForceScanFileLoad :: force_purpose where "ForceScanFileLoad = 1"
definition ForceScanDecodedBatch :: force_purpose where "ForceScanDecodedBatch = 2"
definition ForceScanPooledBuffer :: force_purpose where "ForceScanPooledBuffer = 3"
definition ForceJoinIndex :: force_purpose where "ForceJoinIndex = 4"
definition ForceJoinPartitionStore :: force_purpose where "ForceJoinPartitionStore = 5"
definition ForceSpillTracking :: force_purpose where "ForceSpillTracking = 6"
definition numForcePurposes :: force_purpose where "numForcePurposes = 7"

definition purpose_String :: "force_purpose \<Rightarrow> string" where
  "purpose_String p =
     (if p = 1 then ''scan file load''
      else if p = 2 then ''scan decoded batch''
      else if p = 3 then ''scan pooled buffer''
      else if p = 4 then ''hash join index''
      else if p = 5 then ''hash join partition store''
      else if p = 6 then ''spill tracking''
      else ''unattributed'')"

section \<open>Trackers and their counters\<close>

datatype tracker = Tracker (tid: nat) (tname: string) (budget: i64) (parent: "tracker option")

record tstate =
  used :: i64
  peak :: i64
  forced :: "force_purpose \<Rightarrow> i64"
  underflowWarned :: bool
  published :: "u64 \<rightharpoonup> i64"

type_synonym mem = "nat \<Rightarrow> tstate"

definition fresh_tstate :: tstate where
  "fresh_tstate = \<lparr>used = 0, peak = 0, forced = (\<lambda>_. 0), underflowWarned = False,
     published = Map.empty\<rparr>"

text \<open>\<open>i\<close> is the identity of the new allocation.\<close>

definition NewTracker :: "nat \<Rightarrow> string \<Rightarrow> i64 \<Rightarrow> mem \<Rightarrow> tracker \<times> mem" where
  "NewTracker i nm b m = (Tracker i nm b None, m(i := fresh_tstate))"

definition Child :: "tracker \<Rightarrow> nat \<Rightarrow> string \<Rightarrow> mem \<Rightarrow> tracker \<times> mem" where
  "Child t i nm m = (Tracker i nm (budget t) (Some t), m(i := fresh_tstate))"

definition add_used :: "nat \<Rightarrow> i64 \<Rightarrow> mem \<Rightarrow> mem" where
  "add_used i n m = m(i := (m i)\<lparr>used := used (m i) + n\<rparr>)"

definition add_forced :: "nat \<Rightarrow> force_purpose \<Rightarrow> i64 \<Rightarrow> mem \<Rightarrow> mem" where
  "add_forced i p n m = m(i := (m i)\<lparr>forced := (forced (m i))(p := forced (m i) p + n)\<rparr>)"

definition bumpPeak :: "nat \<Rightarrow> i64 \<Rightarrow> mem \<Rightarrow> mem" where
  "bumpPeak i newUsed m =
     (if sint newUsed \<le> sint (peak (m i)) then m else m(i := (m i)\<lparr>peak := newUsed\<rparr>))"

definition warnIfUnderflow :: "nat \<Rightarrow> i64 \<Rightarrow> mem \<Rightarrow> mem" where
  "warnIfUnderflow i newUsed m =
     (if 0 \<le> sint newUsed \<or> underflowWarned (m i) then m
      else m(i := (m i)\<lparr>underflowWarned := True\<rparr>))"

datatype mem_err = ErrMemoryExceeded string i64 i64 i64 string | CtxErr

section \<open>The forced census\<close>

fun forced_scan ::
  "(force_purpose \<Rightarrow> i64) \<Rightarrow> force_purpose list \<Rightarrow> i64 \<Rightarrow> force_purpose \<Rightarrow> i64 \<Rightarrow>
     i64 \<times> force_purpose \<times> i64" where
  "forced_scan f [] tot topP topBytes = (tot, topP, topBytes)"
| "forced_scan f (p # ps) tot topP topBytes =
     (let n = f p in
      if sint n \<le> 0 then forced_scan f ps tot topP topBytes
      else if sint topBytes < sint n then forced_scan f ps (tot + n) p n
      else forced_scan f ps (tot + n) topP topBytes)"

definition all_purposes :: "force_purpose list" where
  "all_purposes = map word_of_nat [0..<unat numForcePurposes]"

definition ForcedBytes :: "tracker \<Rightarrow> mem \<Rightarrow> i64 \<times> force_purpose \<times> i64" where
  "ForcedBytes t m = forced_scan (forced (m (tid t))) all_purposes 0 0 0"

definition ForcedFor :: "tracker \<Rightarrow> force_purpose \<Rightarrow> mem \<Rightarrow> i64" where
  "ForcedFor t p m = (if numForcePurposes \<le> p then 0 else forced (m (tid t)) p)"

text \<open>The suffix of a refusal: \<^verbatim>\<open>%d\<close> of an int64 is its decimal rendering and \<^verbatim>\<open>%q\<close> of a purpose name, which
  needs no escape, is the name in double quotes.\<close>

definition quoted :: "string \<Rightarrow> string" where "quoted s = [CHR 0x22] @ s @ [CHR 0x22]"

definition forcedSuffix :: "(force_purpose \<Rightarrow> i64) \<Rightarrow> string" where
  "forcedSuffix f =
     (case forced_scan f all_purposes 0 0 0 of (tot, topP, topBytes) \<Rightarrow>
        if sint tot \<le> 0 then []
        else if tot = topBytes then
          '', of which forced='' @ show_int (sint tot) @ '' by '' @ quoted (purpose_String topP)
        else
          '', of which forced='' @ show_int (sint tot) @ '' (largest: '' @ show_int (sint topBytes) @
          '' by '' @ quoted (purpose_String topP) @ '')'')"

section \<open>Reserve, release, transfer\<close>

fun Reserve :: "tracker \<Rightarrow> i64 \<Rightarrow> mem \<Rightarrow> mem_err option \<times> mem" where
  "Reserve (Tracker i nm b par) n m =
     (let newUsed = used (m i) + n; m1 = add_used i n m in
      if 0 < sint b \<and> sint b < sint newUsed
      then (Some (ErrMemoryExceeded nm (newUsed - n) n b (forcedSuffix (forced (m i)))),
            add_used i (- n) m1)
      else
        case par of
          None \<Rightarrow> (None, bumpPeak i newUsed m1)
        | Some p \<Rightarrow>
            (case Reserve p n m1 of
               (Some e, m2) \<Rightarrow> (Some e, add_used i (- n) m2)
             | (None, m2) \<Rightarrow> (None, bumpPeak i newUsed m2)))"

fun Release :: "tracker \<Rightarrow> i64 \<Rightarrow> mem \<Rightarrow> mem" where
  "Release (Tracker i nm b par) n m =
     (let newUsed = used (m i) - n;
          m1 = warnIfUnderflow i newUsed (add_used i (- n) m)
      in case par of None \<Rightarrow> m1 | Some p \<Rightarrow> Release p n m1)"

fun addUsed :: "tracker \<Rightarrow> i64 \<Rightarrow> mem \<Rightarrow> mem" where
  "addUsed (Tracker i nm b par) n m =
     (let newUsed = used (m i) + n; m1 = add_used i n m;
          m2 = (case par of None \<Rightarrow> m1 | Some p \<Rightarrow> addUsed p n m1)
      in bumpPeak i newUsed m2)"

definition Transfer :: "tracker option \<Rightarrow> tracker option \<Rightarrow> i64 \<Rightarrow> mem \<Rightarrow> mem" where
  "Transfer from to n m =
     (case (from, to) of
        (Some f, Some t) \<Rightarrow>
          if sint n \<le> 0 \<or> tid f = tid t then m
          else
            let newFrom = used (m (tid f)) - n;
                m1 = add_used (tid f) (- n) m;
                m2 = (if sint newFrom < 0 then add_used (tid f) (- newFrom) m1 else m1);
                m3 = (case parent f of None \<Rightarrow> m2 | Some p \<Rightarrow> Release p n m2)
            in addUsed t n m3
      | _ \<Rightarrow> m)"

definition norm_purpose :: "force_purpose \<Rightarrow> force_purpose" where
  "norm_purpose p = (if numForcePurposes \<le> p then ForceUnattributed else p)"

fun ForceReserveFor :: "tracker \<Rightarrow> i64 \<Rightarrow> force_purpose \<Rightarrow> mem \<Rightarrow> mem" where
  "ForceReserveFor (Tracker i nm b par) n p m =
     (if n = 0 then m
      else
        let p = norm_purpose p;
            newUsed = used (m i) + n;
            m1 = add_forced i p n (add_used i n m);
            m2 = (case par of None \<Rightarrow> m1 | Some q \<Rightarrow> ForceReserveFor q n p m1)
        in bumpPeak i newUsed m2)"

definition ForceReserve :: "tracker \<Rightarrow> i64 \<Rightarrow> mem \<Rightarrow> mem" where
  "ForceReserve t n m = ForceReserveFor t n ForceUnattributed m"

fun ReleaseForced :: "tracker \<Rightarrow> i64 \<Rightarrow> force_purpose \<Rightarrow> mem \<Rightarrow> mem" where
  "ReleaseForced (Tracker i nm b par) n p m =
     (if n = 0 then m
      else
        let p = norm_purpose p;
            newUsed = used (m i) - n;
            m1 = warnIfUnderflow i newUsed (add_used i (- n) (add_forced i p (- n) m))
        in case par of None \<Rightarrow> m1 | Some q \<Rightarrow> ReleaseForced q n p m1)"

definition Reset :: "tracker \<Rightarrow> mem \<Rightarrow> mem" where
  "Reset t m = m(tid t := (m (tid t))\<lparr>used := 0, forced := (\<lambda>_. 0)\<rparr>)"

section \<open>Published footprints\<close>

definition PublishOwned :: "tracker \<Rightarrow> u64 \<Rightarrow> i64 \<Rightarrow> mem \<Rightarrow> mem" where
  "PublishOwned t k owned m =
     m(tid t := (m (tid t))\<lparr>published := (published (m (tid t)))(k \<mapsto> owned)\<rparr>)"

definition UnpublishOwned :: "tracker \<Rightarrow> u64 \<Rightarrow> mem \<Rightarrow> mem" where
  "UnpublishOwned t k m =
     m(tid t := (m (tid t))\<lparr>published := (published (m (tid t)))(k := None)\<rparr>)"

definition OwnedFor :: "tracker \<Rightarrow> u64 \<Rightarrow> mem \<Rightarrow> i64" where
  "OwnedFor t k m = (case published (m (tid t)) k of None \<Rightarrow> 0 | Some v \<Rightarrow> v)"

definition OwnedTotal :: "tracker \<Rightarrow> mem \<Rightarrow> i64" where
  "OwnedTotal t m = (\<Sum>k\<in>dom (published (m (tid t))). the (published (m (tid t)) k))"

section \<open>Waiting for the budget\<close>

text \<open>Between two attempts of a polling reservation other goroutines run: a wake-up is either the poll
  timer after some change of the ledger, or the context's end. A schedule that ends before the loop
  does is a loop still waiting (\<open>None\<close>).\<close>

datatype wake = Poll "mem \<Rightarrow> mem" | Done

fun ReserveBlocking :: "tracker \<Rightarrow> i64 \<Rightarrow> wake list \<Rightarrow> mem \<Rightarrow> (mem_err option \<times> mem) option" where
  "ReserveBlocking t n ws m =
     (case Reserve t n m of
        (None, m1) \<Rightarrow> Some (None, m1)
      | (Some CtxErr, m1) \<Rightarrow> Some (Some CtxErr, m1)
      | (Some (ErrMemoryExceeded a b c d e), m1) \<Rightarrow>
          (case ws of
             [] \<Rightarrow> None
           | Done # _ \<Rightarrow> Some (Some CtxErr, m1)
           | Poll f # ws' \<Rightarrow> ReserveBlocking t n ws' (f m1)))"

definition forceWithWarning :: "tracker \<Rightarrow> i64 \<Rightarrow> force_purpose \<Rightarrow> mem \<Rightarrow> bool \<times> mem" where
  "forceWithWarning t n p m = (True, ForceReserveFor t n p m)"

text \<open>\<open>relief\<close> is the spill manager's \<open>RequestRelief\<close>, \<open>None\<close> where the caller has no manager;
  \<open>wait\<close> is the schedule of the bounded wait, which always ends with \<open>Done\<close>, or \<open>None\<close> for a
  wait of zero.\<close>

definition ReserveOrForce ::
  "tracker option \<Rightarrow> (i64 \<Rightarrow> mem \<Rightarrow> mem) option \<Rightarrow> i64 \<Rightarrow> wake list option \<Rightarrow> force_purpose \<Rightarrow>
     mem \<Rightarrow> (bool \<times> mem) option" where
  "ReserveOrForce t0 relief n wait p m =
     (case t0 of
        None \<Rightarrow> Some (False, m)
      | Some t \<Rightarrow>
          if sint n \<le> 0 then Some (False, m)
          else
            case Reserve t n m of
              (None, m1) \<Rightarrow> Some (False, m1)
            | (Some CtxErr, m1) \<Rightarrow> Some (True, ForceReserveFor t n p m1)
            | (Some _, m1) \<Rightarrow>
                if 0 < sint (budget t) \<and> sint (budget t) < sint n
                then Some (forceWithWarning t n p m1)
                else
                  let m2 = (case relief of None \<Rightarrow> m1 | Some r \<Rightarrow> r n m1) in
                  case wait of
                    None \<Rightarrow> Some (forceWithWarning t n p m2)
                  | Some ws \<Rightarrow>
                      (case ReserveBlocking t n ws m2 of
                         None \<Rightarrow> None
                       | Some (None, m3) \<Rightarrow> Some (False, m3)
                       | Some (Some _, m3) \<Rightarrow> Some (forceWithWarning t n p m3)))"


section \<open>The ledger walks the ancestor chain\<close>

fun chain :: "tracker \<Rightarrow> tracker list" where
  "chain (Tracker i nm b par) =
     Tracker i nm b par # (case par of None \<Rightarrow> [] | Some p \<Rightarrow> chain p)"

abbreviation tids :: "tracker \<Rightarrow> nat list" where
  "tids t \<equiv> map tid (chain t)"

abbreviation fits :: "tracker \<Rightarrow> i64 \<Rightarrow> mem \<Rightarrow> bool" where
  "fits u n m \<equiv> \<not> (0 < sint (budget u) \<and> sint (budget u) < sint (used (m (tid u)) + n))"

lemma add_used_cancel [simp]: "add_used i (- n) (add_used i n m) = m"
  by (simp add: add_used_def)

lemma used_add_used: "used (add_used i n m j) = used (m j) + (if i = j then n else 0)"
  by (simp add: add_used_def)

lemma peak_add_used [simp]: "peak (add_used i n m j) = peak (m j)"
  by (simp add: add_used_def)

lemma forced_add_used [simp]: "forced (add_used i n m j) = forced (m j)"
  by (simp add: add_used_def)

lemma used_add_forced [simp]: "used (add_forced i p n m j) = used (m j)"
  by (simp add: add_forced_def)

lemma forced_add_forced:
  "forced (add_forced i p n m j) q = forced (m j) q + (if i = j \<and> p = q then n else 0)"
  by (simp add: add_forced_def)

lemma used_bumpPeak [simp]: "used (bumpPeak i v m j) = used (m j)"
  by (simp add: bumpPeak_def)

lemma forced_bumpPeak [simp]: "forced (bumpPeak i v m j) = forced (m j)"
  by (simp add: bumpPeak_def)

lemma sint_peak_bumpPeak:
  "sint (peak (bumpPeak i v m j)) =
   (if i = j then max (sint (peak (m j))) (sint v) else sint (peak (m j)))"
  by (auto simp: bumpPeak_def)

lemma used_warn [simp]: "used (warnIfUnderflow i v m j) = used (m j)"
  by (simp add: warnIfUnderflow_def)

lemma forced_warn [simp]: "forced (warnIfUnderflow i v m j) = forced (m j)"
  by (simp add: warnIfUnderflow_def)

lemma peak_warn [simp]: "peak (warnIfUnderflow i v m j) = peak (m j)"
  by (simp add: warnIfUnderflow_def)

lemmas ledger_simps = used_add_used forced_add_forced sint_peak_bumpPeak

lemma Reserve_refused_unchanged: "Reserve t n m = (Some e, m') \<Longrightarrow> m' = m"
proof (induction t n m arbitrary: e m' rule: Reserve.induct)
  case (1 i nm b par n m)
  show ?case
  proof (cases par)
    case None
    with 1 show ?thesis by (auto simp: Let_def split: if_splits)
  next
    case (Some p)
    show ?thesis
    proof (cases "0 < sint b \<and> sint b < sint (used (m i) + n)")
      case True
      with 1 show ?thesis by (simp add: Let_def)
    next
      case False
      with 1(2) Some obtain e2 m2
        where r: "Reserve p n (add_used i n m) = (Some e2, m2)" and m': "m' = add_used i (- n) m2"
        by (auto simp: Let_def split: prod.splits option.splits)
      have "m2 = add_used i n m"
        using 1(1) False Some r by (simp add: Let_def)
      with m' show ?thesis by simp
    qed
  qed
qed

lemma Reserve_used:
  "distinct (tids t) \<Longrightarrow> Reserve t n m = (None, m') \<Longrightarrow>
   used (m' j) = used (m j) + (if j \<in> set (tids t) then n else 0)"
proof (induction t n m arbitrary: m' rule: Reserve.induct)
  case (1 i nm b par n m)
  from 1(3) have fit: "\<not> (0 < sint b \<and> sint b < sint (used (m i) + n))"
    by (auto simp: Let_def)
  show ?case
  proof (cases par)
    case None
    with 1(3) fit have "m' = bumpPeak i (used (m i) + n) (add_used i n m)"
      by (simp add: Let_def)
    with None show ?thesis by (simp add: used_add_used)
  next
    case (Some p)
    with 1(3) fit obtain m2 where r: "Reserve p n (add_used i n m) = (None, m2)"
      and m': "m' = bumpPeak i (used (m i) + n) m2"
      by (auto simp: Let_def split: prod.splits option.splits)
    have "used (m2 j) = used (add_used i n m j) + (if j \<in> set (tids p) then n else 0)"
      using 1(1) [OF refl refl fit Some _ r] 1(2) Some by simp
    moreover have "i \<notin> set (tids p)" using 1(2) Some by simp
    ultimately show ?thesis using Some m' by (auto simp: used_add_used)
  qed
qed

lemma Reserve_succeeds_iff:
  "distinct (tids t) \<Longrightarrow> (fst (Reserve t n m) = None) = (\<forall>u \<in> set (chain t). fits u n m)"
proof (induction t n m rule: Reserve.induct)
  case (1 i nm b par n m)
  show ?case
  proof (cases par)
    case None
    then show ?thesis by (simp add: Let_def)
  next
    case (Some p)
    have nin: "u \<in> set (chain p) \<Longrightarrow> tid u \<noteq> i" for u
      using 1(2) Some by auto
    have step: "fits u n (add_used i n m) = fits u n m" if "u \<in> set (chain p)" for u
      using nin [OF that] by (simp add: used_add_used)
    have "(fst (Reserve p n (add_used i n m)) = None) = (\<forall>u \<in> set (chain p). fits u n m)"
      if "\<not> (0 < sint b \<and> sint b < sint (used (m i) + n))"
    proof -
      have "(fst (Reserve p n (add_used i n m)) = None) =
          (\<forall>u \<in> set (chain p). fits u n (add_used i n m))"
        using 1 Some that by (simp add: Let_def)
      also have "\<dots> = (\<forall>u \<in> set (chain p). fits u n m)"
        using step by blast
      finally show ?thesis .
    qed
    then show ?thesis
      using Some by (auto simp: Let_def split: prod.splits option.splits)
  qed
qed

lemma Release_used:
  "distinct (tids t) \<Longrightarrow>
   used (Release t n m j) = used (m j) - (if j \<in> set (tids t) then n else 0)"
  by (induction t n m rule: Release.induct)
    (auto simp: Let_def used_add_used split: option.splits)

lemma addUsed_used:
  "distinct (tids t) \<Longrightarrow>
   used (addUsed t n m j) = used (m j) + (if j \<in> set (tids t) then n else 0)"
  by (induction t n m rule: addUsed.induct)
    (auto simp: Let_def used_add_used split: option.splits)

lemma ForceReserveFor_used:
  "distinct (tids t) \<Longrightarrow>
   used (ForceReserveFor t n p m j) = used (m j) + (if j \<in> set (tids t) then n else 0)"
  by (induction t n p m rule: ForceReserveFor.induct)
    (auto simp: Let_def used_add_used split: option.splits)

lemma norm_purpose_idem [simp]: "norm_purpose (norm_purpose p) = norm_purpose p"
  by (simp add: norm_purpose_def ForceUnattributed_def numForcePurposes_def)

lemma ForceReserveFor_forced:
  "distinct (tids t) \<Longrightarrow>
   forced (ForceReserveFor t n p m j) q =
     forced (m j) q + (if j \<in> set (tids t) \<and> norm_purpose p = q then n else 0)"
  by (induction t n p m rule: ForceReserveFor.induct)
    (auto simp: Let_def forced_add_forced split: option.splits)

lemma ReleaseForced_used:
  "distinct (tids t) \<Longrightarrow>
   used (ReleaseForced t n p m j) = used (m j) - (if j \<in> set (tids t) then n else 0)"
  by (induction t n p m rule: ReleaseForced.induct)
    (auto simp: Let_def used_add_used split: option.splits)

lemma ReleaseForced_forced:
  "distinct (tids t) \<Longrightarrow>
   forced (ReleaseForced t n p m j) q =
     forced (m j) q - (if j \<in> set (tids t) \<and> norm_purpose p = q then n else 0)"
  by (induction t n p m rule: ReleaseForced.induct)
    (auto simp: Let_def forced_add_forced split: option.splits)

lemma Reserve_forced: "forced (snd (Reserve t n m) j) = forced (m j)"
proof (induction t n m rule: Reserve.induct)
  case (1 i nm b par n m)
  show ?case
  proof (cases "0 < sint b \<and> sint b < sint (used (m i) + n) \<or> par = None")
    case True
    then show ?thesis by (auto simp: Let_def)
  next
    case False
    then obtain p where p: "par = Some p" and fit: "\<not> (0 < sint b \<and> sint b < sint (used (m i) + n))"
      by auto
    have "forced (snd (Reserve p n (add_used i n m)) j) = forced (m j)"
      using 1 [OF refl refl fit p] by simp
    with p fit show ?thesis
      by (auto simp: Let_def split: prod.splits option.splits)
  qed
qed

text \<open>The scan of the census adds the positive entries and keeps the first of the largest.\<close>

definition first_max :: "(force_purpose \<Rightarrow> i64) \<Rightarrow> force_purpose list \<Rightarrow> i64 \<Rightarrow> force_purpose \<Rightarrow> i64 \<Rightarrow> bool" where
  "first_max f ps b0 tp tb =
     (\<exists>us vs. ps = us @ tp # vs \<and> 0 < sint tb \<and> f tp = tb \<and> sint b0 < sint tb \<and> (\<forall>q\<in>set us. sint (f q) < sint tb))"

lemma first_max_Cons:
  "first_max f ps b tp tb \<Longrightarrow> sint b0 \<le> sint b \<Longrightarrow> sint (f p) \<le> 0 \<or> sint (f p) \<le> sint b \<Longrightarrow> first_max f (p # ps) b0 tp tb"
proof -
  assume fm: "first_max f ps b tp tb" and b: "sint b0 \<le> sint b" and p: "sint (f p) \<le> 0 \<or> sint (f p) \<le> sint b"
  then obtain us vs where "ps = us @ tp # vs" "0 < sint tb" "f tp = tb" "sint b < sint tb" "\<forall>q\<in>set us. sint (f q) < sint tb"
    unfolding first_max_def by blast
  then show "first_max f (p # ps) b0 tp tb"
    unfolding first_max_def using b p by (intro exI [of _ "p # us"] exI [of _ vs]) auto
qed

lemma first_max_here: "0 < sint (f p) \<Longrightarrow> sint b0 < sint (f p) \<Longrightarrow> first_max f (p # ps) b0 p (f p)"
  unfolding first_max_def by (intro exI [of _ "[]"] exI [of _ ps]) simp

definition scan_ok ::
  "(force_purpose \<Rightarrow> i64) \<Rightarrow> force_purpose list \<Rightarrow> i64 \<Rightarrow> force_purpose \<Rightarrow> i64 \<Rightarrow> i64 \<times> force_purpose \<times> i64 \<Rightarrow> bool" where
  "scan_ok f ps tot p0 b0 r = (case r of (tot', tp, tb) \<Rightarrow>
     tot' = tot + (\<Sum>p\<leftarrow>ps. if 0 < sint (f p) then f p else 0) \<and>
     (\<forall>q\<in>set ps. 0 < sint (f q) \<longrightarrow> sint (f q) \<le> sint tb) \<and> sint b0 \<le> sint tb \<and>
     (tb = b0 \<and> tp = p0 \<or> first_max f ps b0 tp tb))"

lemma forced_scan_ok: "0 \<le> sint b0 \<Longrightarrow> scan_ok f ps tot p0 b0 (forced_scan f ps tot p0 b0)"
proof (induction ps arbitrary: tot p0 b0)
  case (Cons p ps)
  consider "sint (f p) \<le> 0" | "0 < sint (f p)" "sint b0 < sint (f p)" | "0 < sint (f p)" "sint (f p) \<le> sint b0" by linarith
  then show ?case
  proof cases
    case 1
    then show ?thesis using Cons.IH [OF Cons.prems, of tot p0] first_max_Cons [of f ps b0 _ _ b0 p]
      by (auto simp: scan_ok_def Let_def)
  next
    case 2
    then show ?thesis using Cons.IH [of "f p" "tot + f p" p] first_max_Cons [of f ps "f p" _ _ b0 p] first_max_here [of f p b0 ps]
      by (auto simp: scan_ok_def Let_def add.assoc)
  next
    case 3
    then show ?thesis using Cons.IH [OF Cons.prems, of "tot + f p" p0] first_max_Cons [of f ps b0 _ _ b0 p]
      by (auto simp: scan_ok_def Let_def add.assoc)
  qed
qed (simp add: scan_ok_def)

declare ReserveBlocking.simps [simp del]

text \<open>The ledger states a polling reservation sees: each poll applies the other goroutines' changes.\<close>

fun polled :: "wake list \<Rightarrow> mem \<Rightarrow> mem list" where
  "polled (Poll f # ws) m = m # polled ws (f m)"
| "polled _ m = [m]"

lemma ReserveBlocking_cases:
  "ReserveBlocking t n ws m = Some (r, m') \<Longrightarrow>
   \<exists>m0 \<in> set (polled ws m).
     (r = None \<and> Reserve t n m0 = (None, m')) \<or> (r = Some CtxErr \<and> m' = m0)"
proof (induction ws arbitrary: m)
  case Nil
  then show ?case
    by (subst (asm) ReserveBlocking.simps)
      (auto split: prod.splits option.splits mem_err.splits dest: Reserve_refused_unchanged)
next
  case (Cons w ws)
  obtain e m1 where r: "Reserve t n m = (e, m1)" by fastforce
  show ?case
  proof (cases e)
    case None
    with Cons.prems r show ?thesis
      by (subst (asm) ReserveBlocking.simps) (cases w; simp)
  next
    case (Some err)
    with r have m1: "m1 = m" by (simp add: Reserve_refused_unchanged)
    show ?thesis
    proof (cases err)
      case CtxErr
      with Cons.prems r Some m1 show ?thesis
        by (subst (asm) ReserveBlocking.simps) (cases w; simp)
    next
      case (ErrMemoryExceeded a b c d x)
      show ?thesis
      proof (cases w)
        case (Poll f)
        have "ReserveBlocking t n ws (f m) = Some (r, m')"
          if "ReserveBlocking t n (w # ws) m = Some (r, m')" for r m'
          using that r Some m1 ErrMemoryExceeded Poll by (subst (asm) ReserveBlocking.simps) simp
        with Cons Poll show ?thesis by fastforce
      next
        case Done
        with Cons.prems r Some m1 ErrMemoryExceeded show ?thesis
          by (subst (asm) ReserveBlocking.simps) simp
      qed
    qed
  qed
qed

lemma ReserveBlocking_returns:
  "Done \<in> set ws \<Longrightarrow> \<exists>r. ReserveBlocking t n ws m = Some r"
proof (induction ws arbitrary: m)
  case (Cons w ws)
  show ?case
    using Cons
    by (subst ReserveBlocking.simps)
      (cases w; auto split: prod.splits option.splits mem_err.splits)
qed simp

lemma ReserveOrForce_refused:
  assumes "Reserve t n m = (Some err, m)" and "0 < sint n"
    and "m2 = (case relief of None \<Rightarrow> m | Some r \<Rightarrow> r n m)"
  shows "(\<exists>x \<in> {m, m2}. ReserveOrForce (Some t) relief n wait p m = Some (True, ForceReserveFor t n p x)) \<or>
    (\<exists>ws. wait = Some ws \<and> ReserveOrForce (Some t) relief n wait p m =
       (case ReserveBlocking t n ws m2 of None \<Rightarrow> None | Some (None, m3) \<Rightarrow> Some (False, m3)
          | Some (Some _, m3) \<Rightarrow> Some (forceWithWarning t n p m3)))"
proof (cases err)
  case CtxErr
  with assms show ?thesis by (auto simp: ReserveOrForce_def)
next
  case (ErrMemoryExceeded a b c d e)
  then show ?thesis
    using assms
    by (cases "0 < sint (budget t) \<and> sint (budget t) < sint n"; cases wait)
      (simp_all add: ReserveOrForce_def forceWithWarning_def Let_def)
qed

section \<open>Properties\<close>

text \<open>C2: A reservation is all or nothing along the ancestor chain. It succeeds exactly when the request
  fits the budget of every tracker from the leaf to the root; then every tracker of the chain is
  charged once, no other tracker moves, and no positive budget on the chain is exceeded. A refused
  reservation leaves the whole ledger, peaks included, as it was.\<close>

theorem reserve_all_or_nothing:
  assumes "distinct (tids t)"
  shows "(fst (Reserve t n m) = None) = (\<forall>u \<in> set (chain t). fits u n m) \<and>
    (case Reserve t n m of
       (Some e, m') \<Rightarrow> m' = m
     | (None, m') \<Rightarrow>
         (\<forall>j. used (m' j) = used (m j) + (if j \<in> set (tids t) then n else 0)) \<and>
         (\<forall>u \<in> set (chain t). 0 < sint (budget u) \<longrightarrow> sint (used (m' (tid u))) \<le> sint (budget u)))"
proof (cases "Reserve t n m")
  case (Pair e m')
  show ?thesis
  proof (cases e)
    case None
    with Pair have u: "used (m' j) = used (m j) + (if j \<in> set (tids t) then n else 0)" for j
      using Reserve_used [OF assms] by simp
    moreover have "\<forall>u \<in> set (chain t). fits u n m"
      using Reserve_succeeds_iff [OF assms, of n m] Pair None by simp
    ultimately show ?thesis
      using Pair None Reserve_succeeds_iff [OF assms, of n m] by force
  next
    case (Some x)
    then show ?thesis
      using Pair Reserve_succeeds_iff [OF assms, of n m] by (simp add: Reserve_refused_unchanged)
  qed
qed

abbreviation root_ex :: tracker where "root_ex \<equiv> Tracker 0 ''query'' 100 None"
abbreviation leaf_ex :: tracker where "leaf_ex \<equiv> Tracker 1 ''sort'' 100 (Some root_ex)"
abbreviation leaf2_ex :: tracker where "leaf2_ex \<equiv> Tracker 2 ''join'' 100 (Some root_ex)"

theorem reserve_all_or_nothing_witness:
  "used (snd (Reserve leaf_ex 60 (\<lambda>_. fresh_tstate)) 0) = 60 \<and>
   snd (Reserve leaf2_ex 60 (snd (Reserve leaf_ex 60 (\<lambda>_. fresh_tstate)))) =
   snd (Reserve leaf_ex 60 (\<lambda>_. fresh_tstate))"
  using reserve_all_or_nothing [of leaf_ex 60 "\<lambda>_. fresh_tstate"]
    reserve_all_or_nothing [of leaf2_ex 60 "snd (Reserve leaf_ex 60 (\<lambda>_. fresh_tstate))"]
  by (simp add: Let_def fresh_tstate_def add_used_def bumpPeak_def)

text \<open>C3: The forced census conserves: releasing a forced charge under the purpose it was taken for
  restores both the usage and the census of every tracker, whatever the purpose value (an
  out-of-range purpose is charged and released as unattributed).\<close>

theorem forced_charge_roundtrip:
  assumes "distinct (tids t)"
  shows "used (ReleaseForced t n p (ForceReserveFor t n p m) j) = used (m j) \<and>
    forced (ReleaseForced t n p (ForceReserveFor t n p m) j) q = forced (m j) q"
  using assms
  by (simp add: ReleaseForced_used ReleaseForced_forced ForceReserveFor_used ForceReserveFor_forced)

theorem forced_charge_roundtrip_witness:
  "used (ReleaseForced leaf_ex 7 9 (ForceReserveFor leaf_ex 7 9 (\<lambda>_. fresh_tstate)) 0) = 0"
  using forced_charge_roundtrip [of leaf_ex 7 9 "\<lambda>_. fresh_tstate" 0 0] by (simp add: fresh_tstate_def)

text \<open>C21: What a transfer of \<open>n\<close> bytes does to every counter, the underflow of the source included. Nothing moves
  when \<open>n\<close> is not positive or the trackers are the same one. Otherwise every ancestor of the source gives up
  \<open>n\<close>, the source gives up \<open>n\<close> or, when that would take it below zero, is clamped to zero, and the destination and
  its ancestors gain the full \<open>n\<close>; so a common ancestor keeps its total in both cases.\<close>

theorem transfer_accounting:
  assumes "distinct (tids f)" and "distinct (tids t)"
  shows "used (Transfer (Some f) (Some t) n m j) =
    (if sint n \<le> 0 \<or> tid f = tid t then used (m j)
     else (if j = tid f \<and> sint (used (m j) - n) < 0 then 0 else used (m j) - (if j \<in> set (tids f) then n else 0)) +
          (if j \<in> set (tids t) then n else 0))"
proof (cases f)
  case (Tracker i nm b par)
  have f: "tid f = i" using Tracker by simp
  show ?thesis
  proof (cases par)
    case None
    then show ?thesis using assms Tracker f
      by (auto simp: Transfer_def Let_def addUsed_used used_add_used)
  next
    case (Some p)
    then have "distinct (tids p)" "i \<notin> set (tids p)" using assms(1) Tracker by auto
    then show ?thesis using assms Tracker f Some
      by (auto simp: Transfer_def Let_def addUsed_used Release_used used_add_used)
  qed
qed

theorem transfer_accounting_witness:
  "used (Transfer (Some leaf_ex) (Some leaf2_ex) 5 (snd (Reserve leaf_ex 60 (\<lambda>_. fresh_tstate))) 0) = 60 \<and>
   used (Transfer (Some leaf_ex) (Some leaf2_ex) 5 (snd (Reserve leaf_ex 3 (\<lambda>_. fresh_tstate))) 1) = 0 \<and>
   used (Transfer (Some leaf_ex) (Some leaf2_ex) 5 (snd (Reserve leaf_ex 3 (\<lambda>_. fresh_tstate))) 2) = 5"
  using transfer_accounting [of leaf_ex leaf2_ex 5 "snd (Reserve leaf_ex 60 (\<lambda>_. fresh_tstate))" 0]
    transfer_accounting [of leaf_ex leaf2_ex 5 "snd (Reserve leaf_ex 3 (\<lambda>_. fresh_tstate))" 1]
    transfer_accounting [of leaf_ex leaf2_ex 5 "snd (Reserve leaf_ex 3 (\<lambda>_. fresh_tstate))" 2]
  by (simp add: Let_def fresh_tstate_def add_used_def bumpPeak_def)

text \<open>C22: The census a refusal reports is exact: \<^verbatim>\<open>ForcedBytes\<close> returns the sum of the positive entries, and the
  purpose it names is the first one of the largest positive entry, or purpose 0 with 0 bytes when there is none.\<close>

theorem forced_bytes_names_largest:
  "case ForcedBytes t m of (tot, topP, topBytes) \<Rightarrow>
     tot = (\<Sum>p\<leftarrow>all_purposes. if 0 < sint (forced (m (tid t)) p) then forced (m (tid t)) p else 0) \<and>
     (\<forall>q\<in>set all_purposes. 0 < sint (forced (m (tid t)) q) \<longrightarrow> sint (forced (m (tid t)) q) \<le> sint topBytes) \<and>
     (topBytes = 0 \<and> topP = 0 \<or>
      (\<exists>us vs. all_purposes = us @ topP # vs \<and> 0 < sint topBytes \<and> forced (m (tid t)) topP = topBytes \<and>
         (\<forall>q\<in>set us. sint (forced (m (tid t)) q) < sint topBytes)))"
  using forced_scan_ok [of 0 "forced (m (tid t))" all_purposes 0 0]
  unfolding ForcedBytes_def scan_ok_def first_max_def by (auto split: prod.splits)

abbreviation census_ex :: mem where "census_ex \<equiv> \<lambda>_. fresh_tstate\<lparr>forced := (\<lambda>_. 0)(1 := 100, 2 := 50)\<rparr>"

theorem forced_bytes_names_largest_witness:
  "fst (ForcedBytes leaf_ex census_ex) = 150 \<and> 100 \<le> sint (snd (snd (ForcedBytes leaf_ex census_ex)))"
  using forced_bytes_names_largest [where t = leaf_ex and m = census_ex]
  by (cases "ForcedBytes leaf_ex census_ex") (simp add: all_purposes_def numForcePurposes_def upt_rec)

text \<open>C23: \<open>ReserveOrForce\<close> never lets an allocation go unaccounted and never charges twice. Whatever
  relief and the other goroutines do meanwhile, when the bounded wait ends it returns, and its final
  ledger is one state it observed plus exactly \<open>n\<close> bytes on every tracker of the chain; the bytes are
  in the forced census under the caller's purpose exactly when it reports a forced reservation.\<close>

theorem reserve_or_force_charges_once:
  assumes "distinct (tids t)" and "0 < sint n" and "case wait of None \<Rightarrow> True | Some ws \<Rightarrow> Done \<in> set ws"
  shows "\<exists>fcd m' m0. ReserveOrForce (Some t) relief n wait p m = Some (fcd, m') \<and>
    m0 \<in> set (m # (case wait of None \<Rightarrow> [] | Some ws \<Rightarrow> polled ws ((case relief of None \<Rightarrow> m | Some r \<Rightarrow> r n m)))
       @ [(case relief of None \<Rightarrow> m | Some r \<Rightarrow> r n m)]) \<and>
    (\<forall>j. used (m' j) = used (m0 j) + (if j \<in> set (tids t) then n else 0)) \<and>
    (\<forall>j q. forced (m' j) q = forced (m0 j) q +
       (if fcd \<and> j \<in> set (tids t) \<and> norm_purpose p = q then n else 0))"
proof -
  have F: "(\<forall>j. used (ForceReserveFor t n p x j) = used (x j) + (if j \<in> set (tids t) then n else 0)) \<and>
      (\<forall>j q. forced (ForceReserveFor t n p x j) q =
         forced (x j) q + (if j \<in> set (tids t) \<and> norm_purpose p = q then n else 0))" for x
    using assms(1) by (simp add: ForceReserveFor_used ForceReserveFor_forced)
  have R: "(\<forall>j. used (x' j) = used (x j) + (if j \<in> set (tids t) then n else 0)) \<and>
      (\<forall>j q. forced (x' j) q = forced (x j) q)" if "Reserve t n x = (None, x')" for x x'
    using Reserve_used [OF assms(1) that] Reserve_forced [of t n x] that by simp
  let ?m2 = "case relief of None \<Rightarrow> m | Some r \<Rightarrow> r n m"
  obtain e m1 where r: "Reserve t n m = (e, m1)" by fastforce
  show ?thesis
  proof (cases e)
    case None
    with r R [of m m1] assms(2) show ?thesis
      by (intro exI [of _ False] exI [of _ m1] exI [of _ m]) (simp add: ReserveOrForce_def)
  next
    case (Some err)
    with r have m1: "m1 = m" by (simp add: Reserve_refused_unchanged)
    from ReserveOrForce_refused [of t n m err ?m2 relief wait p] r Some m1 assms(2)
    consider (direct) x where "x \<in> {m, ?m2}"
        and "ReserveOrForce (Some t) relief n wait p m = Some (True, ForceReserveFor t n p x)"
      | (wait) ws where "wait = Some ws"
        and "ReserveOrForce (Some t) relief n wait p m =
          (case ReserveBlocking t n ws ?m2 of None \<Rightarrow> None | Some (None, m3) \<Rightarrow> Some (False, m3)
             | Some (Some _, m3) \<Rightarrow> Some (forceWithWarning t n p m3))"
      by auto
    then show ?thesis
    proof cases
      case (direct x)
      with F [of x] show ?thesis
        by (intro exI [of _ True] exI [of _ "ForceReserveFor t n p x"] exI [of _ x]) auto
    next
      case (wait ws)
      obtain res m3 where b: "ReserveBlocking t n ws ?m2 = Some (res, m3)"
        using ReserveBlocking_returns [of ws t n ?m2] assms(3) wait(1) by auto
      from ReserveBlocking_cases [OF b] obtain m0 where m0: "m0 \<in> set (polled ws ?m2)"
        and c: "(res = None \<and> Reserve t n m0 = (None, m3)) \<or> (res = Some CtxErr \<and> m3 = m0)"
        by blast
      from c show ?thesis
      proof
        assume "res = None \<and> Reserve t n m0 = (None, m3)"
        with wait b m0 R [of m0 m3] show ?thesis
          by (intro exI [of _ False] exI [of _ m3] exI [of _ m0]) simp
      next
        assume "res = Some CtxErr \<and> m3 = m0"
        with wait b m0 F [of m0] show ?thesis
          by (intro exI [of _ True] exI [of _ "ForceReserveFor t n p m0"] exI [of _ m0])
            (simp add: forceWithWarning_def)
      qed
    qed
  qed
qed

theorem reserve_or_force_charges_once_witness:
  "\<exists>fcd m'. ReserveOrForce (Some leaf_ex) None 30 (Some [Poll (Release leaf2_ex 90), Done]) 4
     (snd (Reserve leaf2_ex 90 (\<lambda>_. fresh_tstate))) = Some (fcd, m')"
  using reserve_or_force_charges_once [of leaf_ex 30 "Some [Poll (Release leaf2_ex 90), Done]" None 4
      "snd (Reserve leaf2_ex 90 (\<lambda>_. fresh_tstate))"]
  by auto

end
