(* ===== verification/Mem_Concurrent.thy ===== *)
theory Mem_Concurrent
  imports Mem_Tracker
begin

text \<open>
  The lock-free ledger under concurrency. \<open>Reserve\<close> and \<open>Release\<close> of
  \<^verbatim>\<open>internal/engine/memory/tracker.go\<close> take no lock: each is a sequence of atomic
  \<^verbatim>\<open>Add\<close> operations up the parent chain, and a refusal rolls the additions back one at a time. Here
  every atomic operation is one step of one goroutine, and any goroutine may move next. The check of a
  reservation reads only the value its own \<^verbatim>\<open>Add\<close> returned, so it belongs to that step. Counters, budgets and
  requests are int64 words: \<^verbatim>\<open>Add\<close> wraps and the check compares signed. \<open>ok\<close> is the set of byte counts the
  clients ask for; it is unrestricted where a lemma does not say otherwise.
\<close>

text \<open>Where a goroutine is in its call: \<open>Up i\<close> is about to add at position \<open>i\<close> of the chain,
  \<open>Down j\<close> has still to roll back positions \<open>j - 1\<close> down to 0, \<open>Rel i\<close> is releasing position
  \<open>i\<close>, and \<open>Held\<close> owns a successful reservation.\<close>

datatype phase = Idle | Up nat | Down nat | Held | Rel nat

record gor =
  gchain :: "nat list"
  gn :: i64
  gph :: phase

record ledger =
  lused :: "nat \<Rightarrow> i64"
  gors :: "gor list"

abbreviation add_at :: "nat \<Rightarrow> i64 \<Rightarrow> (nat \<Rightarrow> i64) \<Rightarrow> nat \<Rightarrow> i64" where
  "add_at i n u \<equiv> u(i := u i + n)"

text \<open>A parent chain is finite and visits no tracker twice.\<close>

inductive mstep :: "(nat \<Rightarrow> i64) \<Rightarrow> (i64 \<Rightarrow> bool) \<Rightarrow> ledger \<Rightarrow> ledger \<Rightarrow> bool" for bud ok where
  call: "k < length (gors s) \<Longrightarrow> gph (gors s ! k) = Idle \<Longrightarrow> ok n \<Longrightarrow> c \<noteq> [] \<Longrightarrow> distinct c \<Longrightarrow>
    mstep bud ok s (s\<lparr>gors := (gors s)[k := \<lparr>gchain = c, gn = n, gph = Up 0\<rparr>]\<rparr>)"
| add_ok: "k < length (gors s) \<Longrightarrow> g = gors s ! k \<Longrightarrow> gph g = Up i \<Longrightarrow> i < length (gchain g) \<Longrightarrow>
    t = gchain g ! i \<Longrightarrow> \<not> (0 < sint (bud t) \<and> sint (bud t) < sint (lused s t + gn g)) \<Longrightarrow>
    mstep bud ok s (s\<lparr>lused := add_at t (gn g) (lused s),
      gors := (gors s)[k := g\<lparr>gph := (if Suc i = length (gchain g) then Held else Up (Suc i))\<rparr>]\<rparr>)"
| add_over: "k < length (gors s) \<Longrightarrow> g = gors s ! k \<Longrightarrow> gph g = Up i \<Longrightarrow> i < length (gchain g) \<Longrightarrow>
    t = gchain g ! i \<Longrightarrow> 0 < sint (bud t) \<Longrightarrow> sint (bud t) < sint (lused s t + gn g) \<Longrightarrow>
    mstep bud ok s (s\<lparr>lused := add_at t (gn g) (lused s), gors := (gors s)[k := g\<lparr>gph := Down (Suc i)\<rparr>]\<rparr>)"
| rollback: "k < length (gors s) \<Longrightarrow> g = gors s ! k \<Longrightarrow> gph g = Down (Suc j) \<Longrightarrow> j < length (gchain g) \<Longrightarrow>
    mstep bud ok s (s\<lparr>lused := add_at (gchain g ! j) (- gn g) (lused s),
      gors := (gors s)[k := g\<lparr>gph := (if j = 0 then Idle else Down j)\<rparr>]\<rparr>)"
| release: "k < length (gors s) \<Longrightarrow> g = gors s ! k \<Longrightarrow> gph g = Held \<Longrightarrow>
    mstep bud ok s (s\<lparr>gors := (gors s)[k := g\<lparr>gph := Rel 0\<rparr>]\<rparr>)"
| sub: "k < length (gors s) \<Longrightarrow> g = gors s ! k \<Longrightarrow> gph g = Rel i \<Longrightarrow> i < length (gchain g) \<Longrightarrow>
    mstep bud ok s (s\<lparr>lused := add_at (gchain g ! i) (- gn g) (lused s),
      gors := (gors s)[k := g\<lparr>gph := (if Suc i = length (gchain g) then Idle else Rel (Suc i))\<rparr>]\<rparr>)"

definition ledger_init :: "nat \<Rightarrow> ledger" where
  "ledger_init N = \<lparr>lused = (\<lambda>_. 0), gors = replicate N \<lparr>gchain = [], gn = 0, gph = Idle\<rparr>\<rparr>"

inductive reachable_ledger :: "(nat \<Rightarrow> i64) \<Rightarrow> (i64 \<Rightarrow> bool) \<Rightarrow> nat \<Rightarrow> ledger \<Rightarrow> bool" for bud ok N where
  start: "reachable_ledger bud ok N (ledger_init N)"
| step: "reachable_ledger bud ok N s \<Longrightarrow> mstep bud ok s s' \<Longrightarrow> reachable_ledger bud ok N s'"

section \<open>The invariant\<close>

text \<open>The positions a goroutine has charged, and those whose check it has passed.\<close>

definition charged :: "gor \<Rightarrow> nat list" where
  "charged g = (case gph g of Idle \<Rightarrow> [] | Up i \<Rightarrow> take i (gchain g) | Down j \<Rightarrow> take j (gchain g)
     | Held \<Rightarrow> gchain g | Rel i \<Rightarrow> drop i (gchain g))"

definition passed :: "gor \<Rightarrow> nat list" where
  "passed g = (case gph g of Down _ \<Rightarrow> [] | _ \<Rightarrow> charged g)"

definition held :: "gor \<Rightarrow> nat list" where
  "held g = (case gph g of Held \<Rightarrow> gchain g | _ \<Rightarrow> [])"

definition bytes :: "(gor \<Rightarrow> nat list) \<Rightarrow> nat \<Rightarrow> gor \<Rightarrow> int" where
  "bytes f t g = sint (gn g) * int (count_list (f g) t)"

definition total_bytes :: "(gor \<Rightarrow> nat list) \<Rightarrow> nat \<Rightarrow> ledger \<Rightarrow> int" where
  "total_bytes f t s = (\<Sum>g\<leftarrow>gors s. bytes f t g)"

definition gor_ok :: "int \<Rightarrow> gor \<Rightarrow> bool" where
  "gor_ok D g = (0 \<le> sint (gn g) \<and> sint (gn g) \<le> D \<and> distinct (gchain g))"

text \<open>The ledger is the bytes in flight, modulo 2^64.\<close>

definition ledger_exact :: "ledger \<Rightarrow> bool" where
  "ledger_exact s = (\<forall>t. lused s t = word_of_int (total_bytes charged t s))"

definition ledger_inv :: "(nat \<Rightarrow> i64) \<Rightarrow> int \<Rightarrow> nat \<Rightarrow> ledger \<Rightarrow> bool" where
  "ledger_inv bud D N s = (length (gors s) = N \<and> list_all (gor_ok D) (gors s) \<and> ledger_exact s \<and>
     (\<forall>t. 0 < sint (bud t) \<longrightarrow> total_bytes passed t s \<le> sint (bud t)))"

lemma total_bytes_update:
  "k < length (gors s) \<Longrightarrow>
   total_bytes f t (s\<lparr>gors := (gors s)[k := g]\<rparr>) =
   total_bytes f t s + bytes f t g - bytes f t (gors s ! k)"
  by (simp add: total_bytes_def map_update sum_list_update_group)

lemma total_bytes_lused [simp]: "total_bytes f t (s\<lparr>lused := u\<rparr>) = total_bytes f t s"
  by (simp add: total_bytes_def)

lemma count_take_Suc:
  "i < length c \<Longrightarrow> count_list (take (Suc i) c) t = count_list (take i c) t + (if c ! i = t then 1 else 0)"
  by (simp add: take_Suc_conv_app_nth)

lemma count_last:
  "Suc i = length c \<Longrightarrow> count_list c t = count_list (take i c) t + (if c ! i = t then 1 else 0)"
  using count_take_Suc [of i c t] by simp

lemma count_drop_Suc:
  "i < length c \<Longrightarrow> count_list (drop i c) t = (if c ! i = t then 1 else 0) + count_list (drop (Suc i) c) t"
  by (simp add: Cons_nth_drop_Suc [symmetric])

lemmas bytes_simps = bytes_def charged_def passed_def count_take_Suc count_drop_Suc ring_distribs

lemma passed_le_charged: "gor_ok D g \<Longrightarrow> bytes passed t g \<le> bytes charged t g"
  by (auto simp: bytes_def gor_ok_def passed_def split: phase.splits)

lemma held_le_passed: "gor_ok D g \<Longrightarrow> bytes held t g \<le> bytes passed t g"
  by (auto simp: bytes_def gor_ok_def passed_def held_def charged_def split: phase.splits)

lemma count_distinct: "distinct xs \<Longrightarrow> count_list xs t \<le> 1"
  by (induction xs) auto

lemma bytes_charged_bounds: "gor_ok D g \<Longrightarrow> 0 \<le> bytes charged t g \<and> bytes charged t g \<le> D"
proof -
  assume g: "gor_ok D g"
  have "distinct (charged g)" using g by (auto simp: gor_ok_def charged_def split: phase.splits)
  then have "count_list (charged g) t = 0 \<or> count_list (charged g) t = 1" using count_distinct [of "charged g" t] by linarith
  then show ?thesis using g by (auto simp: bytes_def gor_ok_def)
qed

lemma total_bytes_mono:
  assumes "list_all (gor_ok D) (gors s)" and "\<And>g. gor_ok D g \<Longrightarrow> bytes f t g \<le> bytes h t g"
  shows "total_bytes f t s \<le> total_bytes h t s"
  unfolding total_bytes_def
  by (rule sum_list_mono) (use assms in \<open>auto simp: list_all_iff\<close>)

lemma total_charged_bounds:
  assumes "list_all (gor_ok D) (gors s)"
  shows "0 \<le> total_bytes charged t s" "total_bytes charged t s \<le> int (length (gors s)) * D"
proof -
  have "0 \<le> sum_list (map (bytes charged t) gs) \<and> sum_list (map (bytes charged t) gs) \<le> int (length gs) * D"
    if "list_all (gor_ok D) gs" for gs
    using that by (induction gs) (use bytes_charged_bounds in \<open>auto simp: ring_distribs intro: add_mono\<close>)
  then show "0 \<le> total_bytes charged t s" "total_bytes charged t s \<le> int (length (gors s)) * D"
    using assms by (simp_all add: total_bytes_def)
qed

text \<open>Every step moves one goroutine and changes the counters by the bytes it charges or gives back.\<close>

lemma mstep_move:
  assumes "mstep bud ok s s'"
  obtains k g1 u where "k < length (gors s)" "s' = s\<lparr>lused := u, gors := (gors s)[k := g1]\<rparr>"
    "\<And>t. u t = lused s t + word_of_int (bytes charged t g1 - bytes charged t (gors s ! k))"
    "gchain g1 = gchain (gors s ! k) \<and> gn g1 = gn (gors s ! k) \<or> ok (gn g1) \<and> distinct (gchain g1)"
    "\<And>t. bytes passed t g1 \<le> bytes passed t (gors s ! k) \<or> sint (gn (gors s ! k)) < 0 \<or> \<not> (0 < sint (bud t) \<and> sint (bud t) < sint (u t))"
  using assms
proof (cases rule: mstep.cases)
  case (call k n c)
  show ?thesis
    by (rule that [where k = k and u = "lused s" and ?g1.0 = "\<lparr>gchain = c, gn = n, gph = Up 0\<rparr>"]) (use call in \<open>auto simp: bytes_simps\<close>)
next
  case (add_ok k g i t)
  show ?thesis
    by (rule that [where k = k and u = "add_at t (gn g) (lused s)" and ?g1.0 = "g\<lparr>gph := (if Suc i = length (gchain g) then Held else Up (Suc i))\<rparr>"])
      (use add_ok count_last [of i "gchain g"] in \<open>auto simp: bytes_simps\<close>)
next
  case (add_over k g i t)
  show ?thesis
    by (rule that [where k = k and u = "add_at t (gn g) (lused s)" and ?g1.0 = "g\<lparr>gph := Down (Suc i)\<rparr>"])
      (use add_over in \<open>auto simp: bytes_simps mult_nonneg_nonneg\<close>)
next
  case (rollback k g j)
  show ?thesis
    by (rule that [where k = k and u = "add_at (gchain g ! j) (- gn g) (lused s)" and ?g1.0 = "g\<lparr>gph := (if j = 0 then Idle else Down j)\<rparr>"])
      (use rollback in \<open>auto simp: bytes_simps\<close>)
next
  case (release k g)
  show ?thesis
    by (rule that [where k = k and u = "lused s" and ?g1.0 = "g\<lparr>gph := Rel 0\<rparr>"]) (use release in \<open>auto simp: bytes_simps\<close>)
next
  case (sub k g i)
  show ?thesis
    by (rule that [where k = k and u = "add_at (gchain g ! i) (- gn g) (lused s)" and ?g1.0 = "g\<lparr>gph := (if Suc i = length (gchain g) then Idle else Rel (Suc i))\<rparr>"])
      (use sub in \<open>auto simp: bytes_simps\<close>)
qed

lemma word_of_int_sint_range: "0 \<le> x \<Longrightarrow> x < 2 ^ 63 \<Longrightarrow> sint (word_of_int x :: i64) = x"
  by (simp add: sint_word_ariths sint_wrap sint_sbintrunc' signed_take_bit_int_eq_self)

lemma sum_zeros [simp]: "sum_list (replicate N (0::int)) = 0"
  by (induction N) auto

lemma mstep_exact: "mstep bud ok s s' \<Longrightarrow> ledger_exact s \<Longrightarrow> ledger_exact s'"
  by (erule mstep_move) (simp add: ledger_exact_def total_bytes_update [where s = "lused_update _ s", simplified] total_bytes_update algebra_simps)

lemma reachable_exact: "reachable_ledger bud ok N s \<Longrightarrow> ledger_exact s"
proof (induction rule: reachable_ledger.induct)
  case start
  have "(\<Sum>g\<leftarrow>gors (ledger_init N). bytes charged t g) = 0" for t
    by (simp add: ledger_init_def bytes_def charged_def)
  then show ?case by (simp add: ledger_exact_def total_bytes_def) (simp add: ledger_init_def)
next
  case (step s s')
  then show ?case using mstep_exact by blast
qed

text \<open>With bounded requests no counter leaves the non-negative int64 range, so a check that passed compared the
  true sum.\<close>

lemma exact_sint:
  assumes "ledger_exact s" and "list_all (gor_ok D) (gors s)" and "int (length (gors s)) * D < 2 ^ 63"
  shows "sint (lused s t) = total_bytes charged t s"
  using assms total_charged_bounds [OF assms(2), of t]
  by (simp add: ledger_exact_def word_of_int_sint_range)

lemma mstep_inv:
  assumes st: "mstep bud ok s s'" and inv: "ledger_inv bud D N s" and N: "int N * D < 2 ^ 63"
    and D: "\<And>n. ok n \<Longrightarrow> 0 \<le> sint n \<and> sint n \<le> D"
  shows "ledger_inv bud D N s'"
proof -
  obtain k g1 u where k: "k < length (gors s)" and s': "s' = s\<lparr>lused := u, gors := (gors s)[k := g1]\<rparr>"
    and g1: "gchain g1 = gchain (gors s ! k) \<and> gn g1 = gn (gors s ! k) \<or> ok (gn g1) \<and> distinct (gchain g1)"
    and p: "\<And>t. bytes passed t g1 \<le> bytes passed t (gors s ! k) \<or> sint (gn (gors s ! k)) < 0 \<or>
      \<not> (0 < sint (bud t) \<and> sint (bud t) < sint (u t))"
    by (rule mstep_move [OF st]) blast
  have gk: "gor_ok D (gors s ! k)" using inv k by (auto simp: ledger_inv_def list_all_length)
  have "gor_ok D g1" using g1 gk D by (auto simp: gor_ok_def)
  then have all: "list_all (gor_ok D) (gors s')"
    using inv s' by (auto simp: ledger_inv_def list_all_iff dest!: subsetD [OF set_update_subset_insert])
  have len: "length (gors s') = N" using inv s' by (simp add: ledger_inv_def)
  have ex: "ledger_exact s'" using mstep_exact [OF st] inv by (simp add: ledger_inv_def)
  have "total_bytes passed t s' \<le> sint (bud t)" if b: "0 < sint (bud t)" for t
  proof (cases "bytes passed t g1 \<le> bytes passed t (gors s ! k)")
    case True
    have "total_bytes passed t s' = total_bytes passed t s + bytes passed t g1 - bytes passed t (gors s ! k)"
      using total_bytes_update [of k "s\<lparr>lused := u\<rparr>"] k s' by simp
    then show ?thesis using True inv b unfolding ledger_inv_def by force
  next
    case False
    then have "sint (u t) \<le> sint (bud t)" using p [of t] gk b by (auto simp: gor_ok_def)
    moreover have "sint (u t) = total_bytes charged t s'"
      using exact_sint [OF ex all, of t] len N s' by simp
    ultimately show ?thesis
      using total_bytes_mono [OF all, of passed t charged] passed_le_charged by force
  qed
  then show ?thesis using all len ex by (simp add: ledger_inv_def)
qed

lemma reachable_ledger_inv:
  assumes "reachable_ledger bud ok N s" and "0 \<le> D" and "int N * D < 2 ^ 63"
    and "\<And>n. ok n \<Longrightarrow> 0 \<le> sint n \<and> sint n \<le> D"
  shows "ledger_inv bud D N s"
  using assms(1)
proof (induction rule: reachable_ledger.induct)
  case start
  have "total_bytes passed t (ledger_init N) = 0" for t
    by (simp add: total_bytes_def ledger_init_def bytes_def)
  then show ?case using reachable_exact [OF reachable_ledger.start] assms(2)
    by (simp add: ledger_inv_def) (simp add: ledger_init_def gor_ok_def list_all_iff)
next
  case (step s s')
  then show ?case using mstep_inv [OF step(2,3) assms(3,4)] by simp
qed

section \<open>Properties\<close>

text \<open>C1: Admission is sound without locks. In every state any interleaving of concurrent reservations (of any
  byte count, negative ones included), refusals with their step-by-step rollback, and releases of what was
  reserved can reach, the counter of every tracker is the number of bytes in flight on it, modulo 2^64: what
  the admitted reservations hold plus what the calls under way have added and not yet taken back. When the
  byte counts asked for lie between 0 and D and N goroutines cannot ask for 2^63 bytes together, the signed
  counter is exactly that number, and the bytes of the admitted reservations stay within the positive budget
  of every tracker.\<close>

theorem concurrent_admission_sound:
  assumes "reachable_ledger bud ok N s"
  shows "lused s t = word_of_int (total_bytes charged t s) \<and>
    (0 \<le> D \<and> int N * D < 2 ^ 63 \<and> (\<forall>n. ok n \<longrightarrow> 0 \<le> sint n \<and> sint n \<le> D) \<longrightarrow>
      sint (lused s t) = total_bytes charged t s \<and>
      (0 < sint (bud t) \<longrightarrow> total_bytes held t s \<le> sint (bud t)))"
proof -
  have ex: "ledger_exact s" by (rule reachable_exact [OF assms])
  {
    assume D: "0 \<le> D \<and> int N * D < 2 ^ 63 \<and> (\<forall>n. ok n \<longrightarrow> 0 \<le> sint n \<and> sint n \<le> D)"
    have inv: "ledger_inv bud D N s" by (rule reachable_ledger_inv [OF assms]) (use D in auto)
    then have all: "list_all (gor_ok D) (gors s)" by (simp add: ledger_inv_def)
    have "total_bytes held t s \<le> total_bytes passed t s"
      by (rule total_bytes_mono [OF all held_le_passed])
    moreover have "sint (lused s t) = total_bytes charged t s"
      using exact_sint [OF ex all] D inv by (simp add: ledger_inv_def)
    ultimately have "sint (lused s t) = total_bytes charged t s \<and>
      (0 < sint (bud t) \<longrightarrow> total_bytes held t s \<le> sint (bud t))"
      using inv by (force simp: ledger_inv_def)
  }
  then show ?thesis using ex by (simp add: ledger_exact_def)
qed

text \<open>Two goroutines on one tracker of budget 10: the first holds 7 while the second, asking for 5, is
  between its overshooting addition and its rollback.\<close>

abbreviation race_state :: ledger where
  "race_state \<equiv> \<lparr>lused = (\<lambda>_. 0)(0 := 12),
     gors = [\<lparr>gchain = [0], gn = 7, gph = Held\<rparr>, \<lparr>gchain = [0], gn = 5, gph = Down 1\<rparr>]\<rparr>"

lemma race_state_reachable: "reachable_ledger (\<lambda>_. 10) (\<lambda>n. n = 5 \<or> n = 7) 2 race_state"
proof -
  let ?B = "\<lambda>_::nat. 10::i64" and ?K = "\<lambda>n. n = (5::i64) \<or> n = 7"
  let ?g = "\<lparr>gchain = [], gn = 0::i64, gph = Idle\<rparr>"
  let ?s0 = "\<lparr>lused = (\<lambda>_. 0), gors = [?g, ?g]\<rparr>"
  let ?s1 = "\<lparr>lused = (\<lambda>_. 0), gors = [\<lparr>gchain = [0], gn = 7, gph = Up 0\<rparr>, ?g]\<rparr>"
  let ?s2 = "\<lparr>lused = (\<lambda>_. 0), gors = [\<lparr>gchain = [0], gn = 7, gph = Up 0\<rparr>,
     \<lparr>gchain = [0], gn = 5, gph = Up 0\<rparr>]\<rparr>"
  let ?s3 = "\<lparr>lused = (\<lambda>_. 0)(0 := 7), gors = [\<lparr>gchain = [0], gn = 7, gph = Held\<rparr>,
     \<lparr>gchain = [0], gn = 5, gph = Up 0\<rparr>]\<rparr>"
  have r0: "reachable_ledger ?B ?K 2 ?s0"
    using reachable_ledger.start [of ?B ?K 2] by (simp add: ledger_init_def numeral_2_eq_2)
  have "mstep ?B ?K ?s0 ?s1" using mstep.call [of 0 ?s0 ?K 7 "[0]" ?B] by simp
  with r0 have r1: "reachable_ledger ?B ?K 2 ?s1" by (rule reachable_ledger.step)
  have "mstep ?B ?K ?s1 ?s2" using mstep.call [of 1 ?s1 ?K 5 "[0]" ?B] by simp
  with r1 have r2: "reachable_ledger ?B ?K 2 ?s2" by (rule reachable_ledger.step)
  have "mstep ?B ?K ?s2 ?s3" using mstep.add_ok [of 0 ?s2 "gors ?s2 ! 0" 0 0 ?B ?K] by simp
  with r2 have r3: "reachable_ledger ?B ?K 2 ?s3" by (rule reachable_ledger.step)
  have "mstep ?B ?K ?s3 race_state" using mstep.add_over [of 1 ?s3 "gors ?s3 ! 1" 0 0 ?B ?K] by simp
  with r3 show ?thesis by (rule reachable_ledger.step)
qed

theorem concurrent_admission_sound_witness:
  "sint (lused race_state 0) = total_bytes charged 0 race_state \<and> total_bytes held 0 race_state \<le> 10"
  using concurrent_admission_sound [OF race_state_reachable, of 0 7] by simp

text \<open>One tracker whose budget is taken by a first reservation, and a second one of 2^63 - 1 bytes admitted.\<close>

definition greedy_state :: "i64 \<Rightarrow> ledger" where
  "greedy_state B = \<lparr>lused = (\<lambda>_. 0)(0 := B + 0x7FFFFFFFFFFFFFFF),
     gors = [\<lparr>gchain = [0], gn = B, gph = Held\<rparr>, \<lparr>gchain = [0], gn = 0x7FFFFFFFFFFFFFFF, gph = Held\<rparr>]\<rparr>"

lemma add_max_negative: "0 < sint (B :: i64) \<Longrightarrow> sint (B + 0x7FFFFFFFFFFFFFFF) = sint B - 2 ^ 63 - 1"
proof -
  assume B: "0 < sint B"
  have "(sint B + 9223372036854775807 + 2 ^ 63) mod 2 ^ 64 = (sint B - 1 + 1 * 2 ^ 64) mod 2 ^ 64" by simp
  also have "\<dots> = sint B - 1" unfolding mod_mult_self1 using B sint_range64 [of B] by simp
  finally show ?thesis by (simp add: sint_add_wrap wrap64_def)
qed

lemma greedy_state_reachable:
  assumes B: "0 < sint B"
  shows "reachable_ledger (\<lambda>_. B) (\<lambda>_. True) 2 (greedy_state B)"
proof -
  let ?B = "\<lambda>_::nat. B" and ?K = "\<lambda>_::i64. True"
  let ?g = "\<lparr>gchain = [], gn = 0::i64, gph = Idle\<rparr>"
  let ?h = "\<lparr>gchain = [0], gn = B, gph = Held\<rparr>"
  let ?s0 = "\<lparr>lused = (\<lambda>_. 0), gors = [?g, ?g]\<rparr>"
  let ?s1 = "\<lparr>lused = (\<lambda>_. 0), gors = [\<lparr>gchain = [0], gn = B, gph = Up 0\<rparr>, ?g]\<rparr>"
  let ?s2 = "\<lparr>lused = (\<lambda>_. 0)(0 := B), gors = [?h, ?g]\<rparr>"
  let ?s3 = "\<lparr>lused = (\<lambda>_. 0)(0 := B), gors = [?h, \<lparr>gchain = [0], gn = 0x7FFFFFFFFFFFFFFF, gph = Up 0\<rparr>]\<rparr>"
  have r0: "reachable_ledger ?B ?K 2 ?s0"
    using reachable_ledger.start [of ?B ?K 2] by (simp add: ledger_init_def numeral_2_eq_2)
  have "mstep ?B ?K ?s0 ?s1" using mstep.call [of 0 ?s0 ?K B "[0]" ?B] by simp
  with r0 have r1: "reachable_ledger ?B ?K 2 ?s1" by (rule reachable_ledger.step)
  have "mstep ?B ?K ?s1 ?s2" using mstep.add_ok [of 0 ?s1 "gors ?s1 ! 0" 0 0 ?B ?K] by simp
  with r1 have r2: "reachable_ledger ?B ?K 2 ?s2" by (rule reachable_ledger.step)
  have "mstep ?B ?K ?s2 ?s3" using mstep.call [of 1 ?s2 ?K "0x7FFFFFFFFFFFFFFF" "[0]" ?B] by simp
  with r2 have r3: "reachable_ledger ?B ?K 2 ?s3" by (rule reachable_ledger.step)
  have "sint (B + 0x7FFFFFFFFFFFFFFF) \<le> sint B" using add_max_negative [OF B] by simp
  then have "mstep ?B ?K ?s3 (greedy_state B)"
    using mstep.add_ok [of 1 ?s3 "gors ?s3 ! 1" 0 0 ?B ?K] by (simp add: greedy_state_def)
  with r3 show ?thesis by (rule reachable_ledger.step)
qed

text \<open>C38: Without the bound on the requests the check can be passed by overflow. On one tracker of any positive
  budget B a reservation of B bytes is admitted and then one of 2^63 - 1 bytes is admitted as well: its addition
  wraps the counter to a negative number, which is not above the budget. The bytes held then exceed the budget by
  2^63 - 1.\<close>

theorem overflow_admits_past_budget:
  assumes "0 < sint B"
  shows "reachable_ledger (\<lambda>_. B) (\<lambda>_. True) 2 (greedy_state B) \<and>
    total_bytes held 0 (greedy_state B) = sint B + (2 ^ 63 - 1) \<and> sint (lused (greedy_state B) 0) < 0"
  using greedy_state_reachable [OF assms] add_max_negative [OF assms] sint_range64 [of B]
  by (simp add: greedy_state_def total_bytes_def bytes_def held_def)

theorem overflow_admits_past_budget_witness:
  "reachable_ledger (\<lambda>_. 10) (\<lambda>_. True) 2 (greedy_state 10) \<and> 10 < total_bytes held 0 (greedy_state 10)"
  using overflow_admits_past_budget [of 10] by simp

end
