(* ===== verification/Cpu_Tokens.thy ===== *)
theory Cpu_Tokens
  imports Wadjet_Base
begin

text \<open>
  The worker's CPU-token pool (\<^verbatim>\<open>internal/worker/cpu_tokens.go\<close>): a counting pool with a FIFO
  of blocked consumers and a decode class that may be served ahead of it. Every method holds the pool
  mutex for its whole body, so a method is one step. A \<^verbatim>\<open>*tokenWaiter\<close> is an index into
  \<open>wtab\<close>; its channel is closed exactly when \<open>granted\<close> is set. The argument \<open>on\<close> is the kill
  switch \<^verbatim>\<open>decodeAdmission.On()\<close> at the time of the call. A nil pool answers zero to every
  acquisition and does nothing else; the model is of a pool that exists.
\<close>

record waiter =
  fed :: bool
  granted :: bool

record cpu_tokens =
  capacity :: int
  tokUsed :: int
  reserve :: int
  decodeUsed :: int
  decodeStalled :: int
  waiters :: "nat list"
  fedWaiters :: int
  wtab :: "nat \<Rightarrow> waiter"
  nextW :: nat
  decodeAdmits :: int
  decodeBypasses :: int
  decodeHoldbacks :: int

definition decodeReserveFor :: "int \<Rightarrow> int" where
  "decodeReserveFor cap =
     (if cap \<le> 1 then 0
      else let r = (cap + 4) div 5 in if cap - 1 < r then cap - 1 else r)"

definition newCPUTokens :: "int \<Rightarrow> cpu_tokens" where
  "newCPUTokens cap0 =
     (let cap = (if cap0 < 0 then 0 else cap0) in
      \<lparr>capacity = cap, tokUsed = 0, reserve = decodeReserveFor cap, decodeUsed = 0,
       decodeStalled = 0, waiters = [], fedWaiters = 0,
       wtab = (\<lambda>_. \<lparr>fed = False, granted = False\<rparr>), nextW = 0,
       decodeAdmits = 0, decodeBypasses = 0, decodeHoldbacks = 0\<rparr>)"

definition TryAcquire :: "int \<Rightarrow> cpu_tokens \<Rightarrow> int \<times> cpu_tokens" where
  "TryAcquire n t =
     (if n \<le> 0 then (0, t)
      else if waiters t \<noteq> [] then (0, t)
      else
        let avail = capacity t - tokUsed t in
        if avail \<le> 0 then (0, t)
        else let take = (if avail < n then avail else n)
             in (take, t\<lparr>tokUsed := tokUsed t + take\<rparr>))"

definition decodePreferredLocked :: "cpu_tokens \<Rightarrow> bool" where
  "decodePreferredLocked t = (decodeUsed t < reserve t \<or> fedWaiters t = 0)"

definition tryAcquireDecode :: "bool \<Rightarrow> int \<Rightarrow> cpu_tokens \<Rightarrow> int \<times> cpu_tokens" where
  "tryAcquireDecode on n t =
     (if n \<le> 0 then (0, t)
      else if \<not> on then TryAcquire n t
      else
        let avail = capacity t - tokUsed t in
        if avail \<le> 0 then (0, t)
        else
          let queued = (waiters t \<noteq> []) in
          if queued \<and> \<not> decodePreferredLocked t then (0, t)
          else
            let take = (if avail < n then avail else n)
            in (take, t\<lparr>tokUsed := tokUsed t + take, decodeUsed := decodeUsed t + take,
                  decodeAdmits := decodeAdmits t + take,
                  decodeBypasses := decodeBypasses t + (if queued then take else 0)\<rparr>))"

definition decodeHoldbackLocked :: "bool \<Rightarrow> cpu_tokens \<Rightarrow> int" where
  "decodeHoldbackLocked on t =
     (if \<not> on \<or> decodeStalled t = 0 then 0
      else
        let h = (if fedWaiters t = 0 then decodeStalled t else reserve t - decodeUsed t);
            h = (if decodeStalled t < h then decodeStalled t else h)
        in if h < 0 then 0 else h)"

text \<open>One turn of the grant loop: the head of the queue is charged and its channel closed.\<close>

definition grant_head :: "cpu_tokens \<Rightarrow> cpu_tokens" where
  "grant_head t =
     (case waiters t of
        [] \<Rightarrow> t
      | w # ws \<Rightarrow>
          t\<lparr>waiters := ws,
            fedWaiters := fedWaiters t - (if fed (wtab t w) then 1 else 0),
            tokUsed := tokUsed t + 1,
            wtab := (wtab t)(w := (wtab t w)\<lparr>granted := True\<rparr>)\<rparr>)"

function grantLocked :: "bool \<Rightarrow> cpu_tokens \<Rightarrow> cpu_tokens" where
  "grantLocked on t =
     (if waiters t = [] then t
      else
        let avail = capacity t - tokUsed t in
        if avail \<le> 0 then t
        else if avail \<le> decodeHoldbackLocked on t
        then t\<lparr>decodeHoldbacks := decodeHoldbacks t + 1\<rparr>
        else grantLocked on (grant_head t))"
  by pat_completeness auto
termination
  by (relation "measure (\<lambda>(on, t). length (waiters t))")
    (auto simp: grant_head_def split: list.splits)

declare grantLocked.simps [simp del]

definition decodeStallBegin :: "cpu_tokens \<Rightarrow> cpu_tokens" where
  "decodeStallBegin t = t\<lparr>decodeStalled := decodeStalled t + 1\<rparr>"

definition decodeStallEnd :: "bool \<Rightarrow> cpu_tokens \<Rightarrow> cpu_tokens" where
  "decodeStallEnd on t =
     grantLocked on
       (if 0 < decodeStalled t then t\<lparr>decodeStalled := decodeStalled t - 1\<rparr> else t)"

definition adoptDecode :: "int \<Rightarrow> cpu_tokens \<Rightarrow> cpu_tokens" where
  "adoptDecode n t = (if n \<le> 0 then t else t\<lparr>decodeUsed := decodeUsed t + n\<rparr>)"

definition tok_Release :: "bool \<Rightarrow> int \<Rightarrow> cpu_tokens \<Rightarrow> cpu_tokens" where
  "tok_Release on n t =
     (if n \<le> 0 then t else grantLocked on (t\<lparr>tokUsed := tokUsed t - n\<rparr>))"

definition releaseDecode :: "bool \<Rightarrow> int \<Rightarrow> cpu_tokens \<Rightarrow> cpu_tokens" where
  "releaseDecode on n t =
     (if n \<le> 0 then t
      else
        let d = decodeUsed t - n
        in grantLocked on (t\<lparr>tokUsed := tokUsed t - n, decodeUsed := (if d < 0 then 0 else d)\<rparr>))"

definition enqueueWaiter :: "bool \<Rightarrow> bool \<Rightarrow> cpu_tokens \<Rightarrow> nat \<times> cpu_tokens" where
  "enqueueWaiter on f t =
     (let w = nextW t in
      (w, grantLocked on
            (t\<lparr>nextW := Suc w, wtab := (wtab t)(w := \<lparr>fed = f, granted = False\<rparr>),
               waiters := waiters t @ [w],
               fedWaiters := fedWaiters t + (if f then 1 else 0)\<rparr>)))"

definition cancelWaiter :: "bool \<Rightarrow> nat \<Rightarrow> cpu_tokens \<Rightarrow> cpu_tokens" where
  "cancelWaiter on w t =
     (if granted (wtab t w) then grantLocked on (t\<lparr>tokUsed := tokUsed t - 1\<rparr>)
      else if w \<in> set (waiters t) then
        t\<lparr>waiters := remove1 w (waiters t),
          fedWaiters := fedWaiters t - (if fed (wtab t w) then 1 else 0)\<rparr>
      else t)"

definition InUse :: "cpu_tokens \<Rightarrow> int" where "InUse t = tokUsed t"
definition decodeInUse :: "cpu_tokens \<Rightarrow> int" where "decodeInUse t = decodeUsed t"
definition Capacity :: "cpu_tokens \<Rightarrow> int" where "Capacity t = capacity t"

section \<open>The grant loop\<close>

lemma grantLocked_eq:
  "grantLocked on t =
     (if waiters t = [] \<or> capacity t \<le> tokUsed t then t
      else if capacity t - tokUsed t \<le> decodeHoldbackLocked on t
      then t\<lparr>decodeHoldbacks := decodeHoldbacks t + 1\<rparr>
      else grantLocked on (grant_head t))"
  by (subst grantLocked.simps) (simp add: Let_def)

text \<open>Computation induction with the loop's exits as cases: a property of pairs of states that holds at
  the two exits and is inherited through a granted head holds of the loop.\<close>

lemma grantLocked_rule:
  assumes stop: "\<And>t. waiters t = [] \<or> capacity t \<le> tokUsed t \<Longrightarrow> P t t"
    and hold: "\<And>t. waiters t \<noteq> [] \<Longrightarrow> tokUsed t < capacity t \<Longrightarrow>
      capacity t - tokUsed t \<le> decodeHoldbackLocked on t \<Longrightarrow>
      P t (t\<lparr>decodeHoldbacks := decodeHoldbacks t + 1\<rparr>)"
    and grant: "\<And>t t'. waiters t \<noteq> [] \<Longrightarrow> tokUsed t < capacity t \<Longrightarrow>
      decodeHoldbackLocked on t < capacity t - tokUsed t \<Longrightarrow> P (grant_head t) t' \<Longrightarrow> P t t'"
  shows "P t (grantLocked on t)"
proof (induction "length (waiters t)" arbitrary: t rule: less_induct)
  case less
  show ?case
  proof (cases "waiters t = [] \<or> capacity t \<le> tokUsed t")
    case True
    with stop show ?thesis by (subst grantLocked_eq) simp
  next
    case False
    then have "length (waiters (grant_head t)) < length (waiters t)"
      by (auto simp: grant_head_def split: list.splits)
    with less have "P (grant_head t) (grantLocked on (grant_head t))" by simp
    with False hold grant show ?thesis by (subst grantLocked_eq) auto
  qed
qed

abbreviation fed_count :: "cpu_tokens \<Rightarrow> nat" where
  "fed_count t \<equiv> length (filter (\<lambda>w. fed (wtab t w)) (waiters t))"

definition tok_inv :: "cpu_tokens \<Rightarrow> bool" where
  "tok_inv t = (0 \<le> decodeStalled t \<and> tokUsed t \<le> capacity t \<and> fedWaiters t = int (fed_count t) \<and>
     distinct (waiters t) \<and> (\<forall>w \<in> set (waiters t). \<not> granted (wtab t w) \<and> w < nextW t))"

lemma grant_head_inv:
  assumes "tok_inv t" and "waiters t \<noteq> []" and "tokUsed t < capacity t"
  shows "tok_inv (grant_head t)"
proof -
  obtain w ws where w: "waiters t = w # ws" using assms(2) by (cases "waiters t") auto
  have "filter (\<lambda>x. fed (((wtab t)(w := (wtab t w)\<lparr>granted := True\<rparr>)) x)) ws =
      filter (\<lambda>x. fed (wtab t x)) ws"
    by (rule filter_cong) auto
  with assms w show ?thesis by (auto simp: tok_inv_def grant_head_def fun_upd_def)
qed

lemma grantLocked_inv: "tok_inv t \<Longrightarrow> tok_inv (grantLocked on t)"
  by (rule grantLocked_rule [where P = "\<lambda>t t'. tok_inv t \<longrightarrow> tok_inv t'", rule_format])
    (simp_all add: grant_head_inv, simp add: tok_inv_def)

lemma grantLocked_frame:
  "capacity (grantLocked on t) = capacity t \<and> reserve (grantLocked on t) = reserve t \<and>
   decodeUsed (grantLocked on t) = decodeUsed t \<and> decodeStalled (grantLocked on t) = decodeStalled t \<and>
   nextW (grantLocked on t) = nextW t"
  by (rule grantLocked_rule) (auto simp: grant_head_def split: list.splits)

lemmas grantLocked_frames [simp] = grantLocked_frame [THEN conjunct1]
  grantLocked_frame [THEN conjunct2, THEN conjunct1]
  grantLocked_frame [THEN conjunct2, THEN conjunct2, THEN conjunct1]
  grantLocked_frame [THEN conjunct2, THEN conjunct2, THEN conjunct2, THEN conjunct1]
  grantLocked_frame [THEN conjunct2, THEN conjunct2, THEN conjunct2, THEN conjunct2]

text \<open>What the loop did: it granted a prefix of the queue, one token each, and left the rest in order.\<close>

definition granted_prefix :: "cpu_tokens \<Rightarrow> cpu_tokens \<Rightarrow> nat \<Rightarrow> bool" where
  "granted_prefix t t' k = (k \<le> length (waiters t) \<and> waiters t' = drop k (waiters t) \<and>
     tokUsed t' = tokUsed t + int k \<and>
     (\<forall>w. granted (wtab t' w) = (granted (wtab t w) \<or> w \<in> set (take k (waiters t)))))"

lemma grantLocked_prefix: "\<exists>k. granted_prefix t (grantLocked on t) k"
proof (rule grantLocked_rule [where P = "\<lambda>t t'. \<exists>k. granted_prefix t t' k"], goal_cases)
  case (1 t)
  show ?case by (rule exI [of _ 0]) (simp add: granted_prefix_def)
next
  case (2 t)
  show ?case by (rule exI [of _ 0]) (simp add: granted_prefix_def)
next
  case (3 t t')
  then obtain k w ws where k: "granted_prefix (grant_head t) t' k" and w: "waiters t = w # ws"
    by (cases "waiters t") auto
  have "granted_prefix t t' (Suc k)"
    unfolding granted_prefix_def
  proof (intro conjI allI)
    fix x
    show "granted (wtab t' x) = (granted (wtab t x) \<or> x \<in> set (take (Suc k) (waiters t)))"
      using k w by (simp add: granted_prefix_def grant_head_def)
  qed (use k w in \<open>simp_all add: granted_prefix_def grant_head_def\<close>)
  then show ?case by (rule exI)
qed

lemma decodeHoldback_nonneg: "0 \<le> decodeHoldbackLocked on t"
  by (simp add: decodeHoldbackLocked_def Let_def)

lemma decodeHoldback_holdbacks [simp]:
  "decodeHoldbackLocked on (t\<lparr>decodeHoldbacks := x\<rparr>) = decodeHoldbackLocked on t"
  by (simp add: decodeHoldbackLocked_def Let_def)

lemma grantLocked_drained:
  "waiters (grantLocked on t) = [] \<or>
   capacity (grantLocked on t) - tokUsed (grantLocked on t) \<le> decodeHoldbackLocked on (grantLocked on t)"
proof (rule grantLocked_rule [where P = "\<lambda>t t'. waiters t' = [] \<or> capacity t' - tokUsed t' \<le> decodeHoldbackLocked on t'"], goal_cases)
  case (1 t)
  with decodeHoldback_nonneg [of on t] show ?case by linarith
qed simp_all

section \<open>The pool and its clients\<close>

text \<open>
  The pool together with what its clients own: \<open>cons\<close> consumer-class tokens, \<open>dec\<close> decode-class
  tokens, and the set \<open>outw\<close> of waiters that were enqueued and neither cancelled nor turned into a held
  token. A client releases only what it owns, as the method comments demand; everything else is free.
\<close>

record pool =
  tok :: cpu_tokens
  cons :: int
  dec :: int
  outw :: "nat set"

inductive pstep :: "pool \<Rightarrow> pool \<Rightarrow> bool" where
  p_try: "TryAcquire n (tok p) = (k, t') \<Longrightarrow> pstep p (p\<lparr>tok := t', cons := cons p + k\<rparr>)"
| p_tryDecode: "tryAcquireDecode on n (tok p) = (k, t') \<Longrightarrow> pstep p (p\<lparr>tok := t', dec := dec p + k\<rparr>)"
| p_stallBegin: "pstep p (p\<lparr>tok := decodeStallBegin (tok p)\<rparr>)"
| p_stallEnd: "pstep p (p\<lparr>tok := decodeStallEnd on (tok p)\<rparr>)"
| p_adopt: "0 < n \<Longrightarrow> n \<le> cons p \<Longrightarrow>
    pstep p (p\<lparr>tok := adoptDecode n (tok p), cons := cons p - n, dec := dec p + n\<rparr>)"
| p_release: "0 < n \<Longrightarrow> n \<le> cons p \<Longrightarrow>
    pstep p (p\<lparr>tok := tok_Release on n (tok p), cons := cons p - n\<rparr>)"
| p_releaseDecode: "0 < n \<Longrightarrow> n \<le> dec p \<Longrightarrow>
    pstep p (p\<lparr>tok := releaseDecode on n (tok p), dec := dec p - n\<rparr>)"
| p_enqueue: "enqueueWaiter on f (tok p) = (w, t') \<Longrightarrow> pstep p (p\<lparr>tok := t', outw := insert w (outw p)\<rparr>)"
| p_cancel: "w \<in> outw p \<Longrightarrow> pstep p (p\<lparr>tok := cancelWaiter on w (tok p), outw := outw p - {w}\<rparr>)"
| p_take: "w \<in> outw p \<Longrightarrow> granted (wtab (tok p) w) \<Longrightarrow>
    pstep p (p\<lparr>cons := cons p + 1, outw := outw p - {w}\<rparr>)"

inductive reachable_pool :: "int \<Rightarrow> pool \<Rightarrow> bool" for cap where
  start: "reachable_pool cap \<lparr>tok = newCPUTokens cap, cons = 0, dec = 0, outw = {}\<rparr>"
| step: "reachable_pool cap p \<Longrightarrow> pstep p p' \<Longrightarrow> reachable_pool cap p'"

abbreviation granted_out :: "pool \<Rightarrow> nat set" where
  "granted_out p \<equiv> {w \<in> outw p. granted (wtab (tok p) w)}"

definition pool_inv :: "pool \<Rightarrow> bool" where
  "pool_inv p = (tok_inv (tok p) \<and> 0 \<le> cons p \<and> 0 \<le> dec p \<and> finite (outw p) \<and>
     tokUsed (tok p) = cons p + dec p + int (card (granted_out p)) \<and>
     {w \<in> outw p. \<not> granted (wtab (tok p) w)} = set (waiters (tok p)) \<and>
     (\<forall>w \<in> outw p. w < nextW (tok p)))"

definition not_stranded :: "cpu_tokens \<Rightarrow> bool" where
  "not_stranded t = (waiters t \<noteq> [] \<longrightarrow> decodeStalled t = 0 \<longrightarrow> capacity t \<le> tokUsed t)"

lemma grantLocked_not_stranded: "not_stranded (grantLocked on t)"
  using grantLocked_drained [of on t] by (auto simp: not_stranded_def decodeHoldbackLocked_def)

text \<open>The grant loop moves tokens from the pool to queued waiters: whoever is granted was outstanding.\<close>

lemma pool_inv_grant:
  assumes inv: "pool_inv p"
  shows "pool_inv (p\<lparr>tok := grantLocked on (tok p)\<rparr>)"
proof -
  obtain k where k: "granted_prefix (tok p) (grantLocked on (tok p)) k"
    using grantLocked_prefix by blast
  let ?q = "waiters (tok p)"
  have ti: "tok_inv (tok p)" and fin: "finite (outw p)"
    and un: "{w \<in> outw p. \<not> granted (wtab (tok p) w)} = set ?q"
    using inv by (auto simp: pool_inv_def)
  have d: "distinct ?q" using ti by (simp add: tok_inv_def)
  have new: "granted_out (p\<lparr>tok := grantLocked on (tok p)\<rparr>) = granted_out p \<union> set (take k ?q)"
    using k un set_take_subset [of k ?q] by (auto simp: granted_prefix_def)
  have "card (granted_out p \<union> set (take k ?q)) = card (granted_out p) + card (set (take k ?q))"
    using fin un set_take_subset [of k ?q] by (intro card_Un_disjoint) auto
  also have "card (set (take k ?q)) = k"
    using d k by (simp add: distinct_card granted_prefix_def min_def)
  finally have c: "card (granted_out (p\<lparr>tok := grantLocked on (tok p)\<rparr>)) = card (granted_out p) + k"
    by (simp only: new)
  have "set (take k ?q) \<inter> set (drop k ?q) = {}"
    using d by (simp add: set_take_disj_set_drop_if_distinct)
  moreover have "set (take k ?q) \<union> set (drop k ?q) = set ?q"
    by (metis append_take_drop_id set_append)
  ultimately have "{w \<in> outw p. \<not> granted (wtab (grantLocked on (tok p)) w)} = set (drop k ?q)"
    using k un by (auto simp: granted_prefix_def)
  with inv k c grantLocked_inv [OF ti, of on] show ?thesis
    by (simp add: pool_inv_def granted_prefix_def)
qed

lemma filter_fed_cong:
  "w \<notin> set ws \<Longrightarrow> filter (\<lambda>x. fed ((g(w := v)) x)) ws = filter (\<lambda>x. fed (g x)) ws"
  by (rule filter_cong) auto

text \<open>A successful try charges what it returns and never touches the queue.\<close>

definition charged_only :: "int \<Rightarrow> cpu_tokens \<Rightarrow> cpu_tokens \<Rightarrow> bool" where
  "charged_only k t t' = (0 \<le> k \<and> tokUsed t' = tokUsed t + k \<and> tokUsed t' \<le> capacity t \<and>
     capacity t' = capacity t \<and> decodeStalled t' = decodeStalled t \<and> waiters t' = waiters t \<and>
     fedWaiters t' = fedWaiters t \<and> wtab t' = wtab t \<and> nextW t' = nextW t)"

lemma TryAcquire_charges:
  "TryAcquire n t = (k, t') \<Longrightarrow> tokUsed t \<le> capacity t \<Longrightarrow> charged_only k t t'"
  by (auto simp: TryAcquire_def charged_only_def Let_def split: if_splits)

lemma tryAcquireDecode_charges:
  assumes "tryAcquireDecode on n t = (k, t')" and "tokUsed t \<le> capacity t"
  shows "charged_only k t t'"
proof (cases "0 < n \<and> \<not> on")
  case True
  with assms show ?thesis by (auto simp: tryAcquireDecode_def intro: TryAcquire_charges)
next
  case False
  with assms show ?thesis
    by (auto simp: tryAcquireDecode_def charged_only_def Let_def split: if_splits)
qed

lemma pool_inv_charged:
  assumes "pool_inv p" and "charged_only k (tok p) t'" and "c + d = cons p + dec p + k" and "0 \<le> c" and "0 \<le> d"
  shows "pool_inv (p\<lparr>tok := t', cons := c, dec := d\<rparr>)"
  using assms by (simp add: pool_inv_def tok_inv_def charged_only_def)

text \<open>The enqueued waiter and the withdrawn waiter, before the grant loop runs.\<close>

lemma pool_inv_enqueue:
  assumes "pool_inv p"
  defines "w \<equiv> nextW (tok p)"
  shows "pool_inv (p\<lparr>tok := tok p\<lparr>nextW := Suc w, wtab := (wtab (tok p))(w := \<lparr>fed = f, granted = False\<rparr>),
      waiters := waiters (tok p) @ [w], fedWaiters := fedWaiters (tok p) + (if f then 1 else 0)\<rparr>,
      outw := insert w (outw p)\<rparr>)" (is "pool_inv ?p")
proof -
  let ?g = "(wtab (tok p))(w := \<lparr>fed = f, granted = False\<rparr>)"
  have new: "w \<notin> outw p" "w \<notin> set (waiters (tok p))"
    using assms by (auto simp: pool_inv_def tok_inv_def)
  have "granted_out ?p = granted_out p" using new by auto
  moreover have "{x \<in> outw ?p. \<not> granted (wtab (tok ?p) x)} = insert w {x \<in> outw p. \<not> granted (wtab (tok p) x)}"
    using new by auto
  moreover have "tok_inv (tok ?p)"
    using assms new filter_fed_cong [OF new(2), of "wtab (tok p)"]
    by (auto simp: pool_inv_def tok_inv_def less_Suc_eq)
  ultimately show ?thesis using assms unfolding pool_inv_def by (auto simp: less_Suc_eq)
qed

lemma pool_inv_withdraw:
  assumes "pool_inv p" and w: "w \<in> outw p" "\<not> granted (wtab (tok p) w)"
  shows "pool_inv (p\<lparr>tok := tok p\<lparr>waiters := remove1 w (waiters (tok p)),
      fedWaiters := fedWaiters (tok p) - (if fed (wtab (tok p) w) then 1 else 0)\<rparr>,
      outw := outw p - {w}\<rparr>)" (is "pool_inv ?p")
proof -
  have q: "w \<in> set (waiters (tok p))" and d: "distinct (waiters (tok p))"
    using assms by (auto simp: pool_inv_def tok_inv_def)
  have "granted_out ?p = granted_out p" using w by auto
  moreover have "int (fed_count (tok ?p)) = int (fed_count (tok p)) - (if fed (wtab (tok p) w) then 1 else 0)"
  proof (cases "fed (wtab (tok p) w)")
    case True
    then have "fed_count (tok p) \<noteq> 0" using q by (auto simp: filter_empty_conv)
    then obtain m where "fed_count (tok p) = Suc m" by (meson not0_implies_Suc)
    with True q show ?thesis by (simp add: filter_remove1 length_remove1)
  qed (simp add: filter_remove1 length_remove1)
  then have "tok_inv (tok ?p)"
    using assms d q by (auto simp: pool_inv_def tok_inv_def dest: notin_set_remove1)
  moreover have "{x \<in> outw ?p. \<not> granted (wtab (tok ?p) x)} = set (remove1 w (waiters (tok p)))"
    using assms d by (auto simp: pool_inv_def set_remove1_eq)
  ultimately show ?thesis using assms unfolding pool_inv_def by auto
qed

text \<open>A returned token, before the grant loop runs.\<close>

lemma pool_inv_cancel_granted:
  assumes "pool_inv p" and w: "w \<in> outw p" "granted (wtab (tok p) w)"
  shows "pool_inv (p\<lparr>tok := tok p\<lparr>tokUsed := tokUsed (tok p) - 1\<rparr>, outw := outw p - {w}\<rparr>)" (is "pool_inv ?p")
proof -
  have "granted_out ?p = granted_out p - {w}" by auto
  moreover have "finite (granted_out p)" using assms by (simp add: pool_inv_def)
  ultimately have "int (card (granted_out p)) = int (card (granted_out ?p)) + 1"
    using w card_Suc_Diff1 [of "granted_out p" w] by simp
  moreover have "{x \<in> outw ?p. \<not> granted (wtab (tok ?p) x)} = {x \<in> outw p. \<not> granted (wtab (tok p) x)}"
    using w by auto
  ultimately show ?thesis using assms(1) unfolding pool_inv_def tok_inv_def by simp
qed

lemma pool_inv_returned:
  "pool_inv p \<Longrightarrow> c + d + n = cons p + dec p \<Longrightarrow> 0 \<le> c \<Longrightarrow> 0 \<le> d \<Longrightarrow> 0 \<le> n \<Longrightarrow>
   pool_inv (p\<lparr>tok := tok p\<lparr>tokUsed := tokUsed (tok p) - n, decodeUsed := u\<rparr>, cons := c, dec := d\<rparr>)"
  by (simp add: pool_inv_def tok_inv_def)

lemma pool_inv_retally:
  "pool_inv p \<Longrightarrow> c + d = cons p + dec p \<Longrightarrow> 0 \<le> c \<Longrightarrow> 0 \<le> d \<Longrightarrow> 0 \<le> s \<Longrightarrow>
   pool_inv (p\<lparr>tok := tok p\<lparr>decodeUsed := u, decodeStalled := s\<rparr>, cons := c, dec := d\<rparr>)"
  by (simp add: pool_inv_def tok_inv_def)

definition sound_pool :: "pool \<Rightarrow> bool" where
  "sound_pool p = (pool_inv p \<and> not_stranded (tok p))"

lemma sound_grant:
  assumes "pool_inv (p\<lparr>tok := t, cons := c, dec := d, outw := ws\<rparr>)"
  shows "sound_pool (p\<lparr>tok := grantLocked on t, cons := c, dec := d, outw := ws\<rparr>)"
  using pool_inv_grant [OF assms, of on] by (cases p) (simp add: sound_pool_def grantLocked_not_stranded)

lemma pool_upd_collapse:
  "p\<lparr>tok := t, cons := cons p, dec := dec p, outw := outw p\<rparr> = p\<lparr>tok := t\<rparr>"
  "p\<lparr>tok := t, cons := c, dec := dec p, outw := outw p\<rparr> = p\<lparr>tok := t, cons := c\<rparr>"
  "p\<lparr>tok := t, cons := cons p, dec := d, outw := outw p\<rparr> = p\<lparr>tok := t, dec := d\<rparr>"
  "p\<lparr>tok := t, cons := c, dec := d, outw := outw p\<rparr> = p\<lparr>tok := t, cons := c, dec := d\<rparr>"
  "p\<lparr>tok := t, cons := cons p, dec := dec p, outw := ws\<rparr> = p\<lparr>tok := t, outw := ws\<rparr>"
  "p\<lparr>tok := t, cons := c, dec := dec p\<rparr> = p\<lparr>tok := t, cons := c\<rparr>"
  "p\<lparr>tok := t, cons := cons p, dec := d\<rparr> = p\<lparr>tok := t, dec := d\<rparr>"
  by simp_all

lemma sound_charged:
  assumes "sound_pool p" and "charged_only k (tok p) t'" and "c + d = cons p + dec p + k" and "0 \<le> c" and "0 \<le> d"
  shows "sound_pool (p\<lparr>tok := t', cons := c, dec := d\<rparr>)"
  using assms pool_inv_charged [where p = p and k = k and t' = t' and c = c and d = d]
  by (auto simp: sound_pool_def not_stranded_def charged_only_def)

lemma sound_release:
  assumes p: "sound_pool p" and n: "0 < n" and cd: "c + d + n = cons p + dec p" "0 \<le> c" "0 \<le> d"
  shows "sound_pool (p\<lparr>tok := grantLocked on ((tok p)\<lparr>tokUsed := tokUsed (tok p) - n, decodeUsed := u\<rparr>),
    cons := c, dec := d\<rparr>)"
  using sound_grant [where p = p and t = "(tok p)\<lparr>tokUsed := tokUsed (tok p) - n, decodeUsed := u\<rparr>" and c = c and d = d and ws = "outw p" and on = on]
    pool_inv_returned [where p = p and c = c and d = d and n = n and u = u] assms by (simp add: sound_pool_def)

lemma sound_cancel:
  assumes p: "sound_pool p" and w: "w \<in> outw p"
  shows "sound_pool (p\<lparr>tok := cancelWaiter on w (tok p), outw := outw p - {w}\<rparr>)"
proof (cases "granted (wtab (tok p) w)")
  case True
  with p w pool_inv_cancel_granted [of p w]
    sound_grant [where p = p and t = "(tok p)\<lparr>tokUsed := tokUsed (tok p) - 1\<rparr>" and c = "cons p" and d = "dec p" and ws = "outw p - {w}" and on = on]
  show ?thesis by (simp add: cancelWaiter_def sound_pool_def pool_upd_collapse)
next
  case False
  with p w have "w \<in> set (waiters (tok p))" by (auto simp: sound_pool_def pool_inv_def)
  with False p w pool_inv_withdraw [of p w] show ?thesis
    by (auto simp: cancelWaiter_def sound_pool_def not_stranded_def)
qed

lemma sound_take:
  assumes p: "sound_pool p" and w: "w \<in> outw p" "granted (wtab (tok p) w)"
  shows "sound_pool (p\<lparr>cons := cons p + 1, outw := outw p - {w}\<rparr>)" (is "sound_pool ?p")
  using p pool_inv_cancel_granted [OF _ w] unfolding sound_pool_def pool_inv_def tok_inv_def
  by (auto simp: not_stranded_def)

lemma sound_poolD:
  assumes "sound_pool p"
  shows "tokUsed (tok p) \<le> capacity (tok p)" "0 \<le> cons p" "0 \<le> dec p" "0 \<le> decodeStalled (tok p)" "pool_inv p"
  using assms by (simp_all add: sound_pool_def pool_inv_def tok_inv_def)

lemma sound_stalls:
  assumes "sound_pool p"
  shows "sound_pool (p\<lparr>tok := decodeStallBegin (tok p)\<rparr>)"
    and "sound_pool (p\<lparr>tok := decodeStallEnd on (tok p)\<rparr>)"
proof -
  let ?t = "if 0 < decodeStalled (tok p) then (tok p)\<lparr>decodeStalled := decodeStalled (tok p) - 1\<rparr> else tok p"
  have "pool_inv (p\<lparr>tok := ?t\<rparr>)"
    using assms by (simp add: sound_pool_def pool_inv_def tok_inv_def)
  then show "sound_pool (p\<lparr>tok := decodeStallEnd on (tok p)\<rparr>)"
    using sound_grant [where p = p and t = ?t and c = "cons p" and d = "dec p" and ws = "outw p" and on = on]
    by (simp add: decodeStallEnd_def)
  show "sound_pool (p\<lparr>tok := decodeStallBegin (tok p)\<rparr>)"
    using assms
    by (simp add: decodeStallBegin_def sound_pool_def not_stranded_def pool_inv_def tok_inv_def)
qed

lemma sound_adopt:
  assumes "sound_pool p" and "0 < n" and "n \<le> cons p"
  shows "sound_pool (p\<lparr>tok := adoptDecode n (tok p), cons := cons p - n, dec := dec p + n\<rparr>)"
proof -
  have "not_stranded (adoptDecode n (tok p))"
    using assms(1) by (simp add: adoptDecode_def sound_pool_def not_stranded_def)
  with assms show ?thesis by (simp add: adoptDecode_def sound_pool_def pool_inv_def tok_inv_def)
qed

lemma sound_enqueue:
  assumes "sound_pool p" and "enqueueWaiter on f (tok p) = (w, t')"
  shows "sound_pool (p\<lparr>tok := t', outw := insert w (outw p)\<rparr>)"
proof -
  let ?w = "nextW (tok p)"
  let ?t = "(tok p)\<lparr>nextW := Suc ?w, wtab := (wtab (tok p))(?w := \<lparr>fed = f, granted = False\<rparr>),
      waiters := waiters (tok p) @ [?w], fedWaiters := fedWaiters (tok p) + (if f then 1 else 0)\<rparr>"
  have "pool_inv (p\<lparr>tok := ?t, outw := insert ?w (outw p)\<rparr>)"
    using pool_inv_enqueue sound_poolD(5) [OF assms(1)] by blast
  then have "sound_pool (p\<lparr>tok := grantLocked on ?t, cons := cons p, dec := dec p, outw := insert ?w (outw p)\<rparr>)"
    by (intro sound_grant) simp
  moreover have "w = ?w" and "t' = grantLocked on ?t"
    using assms(2) unfolding enqueueWaiter_def Let_def by (auto simp only: prod.inject)
  ultimately show ?thesis by simp
qed

lemma pstep_sound: "pstep p p' \<Longrightarrow> sound_pool p \<Longrightarrow> sound_pool p'"
proof (induction rule: pstep.induct)
  case (p_try n p k t')
  note c = TryAcquire_charges [OF p_try.hyps sound_poolD(1) [OF p_try.prems]]
  then have "0 \<le> k" by (simp add: charged_only_def)
  with sound_charged [OF p_try.prems c, of "cons p + k" "dec p"] sound_poolD [OF p_try.prems]
  show ?case by simp
next
  case (p_tryDecode on n p k t')
  note c = tryAcquireDecode_charges [OF p_tryDecode.hyps sound_poolD(1) [OF p_tryDecode.prems]]
  then have "0 \<le> k" by (simp add: charged_only_def)
  with sound_charged [OF p_tryDecode.prems c, of "cons p" "dec p + k"] sound_poolD [OF p_tryDecode.prems]
  show ?case by simp
next
  case (p_release n p on)
  with sound_release [OF p_release.prems p_release.hyps(1), of "cons p - n" "dec p" on "decodeUsed (tok p)"]
    sound_poolD(3) [OF p_release.prems]
  show ?case by (simp add: tok_Release_def)
next
  case (p_releaseDecode n p on)
  let ?d = "decodeUsed (tok p) - n"
  from p_releaseDecode sound_poolD(2) [OF p_releaseDecode.prems]
    sound_release [OF p_releaseDecode.prems p_releaseDecode.hyps(1), of "cons p" "dec p - n" on "if ?d < 0 then 0 else ?d"]
  show ?case by (simp add: releaseDecode_def Let_def)
qed (simp_all add: sound_stalls sound_adopt sound_enqueue sound_cancel sound_take)

lemma cancelWaiter_capacity [simp]: "capacity (cancelWaiter on w t) = capacity t"
  by (simp add: cancelWaiter_def)

lemma pstep_capacity: "pstep p p' \<Longrightarrow> capacity (tok p') = capacity (tok p)"
  by (induction rule: pstep.induct)
    (auto simp: TryAcquire_def tryAcquireDecode_def decodeStallBegin_def decodeStallEnd_def adoptDecode_def
      tok_Release_def releaseDecode_def enqueueWaiter_def Let_def split: if_splits)

lemma reachable_pool_sound:
  "reachable_pool cap p \<Longrightarrow> sound_pool p \<and> capacity (tok p) = max 0 cap"
proof (induction rule: reachable_pool.induct)
  case start
  then show ?case
    by (simp add: sound_pool_def pool_inv_def tok_inv_def not_stranded_def newCPUTokens_def Let_def)
next
  case (step p p')
  then show ?case using pstep_sound pstep_capacity by metis
qed

text \<open>With decode demand under its floor, no grant takes the last free token.\<close>

lemma grantLocked_keeps_floor:
  assumes "0 < decodeStalled t" and "decodeUsed t < reserve t" and "tokUsed t < capacity t"
  shows "tokUsed (grantLocked True t) < capacity (grantLocked True t)"
proof -
  have "0 < decodeStalled t \<and> decodeUsed t < reserve t \<and> tokUsed t < capacity t \<longrightarrow>
      tokUsed (grantLocked True t) < capacity (grantLocked True t)"
  proof (rule grantLocked_rule [where on = True and P = "\<lambda>t t'. 0 < decodeStalled t \<and>
      decodeUsed t < reserve t \<and> tokUsed t < capacity t \<longrightarrow> tokUsed t' < capacity t'"], goal_cases)
    case (3 t t')
    have "0 < decodeStalled t \<and> decodeUsed t < reserve t \<longrightarrow> 0 < decodeHoldbackLocked True t"
      by (simp add: decodeHoldbackLocked_def Let_def)
    with 3(3) have "0 < decodeStalled t \<and> decodeUsed t < reserve t \<longrightarrow> tokUsed t + 1 < capacity t" by auto
    with 3 show ?case by (cases "waiters t") (auto simp: grant_head_def)
  qed simp_all
  with assms show ?thesis by simp
qed

lemma decodeHoldback_le_stalled: "0 \<le> decodeStalled t \<Longrightarrow> decodeHoldbackLocked on t \<le> decodeStalled t"
  by (simp add: decodeHoldbackLocked_def Let_def)

section \<open>Properties\<close>

text \<open>
  C4: In every state the pool can reach, for any interleaving of the calls of any clients, its charge is
  exactly the consumer tokens held, the decode tokens held and the grants not yet picked up; it lies between
  zero and the capacity; the count of fed waiters is that of the queue; and no token idles while a consumer
  waits unless a decoder is registered as stalled.
\<close>

theorem token_pool_sound:
  assumes "reachable_pool cap p"
  shows "tokUsed (tok p) = cons p + dec p + int (card {w \<in> outw p. granted (wtab (tok p) w)}) \<and>
    0 \<le> tokUsed (tok p) \<and> tokUsed (tok p) \<le> max 0 cap \<and>
    fedWaiters (tok p) = int (length (filter (\<lambda>w. fed (wtab (tok p) w)) (waiters (tok p)))) \<and>
    (waiters (tok p) \<noteq> [] \<and> decodeStalled (tok p) = 0 \<longrightarrow> tokUsed (tok p) = max 0 cap)"
proof -
  from reachable_pool_sound [OF assms] have s: "sound_pool p" and c: "capacity (tok p) = max 0 cap" by auto
  have i: "pool_inv p" "not_stranded (tok p)" using s by (simp_all add: sound_pool_def)
  have "waiters (tok p) \<noteq> [] \<and> decodeStalled (tok p) = 0 \<longrightarrow> tokUsed (tok p) = max 0 cap"
    using i(2) sound_poolD(1) [OF s] c by (auto simp: not_stranded_def)
  then show ?thesis
    using i(1) c unfolding pool_inv_def tok_inv_def by simp
qed

theorem token_pool_sound_witness:
  "\<exists>p. reachable_pool 2 p \<and> waiters (tok p) \<noteq> [] \<and> tokUsed (tok p) = 2"
proof -
  let ?s = "\<lparr>tok = newCPUTokens 2, cons = 0, dec = 0, outw = {}\<rparr>"
  let ?t = "snd (TryAcquire 2 (tok ?s))"
  let ?p = "?s\<lparr>tok := ?t, cons := 2\<rparr>"
  let ?q = "?p\<lparr>tok := snd (enqueueWaiter True True ?t), outw := {0}\<rparr>"
  have "pstep ?s (?s\<lparr>tok := ?t, cons := cons ?s + 2\<rparr>)"
    by (rule p_try [of 2]) (simp add: TryAcquire_def newCPUTokens_def)
  then have "reachable_pool 2 ?p"
    using reachable_pool.step [OF reachable_pool.start] by simp
  moreover have "pstep ?p (?p\<lparr>tok := snd (enqueueWaiter True True ?t), outw := insert 0 (outw ?p)\<rparr>)"
    by (rule p_enqueue [of True True])
      (simp add: enqueueWaiter_def TryAcquire_def newCPUTokens_def grantLocked_eq)
  ultimately have r: "reachable_pool 2 ?q"
    using reachable_pool.step by fastforce
  have "waiters (tok ?q) \<noteq> []" and "decodeStalled (tok ?q) = 0"
    by (simp_all add: enqueueWaiter_def TryAcquire_def newCPUTokens_def grantLocked_eq)
  with token_pool_sound [OF r] have "tokUsed (tok ?q) = max 0 2" by blast
  with r \<open>waiters (tok ?q) \<noteq> []\<close> show ?thesis by (intro exI [of _ ?q] conjI) simp_all
qed

text \<open>
  C24: Grants are first come, first served and maximal. A release hands its tokens to a prefix of the queue,
  in order, one token each; if a waiter is still queued then at most as many tokens stay free as decoders are
  registered as stalled; and with none stalled the prefix has exactly the length the free tokens allow, so the
  waiter at position i is served once i + 1 tokens have come back.
\<close>

theorem release_grants_fifo:
  assumes "tok_inv t" and "0 < n"
  shows "\<exists>k \<le> length (waiters t).
    waiters (tok_Release on n t) = drop k (waiters t) \<and>
    tokUsed (tok_Release on n t) = tokUsed t - n + int k \<and>
    (\<forall>w. granted (wtab (tok_Release on n t) w) = (granted (wtab t w) \<or> w \<in> set (take k (waiters t)))) \<and>
    (k < length (waiters t) \<longrightarrow> capacity t - tokUsed (tok_Release on n t) \<le> decodeStalled t) \<and>
    (decodeStalled t = 0 \<longrightarrow> int k = min (int (length (waiters t))) (capacity t - tokUsed t + n))"
proof -
  let ?t = "t\<lparr>tokUsed := tokUsed t - n\<rparr>"
  have r: "tok_Release on n t = grantLocked on ?t" using assms(2) by (simp add: tok_Release_def)
  obtain k where k: "granted_prefix ?t (grantLocked on ?t) k" using grantLocked_prefix by blast
  have st: "0 \<le> decodeStalled t" and i: "tok_inv ?t" using assms by (auto simp: tok_inv_def)
  have le: "tokUsed (grantLocked on ?t) \<le> capacity t"
    using grantLocked_inv [OF i, of on] by (simp add: tok_inv_def)
  have q: "k < length (waiters t) \<longrightarrow> capacity t - tokUsed (grantLocked on ?t) \<le> decodeStalled t"
    using grantLocked_drained [of on ?t] decodeHoldback_le_stalled [of "grantLocked on ?t" on] st k
    by (auto simp: granted_prefix_def)
  have "decodeStalled t = 0 \<longrightarrow> int k = min (int (length (waiters t))) (capacity t - tokUsed t + n)"
    using q le k by (auto simp: granted_prefix_def)
  with k q show ?thesis
    unfolding r by (intro exI [of _ k]) (simp add: granted_prefix_def)
qed

theorem release_grants_fifo_witness:
  "\<exists>k \<le> length [7, 4, 9 :: nat]. waiters (tok_Release True 2 ((newCPUTokens 4)\<lparr>tokUsed := 4, waiters := [7, 4, 9], nextW := 10\<rparr>))
     = drop k [7, 4, 9] \<and> int k = 2"
  using release_grants_fifo [of "(newCPUTokens 4)\<lparr>tokUsed := 4, waiters := [7, 4, 9], nextW := 10\<rparr>" 2 True]
  by (auto simp: tok_inv_def newCPUTokens_def)

text \<open>
  C25: The decode floor is reachable. While decode admission is on, a decoder is registered as stalled and the
  class is below its reserve, a release of consumer tokens never lets the queue take the last free token: the
  decoder that retries right after it gets one, however many consumers are queued.
\<close>

theorem stalled_decoder_finds_token:
  assumes "tok_inv t" and "0 < n" and "0 < decodeStalled t" and "decodeUsed t < reserve t"
  shows "fst (tryAcquireDecode True 1 (tok_Release True n t)) = 1"
proof -
  let ?t = "t\<lparr>tokUsed := tokUsed t - n\<rparr>"
  have "tokUsed ?t < capacity ?t" using assms(1,2) by (simp add: tok_inv_def)
  then have "tokUsed (grantLocked True ?t) < capacity (grantLocked True ?t)"
    using assms(3,4) by (intro grantLocked_keeps_floor) simp_all
  with assms(2,4) show ?thesis
    by (simp add: tok_Release_def tryAcquireDecode_def decodePreferredLocked_def Let_def)
qed

theorem stalled_decoder_finds_token_witness:
  "fst (tryAcquireDecode True 1 (tok_Release True 1
     ((newCPUTokens 4)\<lparr>tokUsed := 4, decodeStalled := 1, waiters := [0, 1], nextW := 2\<rparr>))) = 1"
  by (rule stalled_decoder_finds_token) (simp_all add: tok_inv_def newCPUTokens_def decodeReserveFor_def)

end
