(* ===== verification/Probe_Table.thy ===== *)
theory Probe_Table
  imports Wadjet_Base
begin

text \<open>
  The open-addressing core shared by the engine's hash indexes (\<^verbatim>\<open>internal/engine/exec/int_hash.go\<close>,
  \<^verbatim>\<open>packed_hash.go\<close>, \<^verbatim>\<open>two_level_hash.go\<close>): linear probing over a power-of-two array, the
  rehash loop of a doubling, the copy-doubling fill of a fresh array, and back-shift deletion. The four tables
  of the source repeat these loops over their own entry type and hash; here they take the entry's occupancy
  test \<open>occ\<close>, its key \<open>kf\<close> and the slot hash \<open>hf\<close> as arguments. An unbounded \<^verbatim>\<open>for\<close> over
  the slots of a table has the number of slots as fuel: after that many turns it is back where it began, so
  \<open>None\<close> is the loop that never returns.
\<close>

section \<open>The loops\<close>

fun probe :: "('e \<Rightarrow> bool) \<Rightarrow> ('e \<Rightarrow> 'k) \<Rightarrow> 'e list \<Rightarrow> u64 \<Rightarrow> 'k \<Rightarrow> u64 \<Rightarrow> nat \<Rightarrow> u64 option" where
  "probe occ kf es msk k idx 0 = None"
| "probe occ kf es msk k idx (Suc fuel) =
     (let e = es ! unat idx in
      if \<not> occ e then Some idx
      else if kf e = k then Some idx
      else probe occ kf es msk k ((idx + 1) AND msk) fuel)"

fun first_free :: "('e \<Rightarrow> bool) \<Rightarrow> 'e list \<Rightarrow> u64 \<Rightarrow> u64 \<Rightarrow> nat \<Rightarrow> u64 option" where
  "first_free occ es msk idx 0 = None"
| "first_free occ es msk idx (Suc fuel) =
     (if occ (es ! unat idx) then first_free occ es msk ((idx + 1) AND msk) fuel else Some idx)"

fun rehash :: "('e \<Rightarrow> bool) \<Rightarrow> ('e \<Rightarrow> 'k) \<Rightarrow> ('k \<Rightarrow> u64) \<Rightarrow> u64 \<Rightarrow> 'e list \<Rightarrow> 'e list \<Rightarrow> 'e list option" where
  "rehash occ kf hf msk [] new = Some new"
| "rehash occ kf hf msk (e # old) new =
     (if \<not> occ e then rehash occ kf hf msk old new
      else case first_free occ new msk (hf (kf e) AND msk) (length new) of
             None \<Rightarrow> None
           | Some idx \<Rightarrow> rehash occ kf hf msk old (new[unat idx := e]))"

text \<open>\<^verbatim>\<open>copy(dst[i:], dst[:i])\<close> for \<open>i\<close> = 1, 2, 4, ... below the length.\<close>

definition copy_up :: "nat \<Rightarrow> 'e list \<Rightarrow> 'e list" where
  "copy_up i es = take i es @ take (length es - i) (take i es) @ drop (2 * i) es"

lemma length_copy_up [simp]: "i \<le> length es \<Longrightarrow> length (copy_up i es) = length es"
  by (auto simp: copy_up_def)

function fill_double :: "nat \<Rightarrow> 'e list \<Rightarrow> 'e list" where
  "fill_double i es = (if 0 < i \<and> i < length es then fill_double (2 * i) (copy_up i es) else es)"
  by pat_completeness auto
termination
  by (relation "measure (\<lambda>(i, es). length es - i)") auto

declare fill_double.simps [simp del]

text \<open>The bounded search that starts a deletion: at most one turn around the table.\<close>

fun find_bounded :: "('e \<Rightarrow> bool) \<Rightarrow> ('e \<Rightarrow> 'k) \<Rightarrow> 'e list \<Rightarrow> u64 \<Rightarrow> 'k \<Rightarrow> u64 \<Rightarrow> nat \<Rightarrow> u64 option" where
  "find_bounded occ kf es msk k idx 0 = None"
| "find_bounded occ kf es msk k idx (Suc n) =
     (let e = es ! unat idx in
      if \<not> occ e then None
      else if kf e = k then Some idx
      else find_bounded occ kf es msk k ((idx + 1) AND msk) n)"

text \<open>The back-shift walk of a deletion: \<open>i\<close> is the hole, \<open>j\<close> the slot last looked at.\<close>

fun back_shift :: "('e \<Rightarrow> bool) \<Rightarrow> ('e \<Rightarrow> 'k) \<Rightarrow> ('k \<Rightarrow> u64) \<Rightarrow> u64 \<Rightarrow> 'e list \<Rightarrow> u64 \<Rightarrow> u64 \<Rightarrow> nat \<Rightarrow> 'e list \<times> u64" where
  "back_shift occ kf hf msk es i j 0 = (es, i)"
| "back_shift occ kf hf msk es i j (Suc fuel) =
     (let j = (j + 1) AND msk; e = es ! unat j in
      if \<not> occ e then (es, i)
      else
        let home = hf (kf e) AND msk in
        if ((j - home) AND msk) < ((j - i) AND msk)
        then back_shift occ kf hf msk es i j fuel
        else back_shift occ kf hf msk (es[unat i := e]) j j fuel)"

section \<open>Slots modulo the table size\<close>

text \<open>The mask of a table of \<open>n\<close> slots, \<^verbatim>\<open>uint64(n - 1)\<close>.\<close>

definition msk_of :: "nat \<Rightarrow> u64" where "msk_of n = of_nat (n - 1)"

definition pow2 :: "nat \<Rightarrow> bool" where "pow2 n = (\<exists>b \<le> 63. n = 2 ^ b)"

lemma pow2_pos: "pow2 n \<Longrightarrow> 0 < n"
  by (auto simp: pow2_def)

lemma pow2_dvd: "pow2 n \<Longrightarrow> n dvd 2 ^ 64"
  by (auto simp: pow2_def simp del: power_numeral intro!: le_imp_power_dvd)

lemma unat_and_msk:
  assumes "pow2 n"
  shows "unat (x AND msk_of n) = unat x mod n"
proof -
  obtain b where b: "b \<le> 63" "n = 2 ^ b" using assms by (auto simp: pow2_def)
  have "msk_of n = mask b" by (simp add: msk_of_def b(2) mask_eq_exp_minus_1)
  then have "x AND msk_of n = take_bit b x" by (simp add: take_bit_eq_mask)
  moreover have "unat (take_bit b x) = take_bit b (unat x)" by (rule unsigned_take_bit_eq)
  ultimately show ?thesis by (simp only: b(2) take_bit_eq_mod [of b "unat x"])
qed

lemma unat_step_msk:
  assumes "pow2 n"
  shows "unat ((x + 1) AND msk_of n) = (unat x + 1) mod n"
proof -
  have "unat (x + 1) mod n = (unat x + unat (1 :: u64)) mod 2 ^ 64 mod n"
    by (simp only: unat_word_ariths(1)) simp
  then show ?thesis
    using pow2_dvd [OF assms] by (simp add: unat_and_msk [OF assms] mod_mod_cancel)
qed

text \<open>How far \<open>b\<close> lies behind \<open>a\<close> in the order of probing.\<close>

definition dist :: "nat \<Rightarrow> nat \<Rightarrow> nat \<Rightarrow> nat" where
  "dist n a b = (if a \<le> b then b - a else b + n - a)"

lemma dist_less: "a < n \<Longrightarrow> b < n \<Longrightarrow> dist n a b < n"
  by (auto simp: dist_def)

lemma add_mod_once: "a < n \<Longrightarrow> d < n \<Longrightarrow> (a + d) mod n = (if a + d < n then a + d else a + d - n)" for n :: nat
  by (simp add: mod_if)

lemma dist_add: "a < n \<Longrightarrow> b < n \<Longrightarrow> (a + dist n a b) mod n = b"
  by (auto simp: dist_def)

lemma dist_of_add: "a < n \<Longrightarrow> d < n \<Longrightarrow> dist n a ((a + d) mod n) = d"
  by (auto simp: dist_def add_mod_once)

lemma unat_sub_msk:
  assumes n: "pow2 n" and ab: "unat a < n" "unat b < n"
  shows "unat ((a - b) AND msk_of n) = dist n (unat b) (unat a)"
proof -
  define u where "u = unat (a - b)"
  have "unat a = unat ((a - b) + b)" by (simp only: diff_add_cancel)
  also have "\<dots> = (u + unat b) mod 2 ^ 64" unfolding u_def by (simp only: unat_word_ariths(1)) simp
  finally have "unat a mod n = (u + unat b) mod 2 ^ 64 mod n" by (rule arg_cong)
  also have "\<dots> = (u + unat b) mod n" by (rule mod_mod_cancel [OF pow2_dvd [OF n]])
  also have "\<dots> = (unat b + u mod n) mod n" by (simp only: mod_add_right_eq add.commute)
  finally have "(unat b + u mod n) mod n = unat a" using ab(1) by (simp only: mod_less)
  moreover have "dist n (unat b) ((unat b + u mod n) mod n) = u mod n"
    using ab(2) by (intro dist_of_add) (simp_all add: pow2_pos [OF n])
  ultimately show ?thesis by (simp only: unat_and_msk [OF n] u_def)
qed

lemma dist_split: "a < n \<Longrightarrow> i < n \<Longrightarrow> p < n \<Longrightarrow> dist n a i \<le> dist n a p \<Longrightarrow> dist n a p = dist n a i + dist n i p"
  by (auto simp: dist_def split: if_splits)

lemma dist_split_back:
  "a < n \<Longrightarrow> i < n \<Longrightarrow> p < n \<Longrightarrow> dist n i p \<le> dist n a p \<Longrightarrow> dist n a p = dist n a i + dist n i p"
  by (auto simp: dist_def split: if_splits)

lemma dist_between:
  assumes a: "a < n" "i < n" "p < n" "j < n"
    and sp: "dist n a p = dist n a i + dist n i p" and lt: "dist n i j < dist n i p"
  shows "dist n a j = dist n a i + dist n i j"
proof -
  let ?d = "dist n a i + dist n i j"
  have "(a + ?d) mod n = ((a + dist n a i) mod n + dist n i j) mod n"
    by (simp only: mod_add_left_eq add.assoc)
  also have "\<dots> = j" by (simp only: dist_add a)
  finally have "dist n a j = dist n a ((a + ?d) mod n)" by (simp only:)
  also have "\<dots> = ?d" using sp lt dist_less [OF a(1,3)] by (intro dist_of_add a(1)) linarith
  finally show ?thesis .
qed

lemma dist_inj: "a < n \<Longrightarrow> p < n \<Longrightarrow> q < n \<Longrightarrow> dist n a p = dist n a q \<Longrightarrow> p = q"
  by (auto simp: dist_def split: if_splits)

lemma dist_same [simp]: "dist n a a = 0"
  by (simp add: dist_def)

lemma dist_0: "a < n \<Longrightarrow> p < n \<Longrightarrow> dist n a p = 0 \<longleftrightarrow> p = a"
  by (auto simp: dist_def)

lemma dist_Suc: "i < n \<Longrightarrow> j < n \<Longrightarrow> (j + 1) mod n \<noteq> i \<Longrightarrow> dist n i ((j + 1) mod n) = Suc (dist n i j)"
  by (auto simp: dist_def mod_Suc split: if_splits)

lemma dist_step: "j < n \<Longrightarrow> z < n \<Longrightarrow> j \<noteq> z \<Longrightarrow> dist n j z = Suc (dist n ((j + 1) mod n) z)"
  by (auto simp: dist_def mod_Suc split: if_splits)

lemma mod_bound: "a < n \<Longrightarrow> x mod n < n" for n :: nat
  by (intro mod_less_divisor) linarith

lemma dist_wrap: "j < n \<Longrightarrow> (j + 1) mod n = i \<Longrightarrow> q < n \<Longrightarrow> dist n i q \<le> dist n i j"
  by (auto simp: dist_def mod_Suc split: if_splits)

section \<open>Walking a table\<close>

lemma probe_walk:
  assumes n: "pow2 (length es)" and "unat idx < length es"
    and "\<And>d'. d' < d \<Longrightarrow> occ (es ! ((unat idx + d') mod length es)) \<and> kf (es ! ((unat idx + d') mod length es)) \<noteq> k"
    and "\<not> occ (es ! ((unat idx + d) mod length es)) \<or> kf (es ! ((unat idx + d) mod length es)) = k"
    and "d < fuel"
  shows "\<exists>r. probe occ kf es (msk_of (length es)) k idx fuel = Some r \<and> unat r = (unat idx + d) mod length es"
  using assms(2-)
proof (induction d arbitrary: idx fuel)
  case 0
  then show ?case by (cases fuel) (auto simp: Let_def)
next
  case (Suc d)
  obtain f where f: "fuel = Suc f" using Suc.prems(4) by (cases fuel) auto
  let ?i = "(idx + 1) AND msk_of (length es)"
  have i: "unat ?i = (unat idx + 1) mod length es" by (rule unat_step_msk [OF n])
  have shift: "(unat ?i + x) mod length es = (unat idx + Suc x) mod length es" for x
    by (simp add: i mod_add_left_eq)
  have "occ (es ! unat idx) \<and> kf (es ! unat idx) \<noteq> k" using Suc.prems(1) Suc.prems(2) [of 0] by simp
  moreover have "\<exists>r. probe occ kf es (msk_of (length es)) k ?i f = Some r \<and> unat r = (unat ?i + d) mod length es"
  proof (rule Suc.IH)
    show "unat ?i < length es" using i pow2_pos [OF n] by simp
    show "d < f" using Suc.prems(4) f by simp
    show "occ (es ! ((unat ?i + d') mod length es)) \<and> kf (es ! ((unat ?i + d') mod length es)) \<noteq> k" if "d' < d" for d'
      unfolding shift using Suc.prems(2) [of "Suc d'"] that by blast
    show "\<not> occ (es ! ((unat ?i + d) mod length es)) \<or> kf (es ! ((unat ?i + d) mod length es)) = k"
      using Suc.prems(3) by (simp only: shift)
  qed
  ultimately show ?case by (simp add: f shift)
qed

lemma find_bounded_probe:
  "find_bounded occ kf es msk k idx n =
     (case probe occ kf es msk k idx n of
        None \<Rightarrow> None | Some i \<Rightarrow> if occ (es ! unat i) then Some i else None)"
  by (induction n arbitrary: idx) (auto simp: Let_def)

lemma first_free_is_probe: "first_free occ es msk idx fuel = probe occ (\<lambda>_. False) es msk True idx fuel"
  by (induction fuel arbitrary: idx) (simp_all add: Let_def)

section \<open>The table invariant\<close>

definition home :: "('k \<Rightarrow> u64) \<Rightarrow> nat \<Rightarrow> 'k \<Rightarrow> nat" where
  "home hf n k = unat (hf k) mod n"

text \<open>Every occupied slot is reached from its key's home slot through occupied slots only.\<close>

definition path :: "('e \<Rightarrow> bool) \<Rightarrow> 'e list \<Rightarrow> nat \<Rightarrow> nat \<Rightarrow> bool" where
  "path occ es a p = (\<forall>d < dist (length es) a p. occ (es ! ((a + d) mod length es)))"

definition chained :: "('e \<Rightarrow> bool) \<Rightarrow> ('e \<Rightarrow> 'k) \<Rightarrow> ('k \<Rightarrow> u64) \<Rightarrow> 'e list \<Rightarrow> bool" where
  "chained occ kf hf es =
     (\<forall>p < length es. occ (es ! p) \<longrightarrow> path occ es (home hf (length es) (kf (es ! p))) p)"

definition uniq :: "('e \<Rightarrow> bool) \<Rightarrow> ('e \<Rightarrow> 'k) \<Rightarrow> 'e list \<Rightarrow> bool" where
  "uniq occ kf es = (\<forall>p < length es. \<forall>q < length es.
     occ (es ! p) \<longrightarrow> occ (es ! q) \<longrightarrow> kf (es ! p) = kf (es ! q) \<longrightarrow> p = q)"

definition used :: "('e \<Rightarrow> bool) \<Rightarrow> 'e list \<Rightarrow> nat" where
  "used occ es = length (filter occ es)"

definition contents :: "('e \<Rightarrow> bool) \<Rightarrow> 'e list \<Rightarrow> 'e set" where
  "contents occ es = {e \<in> set es. occ e}"

definition table_ok :: "('e \<Rightarrow> bool) \<Rightarrow> ('e \<Rightarrow> 'k) \<Rightarrow> ('k \<Rightarrow> u64) \<Rightarrow> 'e list \<Rightarrow> bool" where
  "table_ok occ kf hf es = (pow2 (length es) \<and> chained occ kf hf es \<and> uniq occ kf es \<and> used occ es < length es)"

lemma used_update:
  "q < length es \<Longrightarrow> used occ (es[q := e]) + (if occ (es ! q) then 1 else 0) = used occ es + (if occ e then 1 else 0)"
  unfolding used_def
  by (subst (2) id_take_nth_drop [of q es], assumption) (simp add: upd_conv_take_nth_drop)

lemma used_less_ex: "used occ es < length es \<Longrightarrow> \<exists>p < length es. \<not> occ (es ! p)"
  unfolding used_def by (metis filter_True in_set_conv_nth less_irrefl)

lemma contents_nth: "e \<in> contents occ es \<longleftrightarrow> (\<exists>p < length es. es ! p = e \<and> occ e)"
  by (auto simp: contents_def in_set_conv_nth)

text \<open>What a table holds outside one slot.\<close>

definition others :: "('e \<Rightarrow> bool) \<Rightarrow> 'e list \<Rightarrow> nat \<Rightarrow> 'e set" where
  "others occ es q = {e. occ e \<and> (\<exists>p < length es. p \<noteq> q \<and> es ! p = e)}"

lemma others_update [simp]: "others occ (es[q := e]) q = others occ es q"
  by (auto simp: others_def)

lemma contents_others:
  "q < length es \<Longrightarrow> contents occ es = others occ es q \<union> (if occ (es ! q) then {es ! q} else {})"
  by (auto simp: others_def contents_nth)

lemma contents_update:
  "q < length es \<Longrightarrow> contents occ (es[q := e]) = others occ es q \<union> (if occ e then {e} else {})"
  by (subst contents_others [of q]) simp_all

lemma uniq_others:
  assumes "uniq occ kf es" and "q < length es" and "occ (es ! q)" and "e \<in> others occ es q"
  shows "kf e \<noteq> kf (es ! q)"
  using assms unfolding uniq_def others_def by blast

lemma uniq_update:
  assumes "uniq occ kf es" and "q < length es" and "\<And>x. x \<in> others occ es q \<Longrightarrow> kf x \<noteq> kf e"
  shows "uniq occ kf (es[q := e])"
  unfolding uniq_def
proof (intro allI impI)
  fix p r
  assume a: "p < length (es[q := e])" "r < length (es[q := e])" "occ (es[q := e] ! p)" "occ (es[q := e] ! r)"
    "kf (es[q := e] ! p) = kf (es[q := e] ! r)"
  have "kf (es ! x) \<noteq> kf e" if "x < length es" "x \<noteq> q" "occ (es ! x)" for x
    using assms(3) that by (auto simp: others_def)
  with a assms(1,2) show "p = r"
    unfolding uniq_def by (cases "p = q"; cases "r = q") (simp_all, metis+)
qed

lemma contents_Cons [simp]:
  "contents occ (e # es) = (if occ e then insert e (contents occ es) else contents occ es)"
  by (auto simp: contents_def)

lemma used_Cons [simp]: "used occ (e # es) = used occ es + (if occ e then 1 else 0)"
  by (simp add: used_def)

lemma contents_Nil [simp]: "contents occ [] = {}" and used_Nil [simp]: "used occ [] = 0"
  by (simp_all add: contents_def used_def)

lemma path_mono:
  assumes "path occ es a p" and "length es' = length es" and "0 < length es"
    and "\<And>x. x < length es \<Longrightarrow> occ (es ! x) \<Longrightarrow> occ (es' ! x)"
  shows "path occ es' a p"
  using assms by (simp add: path_def)

lemma tableD:
  assumes "table_ok occ kf hf es"
  shows "pow2 (length es)" "0 < length es" "chained occ kf hf es" "uniq occ kf es" "used occ es < length es"
  using assms pow2_pos by (auto simp: table_ok_def)

text \<open>
  Deletion. While the back-shift walk runs, slot \<open>i\<close> holds a stale copy (the hole) and \<open>j\<close> is the
  slot last looked at: the keys of the other entries are distinct, every other entry reaches its home through
  occupied slots except possibly the hole, an entry whose chain needs the hole lies beyond \<open>j\<close>, and the
  slots from the hole to \<open>j\<close> are occupied.
\<close>

definition uniq_but :: "('e \<Rightarrow> bool) \<Rightarrow> ('e \<Rightarrow> 'k) \<Rightarrow> 'e list \<Rightarrow> nat \<Rightarrow> bool" where
  "uniq_but occ kf es i = (\<forall>p < length es. \<forall>r < length es. p \<noteq> i \<longrightarrow> r \<noteq> i \<longrightarrow> occ (es ! p) \<longrightarrow>
     occ (es ! r) \<longrightarrow> kf (es ! p) = kf (es ! r) \<longrightarrow> p = r)"

definition chain_but :: "('e \<Rightarrow> bool) \<Rightarrow> ('e \<Rightarrow> 'k) \<Rightarrow> ('k \<Rightarrow> u64) \<Rightarrow> 'e list \<Rightarrow> nat \<Rightarrow> bool" where
  "chain_but occ kf hf es i = (\<forall>p < length es. \<forall>q < length es. p \<noteq> i \<longrightarrow> q \<noteq> i \<longrightarrow> occ (es ! p) \<longrightarrow>
     dist (length es) (home hf (length es) (kf (es ! p))) q < dist (length es) (home hf (length es) (kf (es ! p))) p
     \<longrightarrow> occ (es ! q))"

definition beyond :: "('e \<Rightarrow> bool) \<Rightarrow> ('e \<Rightarrow> 'k) \<Rightarrow> ('k \<Rightarrow> u64) \<Rightarrow> 'e list \<Rightarrow> nat \<Rightarrow> nat \<Rightarrow> bool" where
  "beyond occ kf hf es i j = (\<forall>p < length es. p \<noteq> i \<longrightarrow> occ (es ! p) \<longrightarrow>
     dist (length es) (home hf (length es) (kf (es ! p))) i < dist (length es) (home hf (length es) (kf (es ! p))) p
     \<longrightarrow> dist (length es) i j < dist (length es) i p)"

definition filled :: "('e \<Rightarrow> bool) \<Rightarrow> 'e list \<Rightarrow> nat \<Rightarrow> nat \<Rightarrow> bool" where
  "filled occ es i j = (\<forall>q < length es. dist (length es) i q \<le> dist (length es) i j \<longrightarrow> occ (es ! q))"

definition hole :: "('e \<Rightarrow> bool) \<Rightarrow> ('e \<Rightarrow> 'k) \<Rightarrow> ('k \<Rightarrow> u64) \<Rightarrow> 'e list \<Rightarrow> nat \<Rightarrow> nat \<Rightarrow> bool" where
  "hole occ kf hf es i j = (i < length es \<and> j < length es \<and> uniq_but occ kf es i \<and> chain_but occ kf hf es i \<and>
     beyond occ kf hf es i j \<and> filled occ es i j)"

lemmas uniq_butD = uniq_but_def [THEN iffD1, rule_format]
lemmas chain_butD = chain_but_def [THEN iffD1, rule_format]
lemmas beyondD = beyond_def [THEN iffD1, rule_format]
lemmas filledD = filled_def [THEN iffD1, rule_format]

text \<open>The entry a table holds for a key.\<close>

definition entry_at :: "('e \<Rightarrow> bool) \<Rightarrow> ('e \<Rightarrow> 'k) \<Rightarrow> 'e list \<Rightarrow> 'k \<Rightarrow> 'e option" where
  "entry_at occ kf es k = find (\<lambda>e. occ e \<and> kf e = k) es"

lemma entry_at_None: "entry_at occ kf es k = None \<longleftrightarrow> (\<forall>e \<in> contents occ es. kf e \<noteq> k)"
  by (auto simp: entry_at_def find_None_iff contents_def)

lemma entry_at_Some:
  assumes "uniq occ kf es"
  shows "entry_at occ kf es k = Some e \<longleftrightarrow> e \<in> contents occ es \<and> kf e = k"
proof -
  have imp: "x \<in> contents occ es \<and> kf x = k" if "entry_at occ kf es k = Some x" for x
    using that by (auto simp: entry_at_def find_Some_iff contents_def)
  have "x = y" if "x \<in> contents occ es" "y \<in> contents occ es" "kf x = kf y" for x y
    using assms that unfolding uniq_def contents_nth by metis
  with imp show ?thesis by (metis entry_at_None option.exhaust)
qed

lemma uniq_Cons:
  assumes "uniq occ kf (e # es)"
  shows "uniq occ kf es" "occ e \<Longrightarrow> x \<in> contents occ es \<Longrightarrow> kf x \<noteq> kf e"
  using assms unfolding uniq_def contents_nth
  by (metis Suc_less_eq length_Cons nat.inject nth_Cons_Suc,
      metis Suc_less_eq length_Cons nat.distinct(1) nth_Cons_0 nth_Cons_Suc zero_less_Suc)

lemma entry_at_Cons:
  "entry_at occ kf (e # es) k = (if occ e \<and> kf e = k then Some e else entry_at occ kf es k)"
  by (simp add: entry_at_def)

lemma dom_entry_at: "finite (dom (entry_at occ kf es))"
proof (induction es)
  case Nil
  then show ?case by (simp add: entry_at_def)
next
  case (Cons e es)
  have "dom (entry_at occ kf (e # es)) \<subseteq> insert (kf e) (dom (entry_at occ kf es))"
    by (auto simp: dom_def entry_at_Cons split: if_splits)
  with Cons show ?case by (meson finite.insertI finite_subset)
qed

lemma used_card: "uniq occ kf es \<Longrightarrow> used occ es = card (dom (entry_at occ kf es))"
proof (induction es)
  case Nil
  then show ?case by (simp add: entry_at_def)
next
  case (Cons e es)
  note u = uniq_Cons [OF Cons.prems]
  show ?case
  proof (cases "occ e")
    case False
    then have "entry_at occ kf (e # es) = entry_at occ kf es" by (simp add: fun_eq_iff entry_at_Cons)
    with False Cons.IH [OF u(1)] show ?thesis by simp
  next
    case True
    have "entry_at occ kf es (kf e) = None" using u(2) [OF True] by (simp add: entry_at_None)
    then have "kf e \<notin> dom (entry_at occ kf es)" by (simp add: domIff)
    moreover have "dom (entry_at occ kf (e # es)) = insert (kf e) (dom (entry_at occ kf es))"
      using True by (auto simp: dom_def entry_at_Cons)
    ultimately show ?thesis using True Cons.IH [OF u(1)] dom_entry_at [of occ kf es] by simp
  qed
qed

lemma entry_at_cong:
  assumes "uniq occ kf es" and "uniq occ kf es'" and "contents occ es' = contents occ es"
  shows "entry_at occ kf es' k = entry_at occ kf es k"
  using entry_at_Some [OF assms(1)] entry_at_Some [OF assms(2)] entry_at_None assms(3)
  by (metis option.exhaust)

lemma entry_at_insert:
  assumes "uniq occ kf es" and "uniq occ kf es'" and "e \<in> contents occ es'"
    and "\<And>x. kf x \<noteq> kf e \<Longrightarrow> x \<in> contents occ es' \<longleftrightarrow> x \<in> contents occ es"
  shows "entry_at occ kf es' = (entry_at occ kf es)(kf e \<mapsto> e)"
proof
  fix k
  have "entry_at occ kf es' k = Some v \<longleftrightarrow> ((entry_at occ kf es)(kf e \<mapsto> e)) k = Some v" for v
  proof (cases "k = kf e")
    case True
    have "entry_at occ kf es' (kf e) = Some e" using entry_at_Some [OF assms(2)] assms(3) by blast
    then show ?thesis using True by simp
  next
    case False
    then show ?thesis using entry_at_Some [OF assms(1)] entry_at_Some [OF assms(2)] assms(4) by auto
  qed
  then show "entry_at occ kf es' k = ((entry_at occ kf es)(kf e \<mapsto> e)) k" by (metis option.exhaust)
qed

lemma entry_at_remove:
  assumes "uniq occ kf es" and "uniq occ kf es'" and "\<And>x. x \<in> contents occ es' \<Longrightarrow> kf x \<noteq> k"
    and "\<And>x. kf x \<noteq> k \<Longrightarrow> x \<in> contents occ es' \<longleftrightarrow> x \<in> contents occ es"
  shows "entry_at occ kf es' = (entry_at occ kf es)(k := None)"
proof
  fix k'
  have "entry_at occ kf es' k' = Some v \<longleftrightarrow> ((entry_at occ kf es)(k := None)) k' = Some v" for v
  proof (cases "k' = k")
    case True
    have "entry_at occ kf es' k = None" using assms(3) by (simp add: entry_at_None)
    then show ?thesis using True by simp
  next
    case False
    then show ?thesis using entry_at_Some [OF assms(1)] entry_at_Some [OF assms(2)] assms(4) by auto
  qed
  then show "entry_at occ kf es' k' = ((entry_at occ kf es)(k := None)) k'" by (metis option.exhaust)
qed

text \<open>The interface of an entry type: no law is needed of the occupancy test, the key and the hash.\<close>

locale probing =
  fixes occ :: "'e \<Rightarrow> bool" and kf :: "'e \<Rightarrow> 'k" and hf :: "'k \<Rightarrow> u64"
begin

abbreviation ok :: "'e list \<Rightarrow> bool" where "ok es \<equiv> table_ok occ kf hf es"
abbreviation hm :: "'e list \<Rightarrow> 'k \<Rightarrow> nat" where "hm es k \<equiv> home hf (length es) k"
abbreviation msk :: "'e list \<Rightarrow> u64" where "msk es \<equiv> msk_of (length es)"
abbreviation absent :: "'e list \<Rightarrow> 'k \<Rightarrow> bool" where "absent es k \<equiv> (\<forall>e \<in> contents occ es. kf e \<noteq> k)"

lemma home_less: "0 < length es \<Longrightarrow> hm es k < length es"
  by (simp add: home_def)

lemma unat_home: "pow2 (length es) \<Longrightarrow> unat (hf k AND msk es) = hm es k"
  by (simp add: unat_and_msk home_def)

lemma free_ahead:
  assumes "pow2 (length es)" and "used occ es < length es" and a: "a < length es"
  obtains q where "q < length es" and "\<not> occ (es ! q)" and "path occ es a q"
proof -
  obtain z where z: "z < length es" "\<not> occ (es ! z)" using used_less_ex [OF assms(2)] by blast
  define d where "d = (LEAST d. \<not> occ (es ! ((a + d) mod length es)))"
  have "\<not> occ (es ! ((a + dist (length es) a z) mod length es))" using z a by (simp add: dist_add)
  then have d: "\<not> occ (es ! ((a + d) mod length es))" and le: "d \<le> dist (length es) a z"
    unfolding d_def by (rule LeastI, rule Least_le)
  have dl: "d < length es" using le dist_less [OF a z(1)] by linarith
  have "occ (es ! ((a + x) mod length es))" if "x < d" for x
    using not_less_Least [of x "\<lambda>d. \<not> occ (es ! ((a + d) mod length es))"] that by (simp add: d_def)
  then have "path occ es a ((a + d) mod length es)" by (simp add: path_def dist_of_add [OF a dl])
  moreover have "(a + d) mod length es < length es" using a by (intro mod_less_divisor) linarith
  ultimately show thesis using that d by blast
qed

lemma probe_present:
  assumes ok: "ok es" and p: "p < length es" "occ (es ! p)" and k: "kf (es ! p) = k"
  shows "\<exists>r. probe occ kf es (msk es) k (hf k AND msk es) (length es) = Some r \<and> unat r = p"
proof -
  note t = tableD [OF ok]
  let ?a = "hm es k"
  let ?d = "dist (length es) ?a p"
  have a: "?a < length es" by (rule home_less [OF t(2)])
  have pa: "path occ es ?a p" using t(3) p k by (auto simp: chained_def)
  have "kf (es ! ((?a + d') mod length es)) \<noteq> k" if "d' < ?d" for d'
  proof
    assume eq: "kf (es ! ((?a + d') mod length es)) = k"
    have "(?a + d') mod length es = p"
      using t(4) pa that p k eq t(2) unfolding uniq_def path_def by simp
    then have "?d = d'" using dist_of_add [OF a, of d'] that dist_less [OF a p(1)] by simp
    with that show False by simp
  qed
  with pa p k t a dist_less [OF a p(1)] show ?thesis
    using probe_walk [of es "hf k AND msk es" ?d occ kf k "length es"]
    by (auto simp: unat_home path_def dist_add)
qed

lemma probe_absent:
  assumes ok: "ok es" and k: "absent es k"
  shows "\<exists>r. probe occ kf es (msk es) k (hf k AND msk es) (length es) = Some r \<and> unat r < length es \<and>
    \<not> occ (es ! unat r) \<and> path occ es (hm es k) (unat r)"
proof -
  note t = tableD [OF ok]
  have a: "hm es k < length es" by (rule home_less [OF t(2)])
  obtain q where q: "q < length es" "\<not> occ (es ! q)" "path occ es (hm es k) q"
    using free_ahead [OF t(1,5) a] by blast
  let ?d = "dist (length es) (hm es k) q"
  have "occ (es ! ((hm es k + d') mod length es)) \<and> kf (es ! ((hm es k + d') mod length es)) \<noteq> k"
    if "d' < ?d" for d'
  proof
    show o: "occ (es ! ((hm es k + d') mod length es))" using q(3) that by (simp add: path_def)
    then have "es ! ((hm es k + d') mod length es) \<in> contents occ es" using t(2) by (simp add: contents_def)
    then show "kf (es ! ((hm es k + d') mod length es)) \<noteq> k" using k by blast
  qed
  with q a dist_less [OF a q(1)] show ?thesis
    using probe_walk [OF t(1), of "hf k AND msk es" ?d occ kf k "length es"]
    by (auto simp: unat_home [OF t(1)] dist_add)
qed

lemma chained_fill:
  assumes c: "chained occ kf hf es" and q: "q < length es" and e: "occ e"
    and pa: "path occ es (hm es (kf e)) q"
  shows "chained occ kf hf (es[q := e])"
  unfolding chained_def
proof (intro allI impI)
  fix p assume "p < length (es[q := e])" and o: "occ (es[q := e] ! p)"
  then have p: "p < length es" by simp
  have "path occ es (hm es (kf (es[q := e] ! p))) p"
    using c o p q pa unfolding chained_def by (cases "p = q") simp_all
  moreover have "occ (es[q := e] ! x)" if "occ (es ! x)" "x < length es" for x
    using that e q by (simp add: nth_list_update)
  moreover have "es \<noteq> []" using p by auto
  ultimately show "path occ (es[q := e]) (home hf (length (es[q := e])) (kf (es[q := e] ! p))) p"
    using path_mono [of occ es _ p "es[q := e]"] by simp
qed

lemma insert_ok:
  assumes ok: "ok es" and q: "q < length es" "\<not> occ (es ! q)" and e: "occ e" "absent es (kf e)"
    and pa: "path occ es (hm es (kf e)) q"
  shows "chained occ kf hf (es[q := e])" "uniq occ kf (es[q := e])" "used occ (es[q := e]) = Suc (used occ es)"
    "contents occ (es[q := e]) = insert e (contents occ es)"
proof -
  note t = tableD [OF ok]
  show "chained occ kf hf (es[q := e])" by (rule chained_fill [OF t(3) q(1) e(1) pa])
  have co: "contents occ es = others occ es q" using contents_others [OF q(1)] q(2) by simp
  show "uniq occ kf (es[q := e])" using uniq_update [OF t(4) q(1)] e(2) co by blast
  show "used occ (es[q := e]) = Suc (used occ es)" using used_update [OF q(1), of occ e] q(2) e(1) by simp
  show "contents occ (es[q := e]) = insert e (contents occ es)"
    using contents_update [OF q(1), of occ e] e(1) co by simp
qed

lemma replace_ok:
  assumes ok: "ok es" and q: "q < length es" "occ (es ! q)" and e: "occ e" "kf e = kf (es ! q)"
  shows "ok (es[q := e])" "used occ (es[q := e]) = used occ es"
    "contents occ (es[q := e]) = insert e (contents occ es - {es ! q})"
proof -
  note t = tableD [OF ok]
  have "path occ es (hm es (kf e)) q" using t(3) q e by (simp add: chained_def)
  then have "chained occ kf hf (es[q := e])" by (rule chained_fill [OF t(3) q(1) e(1)])
  moreover have "uniq occ kf (es[q := e])"
    using uniq_update [OF t(4) q(1), of e] uniq_others [OF t(4) q] e(2) by simp
  moreover show "used occ (es[q := e]) = used occ es" using used_update [OF q(1), of occ e] q(2) e(1) by simp
  ultimately show "ok (es[q := e])" using t by (simp add: table_ok_def)
  show "contents occ (es[q := e]) = insert e (contents occ es - {es ! q})"
    using contents_update [OF q(1), of occ e] contents_others [OF q(1), of occ] uniq_others [OF t(4) q] q(2) e(1)
    by auto
qed

lemma first_free_finds:
  assumes p2: "pow2 (length es)" and u: "used occ es < length es"
  shows "\<exists>r. first_free occ es (msk es) (hf k AND msk es) (length es) = Some r \<and> unat r < length es \<and>
    \<not> occ (es ! unat r) \<and> path occ es (hm es k) (unat r)"
proof -
  have a: "hm es k < length es" by (rule home_less [OF pow2_pos [OF p2]])
  obtain q where q: "q < length es" "\<not> occ (es ! q)" "path occ es (hm es k) q"
    using free_ahead [OF p2 u a] by blast
  with a dist_less [OF a q(1)] show ?thesis
    using probe_walk [OF p2, of "hf k AND msk es" "dist (length es) (hm es k) q" occ "\<lambda>_. False" True "length es"]
    by (auto simp: unat_home [OF p2] first_free_is_probe path_def dist_add)
qed

lemma rehash_ok:
  assumes "ok new" and "uniq occ kf old" and "\<And>e. e \<in> contents occ old \<Longrightarrow> absent new (kf e)"
    and "used occ old + used occ new < length new"
  shows "\<exists>r. rehash occ kf hf (msk new) old new = Some r \<and> length r = length new \<and> ok r \<and>
    contents occ r = contents occ old \<union> contents occ new \<and> used occ r = used occ old + used occ new"
  using assms
proof (induction old arbitrary: new)
  case Nil
  then show ?case by simp
next
  case (Cons e old)
  have u: "uniq occ kf old" using Cons.prems(2) unfolding uniq_def by (metis Suc_less_eq length_Cons nat.inject nth_Cons_Suc)
  show ?case
  proof (cases "occ e")
    case False
    with Cons.IH [OF Cons.prems(1) u] Cons.prems(3,4) show ?thesis by simp
  next
    case True
    note t = tableD [OF Cons.prems(1)]
    have ab: "absent new (kf e)" using Cons.prems(3) [of e] True by simp
    obtain q where q: "first_free occ new (msk new) (hf (kf e) AND msk new) (length new) = Some q"
      "unat q < length new" "\<not> occ (new ! unat q)" "path occ new (hm new (kf e)) (unat q)"
      using first_free_finds [OF t(1,5)] by blast
    let ?new = "new[unat q := e]"
    note i = insert_ok [OF Cons.prems(1) q(2,3) True ab q(4)]
    have ok: "ok ?new"
      using i(1-3) t(1) Cons.prems(4) True by (simp add: table_ok_def)
    have "kf x \<noteq> kf e" if x: "x \<in> contents occ old" for x
    proof -
      obtain p where "p < length old" "old ! p = x" "occ x" using x by (auto simp: contents_nth)
      with Cons.prems(2) True show ?thesis
        unfolding uniq_def by (metis Suc_less_eq length_Cons nat.distinct(1) nth_Cons_0 nth_Cons_Suc zero_less_Suc)
    qed
    then have ab': "absent ?new (kf x)" if "x \<in> contents occ old" for x
      using Cons.prems(3) [of x] that True unfolding i(4) by fastforce
    have "used occ old + used occ ?new < length ?new" using Cons.prems(4) True i(3) by simp
    from Cons.IH [OF ok u ab' this] obtain r where "rehash occ kf hf (msk new) old ?new = Some r"
      "length r = length new" "ok r" "contents occ r = contents occ old \<union> contents occ ?new"
      "used occ r = used occ old + used occ ?new" by auto
    with True q(1) i(3,4) show ?thesis by simp
  qed
qed

lemma path_iff:
  assumes "a < length es" and "p < length es"
  shows "path occ es a p \<longleftrightarrow> (\<forall>q < length es. dist (length es) a q < dist (length es) a p \<longrightarrow> occ (es ! q))"
proof (intro iffI allI impI)
  fix q assume "path occ es a p" and q: "q < length es" "dist (length es) a q < dist (length es) a p"
  then show "occ (es ! q)" unfolding path_def using dist_add [OF assms(1) q(1)] by metis
next
  assume r: "\<forall>q < length es. dist (length es) a q < dist (length es) a p \<longrightarrow> occ (es ! q)"
  show "path occ es a p"
    unfolding path_def
  proof (intro allI impI)
    fix d assume d: "d < dist (length es) a p"
    then have "dist (length es) a ((a + d) mod length es) = d"
      using dist_of_add [OF assms(1), of d] dist_less [OF assms] by simp
    moreover have "(a + d) mod length es < length es" using assms(1) by (intro mod_less_divisor) linarith
    ultimately show "occ (es ! ((a + d) mod length es))" using r d by simp
  qed
qed

lemma hole_start:
  assumes "ok es" and i: "i < length es" "occ (es ! i)"
  shows "hole occ kf hf es i i"
  unfolding hole_def
proof (intro conjI)
  note t = tableD [OF assms(1)]
  show "uniq_but occ kf es i" using t(4) by (simp add: uniq_but_def uniq_def)
  show "chain_but occ kf hf es i"
    unfolding chain_but_def
  proof (intro allI impI)
    fix p q
    assume p: "p < length es" "occ (es ! p)" and q: "q < length es"
      "dist (length es) (hm es (kf (es ! p))) q < dist (length es) (hm es (kf (es ! p))) p"
    have "path occ es (hm es (kf (es ! p))) p" using t(3) p by (simp add: chained_def)
    then show "occ (es ! q)" using path_iff [OF home_less [OF t(2)] p(1)] q by blast
  qed
  show "beyond occ kf hf es i i" using i dist_0 by (auto simp: beyond_def)
  show "filled occ es i i" using i dist_0 by (auto simp: filled_def)
qed (use i in simp_all)

lemma hole_next:
  assumes "hole occ kf hf es i j" and "z < length es" and "\<not> occ (es ! z)"
  shows "(j + 1) mod length es \<noteq> i" "j \<noteq> z"
proof -
  have f: "filled occ es i j" and j: "j < length es" using assms(1) by (simp_all add: hole_def)
  show "(j + 1) mod length es \<noteq> i" using dist_wrap [OF j _ assms(2)] f assms(2,3) unfolding filled_def by blast
  show "j \<noteq> z" using f j assms(3) unfolding filled_def by blast
qed

lemma hole_stay:
  assumes h: "hole occ kf hf es i j" and j': "j' = (j + 1) mod length es" "j' \<noteq> i" "occ (es ! j')"
    and st: "dist (length es) (hm es (kf (es ! j'))) j' < dist (length es) i j'"
  shows "hole occ kf hf es i j'"
proof -
  let ?n = "length es"
  have i: "i < ?n" and j: "j < ?n" and be: "beyond occ kf hf es i j" and fi: "filled occ es i j"
    using h by (simp_all add: hole_def)
  have jn: "j' < ?n" using mod_bound [OF j] j'(1) by simp
  have S: "dist ?n i j' = Suc (dist ?n i j)" using dist_Suc [OF i j] j' by simp
  have "beyond occ kf hf es i j'"
    unfolding beyond_def
  proof (intro allI impI)
    fix p assume p: "p < ?n" "p \<noteq> i" "occ (es ! p)" "dist ?n (hm es (kf (es ! p))) i < dist ?n (hm es (kf (es ! p))) p"
    have a: "hm es (kf (es ! p)) < ?n" using i by (intro home_less) linarith
    have "p \<noteq> j'" using dist_split [OF a i p(1)] p(4) st by auto
    then have "dist ?n i p \<noteq> dist ?n i j'" using dist_inj [OF i p(1) jn] by blast
    moreover have "dist ?n i j < dist ?n i p" by (rule beyondD [OF be p])
    ultimately show "dist ?n i j' < dist ?n i p" using S by linarith
  qed
  moreover have "filled occ es i j'"
    unfolding filled_def
  proof (intro allI impI)
    fix q assume q: "q < ?n" "dist ?n i q \<le> dist ?n i j'"
    show "occ (es ! q)"
    proof (cases "dist ?n i q = dist ?n i j'")
      case True
      then show ?thesis using dist_inj [OF i q(1) jn] j'(3) by simp
    next
      case False
      then show ?thesis using q S by (intro filledD [OF fi]) linarith+
    qed
  qed
  ultimately show ?thesis using h jn by (simp add: hole_def)
qed

lemma hole_end:
  assumes h: "hole occ kf hf es i j" and j': "j' = (j + 1) mod length es" "j' \<noteq> i" "\<not> occ (es ! j')"
    and b: "\<not> occ b"
  shows "chained occ kf hf (es[i := b])" "uniq occ kf (es[i := b])"
proof -
  let ?n = "length es"
  have i: "i < ?n" and j: "j < ?n" and be: "beyond occ kf hf es i j" and ch: "chain_but occ kf hf es i"
    and un: "uniq_but occ kf es i" using h by (simp_all add: hole_def)
  have jn: "j' < ?n" using mod_bound [OF j] j'(1) by simp
  have S: "dist ?n i j' = Suc (dist ?n i j)" using dist_Suc [OF i j] j' by simp
  show "uniq occ kf (es[i := b])"
    unfolding uniq_def
  proof (intro allI impI)
    fix p r assume a: "p < length (es[i := b])" "r < length (es[i := b])" "occ (es[i := b] ! p)"
      "occ (es[i := b] ! r)" "kf (es[i := b] ! p) = kf (es[i := b] ! r)"
    have n: "p \<noteq> i" "r \<noteq> i" using a(3,4) b i by auto
    show "p = r" by (rule uniq_butD [OF un _ _ n]) (use a n in simp_all)
  qed
  show "chained occ kf hf (es[i := b])"
    unfolding chained_def
  proof (intro allI impI)
    fix p assume "p < length (es[i := b])" and "occ (es[i := b] ! p)"
    then have p: "p < ?n" "p \<noteq> i" "occ (es ! p)" using b i by (auto simp: nth_list_update split: if_splits)
    let ?a = "hm es (kf (es ! p))"
    have a: "?a < ?n" using i by (intro home_less) linarith
    have no: "\<not> dist ?n ?a i < dist ?n ?a p"
    proof
      assume on: "dist ?n ?a i < dist ?n ?a p"
      have sp: "dist ?n ?a p = dist ?n ?a i + dist ?n i p" 
        using dist_split [OF a i p(1) less_imp_le [OF on]] .
      have "dist ?n i j < dist ?n i p" by (rule beyondD [OF be p on])
      moreover have "dist ?n i p \<noteq> dist ?n i j'" using dist_inj [OF i p(1) jn] p(3) j'(3) by auto
      ultimately have "dist ?n i j' < dist ?n i p" using S by linarith
      then have "dist ?n ?a j' < dist ?n ?a p" using dist_between [OF a i p(1) jn sp] sp by linarith
      then have "occ (es ! j')" by (rule chain_butD [OF ch p(1) jn p(2) j'(2) p(3)])
      then show False using j'(3) by contradiction
    qed
    have "occ (es[i := b] ! q)" if "q < ?n" "dist ?n ?a q < dist ?n ?a p" for q
    proof -
      have q: "q \<noteq> i" using no that(2) by blast
      have "occ (es ! q)" by (rule chain_butD [OF ch p(1) that(1) p(2) q p(3) that(2)])
      then show ?thesis using q by simp
    qed
    then show "path occ (es[i := b]) (home hf (length (es[i := b])) (kf (es[i := b] ! p))) p"
      using path_iff [of ?a "es[i := b]" p] a p by simp
  qed
qed

lemma hole_move:
  assumes h: "hole occ kf hf es i j" and j': "j' = (j + 1) mod length es" "j' \<noteq> i" "occ (es ! j')"
    and mv: "dist (length es) i j' \<le> dist (length es) (hm es (kf (es ! j'))) j'"
  shows "hole occ kf hf (es[i := es ! j']) j' j'" "others occ (es[i := es ! j']) j' = others occ es i"
proof -
  let ?n = "length es" and ?e = "es ! j'"
  let ?es = "es[i := ?e]"
  have i: "i < ?n" and j: "j < ?n" and ch: "chain_but occ kf hf es i" and un: "uniq_but occ kf es i"
    using h by (simp_all add: hole_def)
  have jn: "j' < ?n" using mod_bound [OF j] j'(1) by simp
  have nth: "?es ! p = (if p = i then ?e else es ! p)" for p using i by (simp add: nth_list_update)
  define g where "g p = (if p = i then j' else p)" for p
  have g: "g p < ?n" "g p \<noteq> i" "es ! g p = ?es ! p" if "p < ?n" for p
    using that jn j'(2) by (simp_all add: g_def nth)
  have g_inj: "p = r" if "p \<noteq> j'" "r \<noteq> j'" "g p = g r" for p r
    using that by (simp add: g_def split: if_splits)
  have "uniq_but occ kf ?es j'"
    unfolding uniq_but_def
  proof (intro allI impI)
    fix p r assume p: "p < length ?es" "p \<noteq> j'" "occ (?es ! p)" and r: "r < length ?es" "r \<noteq> j'" "occ (?es ! r)"
      and e: "kf (?es ! p) = kf (?es ! r)"
    have pn: "p < ?n" and rn: "r < ?n" using p(1) r(1) by simp_all
    have "occ (es ! g p)" "occ (es ! g r)" "kf (es ! g p) = kf (es ! g r)"
      using p(3) r(3) e unfolding g(3) [OF pn] g(3) [OF rn] .
    then have "g p = g r"
      by (rule uniq_butD [OF un g(1) [OF pn] g(1) [OF rn] g(2) [OF pn] g(2) [OF rn]])
    then show "p = r" by (rule g_inj [OF p(2) r(2)])
  qed
  moreover have "chain_but occ kf hf ?es j'"
    unfolding chain_but_def
  proof (intro allI impI)
    fix p q assume a: "p < length ?es" "q < length ?es" "p \<noteq> j'" "q \<noteq> j'" "occ (?es ! p)"
      "dist (length ?es) (home hf (length ?es) (kf (?es ! p))) q < dist (length ?es) (home hf (length ?es) (kf (?es ! p))) p"
    let ?a = "hm es (kf (?es ! p))"
    have d: "dist ?n ?a q < dist ?n ?a p" using a(6) by simp
    have an: "?a < ?n" using i by (intro home_less) linarith
    show "occ (?es ! q)"
    proof (cases "q = i")
      case True
      then show ?thesis using j'(3) by (simp add: nth)
    next
      case q: False
      show ?thesis
      proof (cases "p = i")
        case True
        then have e: "?es ! p = ?e" by (simp add: nth)
        have "dist ?n (hm es (kf ?e)) j' = dist ?n (hm es (kf ?e)) i + dist ?n i j'"
          using dist_split_back [OF an i jn] mv unfolding e by blast
        moreover have "dist ?n (hm es (kf ?e)) q < dist ?n (hm es (kf ?e)) p" using d unfolding e .
        ultimately have "dist ?n (hm es (kf ?e)) q < dist ?n (hm es (kf ?e)) j'" unfolding True by linarith
        then have "occ (es ! q)"
          using a(2) by (intro chain_butD [OF ch jn _ j'(2) q j'(3)]) simp
        then show ?thesis using q by (simp add: nth)
      next
        case False
        then have e: "?es ! p = es ! p" by (simp add: nth)
        have "p < ?n" "q < ?n" using a(1,2) by simp_all
        moreover have "occ (es ! p)" "dist ?n (hm es (kf (es ! p))) q < dist ?n (hm es (kf (es ! p))) p"
          using a(5) d unfolding e .
        ultimately have "occ (es ! q)" by (rule chain_butD [OF ch _ _ False q])
        then show ?thesis using q by (simp add: nth)
      qed
    qed
  qed
  moreover have "beyond occ kf hf ?es j' j'"
    unfolding beyond_def
  proof (intro allI impI)
    fix p assume "p < length ?es" "p \<noteq> j'"
    then have "dist ?n j' p \<noteq> 0" using dist_0 [OF jn] by simp
    then show "dist (length ?es) j' j' < dist (length ?es) j' p" by simp
  qed
  moreover have "filled occ ?es j' j'"
    unfolding filled_def
  proof (intro allI impI)
    fix q assume "q < length ?es" "dist (length ?es) j' q \<le> dist (length ?es) j' j'"
    then have "q = j'" using dist_0 [OF jn] by simp
    then show "occ (?es ! q)" using j'(2,3) by (simp add: nth)
  qed
  ultimately show "hole occ kf hf ?es j' j'" using jn by (simp add: hole_def)
  show "others occ ?es j' = others occ es i"
  proof (intro set_eqI iffI)
    fix x assume "x \<in> others occ ?es j'"
    then obtain p where p: "occ x" "p < ?n" "p \<noteq> j'" "?es ! p = x" by (auto simp: others_def)
    from g [OF p(2)] p(1,4) show "x \<in> others occ es i" unfolding others_def by blast
  next
    fix x assume "x \<in> others occ es i"
    then obtain p where p: "occ x" "p < ?n" "p \<noteq> i" "es ! p = x" by (auto simp: others_def)
    define p' where "p' = (if p = j' then i else p)"
    have "?es ! p' = x" "p' < length ?es" "p' \<noteq> j'" using p i j'(2) unfolding p'_def by (cases "p = j'"; simp)+
    with p(1) show "x \<in> others occ ?es j'" unfolding others_def by blast
  qed
qed

text \<open>The walk ends at the first free slot and leaves a hole that can be blanked.\<close>

definition shifted :: "'e list \<Rightarrow> nat \<Rightarrow> 'e list \<times> u64 \<Rightarrow> bool" where
  "shifted es i r = (case r of (es', i') \<Rightarrow> length es' = length es \<and> unat i' < length es \<and> occ (es' ! unat i') \<and>
     used occ es' = used occ es \<and> others occ es' (unat i') = others occ es i \<and>
     (\<forall>b. \<not> occ b \<longrightarrow> chained occ kf hf (es'[unat i' := b]) \<and> uniq occ kf (es'[unat i' := b])))"

lemma back_shift_ok:
  assumes "hole occ kf hf es (unat i) (unat j)" and p2: "pow2 (length es)" and z: "z < length es" "\<not> occ (es ! z)"
    and "dist (length es) (unat j) z \<le> fuel"
  shows "shifted es (unat i) (back_shift occ kf hf (msk es) es i j fuel)"
  using assms
proof (induction fuel arbitrary: es i j)
  case 0
  have "unat j < length es" using 0(1) by (simp add: hole_def)
  then have "unat j = z" using 0(3,5) dist_0 by blast
  then show ?case using hole_next(2) [OF 0(1,3,4)] by contradiction
next
  case (Suc fuel)
  note h = Suc.prems(1) and p2 = Suc.prems(2) and z = Suc.prems(3,4)
  let ?n = "length es" and ?j = "(j + 1) AND msk es"
  let ?e = "es ! unat ?j"
  have i: "unat i < ?n" and j: "unat j < ?n" and fi: "filled occ es (unat i) (unat j)"
    using h by (simp_all add: hole_def)
  have oi: "occ (es ! unat i)" by (rule filledD [OF fi i]) simp
  have uj: "unat ?j = (unat j + 1) mod ?n" by (rule unat_step_msk [OF p2])
  have jn: "unat ?j < ?n" using mod_bound [OF j] uj by simp
  have ji: "unat ?j \<noteq> unat i" using hole_next(1) [OF h z] uj by simp
  have jz: "unat j \<noteq> z" by (rule hole_next(2) [OF h z])
  have dz: "dist ?n (unat ?j) z \<le> fuel" using dist_step [OF j z(1) jz] Suc.prems(5) uj by simp
  have far: "unat ((?j - (hf (kf ?e) AND msk es)) AND msk es) = dist ?n (hm es (kf ?e)) (unat ?j)"
    using unat_sub_msk [OF p2 jn, of "hf (kf ?e) AND msk es"] unat_home [OF p2] home_less [OF pow2_pos [OF p2]] by simp
  have gap: "unat ((?j - i) AND msk es) = dist ?n (unat i) (unat ?j)" by (rule unat_sub_msk [OF p2 jn i])
  show ?case
  proof (cases "occ ?e")
    case False
    then show ?thesis using i oi hole_end [OF h uj ji False] by (simp add: shifted_def Let_def)
  next
    case o: True
    show ?thesis
    proof (cases "((?j - (hf (kf ?e) AND msk es)) AND msk es) < ((?j - i) AND msk es)")
      case True
      then have "hole occ kf hf es (unat i) (unat ?j)"
        by (intro hole_stay [OF h uj ji o]) (simp add: word_less_nat_alt far gap)
      with Suc.IH [OF _ p2 z dz] o True show ?thesis by (simp add: Let_def)
    next
      case False
      then have le: "dist ?n (unat i) (unat ?j) \<le> dist ?n (hm es (kf ?e)) (unat ?j)"
        by (simp add: word_less_nat_alt far gap)
      note mv = hole_move [OF h uj ji o le]
      let ?es = "es[unat i := ?e]"
      have "z \<noteq> unat i" using oi z(2) by auto
      then have "shifted ?es (unat ?j) (back_shift occ kf hf (msk ?es) ?es ?j ?j fuel)"
        using mv(1) p2 z dz by (intro Suc.IH) simp_all
      moreover have "used occ ?es = used occ es" using used_update [OF i, of occ ?e] oi o by simp
      ultimately show ?thesis using o False mv(2) by (simp add: Let_def shifted_def)
    qed
  qed
qed

lemma delete_ok:
  assumes ok: "ok es" and p: "unat i < length es" "occ (es ! unat i)" and b: "\<not> occ b"
    and r: "back_shift occ kf hf (msk es) es i i (length es) = (es', i')"
  shows "ok (es'[unat i' := b])" "length es' = length es" "unat i' < length es"
    "Suc (used occ (es'[unat i' := b])) = used occ es"
    "contents occ (es'[unat i' := b]) = contents occ es - {es ! unat i}"
proof -
  note t = tableD [OF ok]
  obtain z where z: "z < length es" "\<not> occ (es ! z)" using used_less_ex [OF t(5)] by blast
  have s: "shifted es (unat i) (es', i')"
    using back_shift_ok [OF hole_start [OF ok p] t(1) z, of "length es"] dist_less [OF p(1) z(1)] r by simp
  then show l: "length es' = length es" and i': "unat i' < length es" by (simp_all add: shifted_def)
  show u: "Suc (used occ (es'[unat i' := b])) = used occ es"
    using used_update [of "unat i'" es' occ b] s b by (simp add: shifted_def)
  then show "ok (es'[unat i' := b])" using s t b by (simp add: shifted_def table_ok_def)
  have "contents occ (es'[unat i' := b]) = others occ es (unat i)"
    using contents_update [of "unat i'" es' occ b] s b by (simp add: shifted_def)
  also have "\<dots> = contents occ es - {es ! unat i}"
    using contents_others [OF p(1), of occ] uniq_others [OF t(4) p] p(2) by auto
  finally show "contents occ (es'[unat i' := b]) = contents occ es - {es ! unat i}" .
qed

text \<open>The same facts read through the map of keys to entries.\<close>

lemma lookup_Some:
  assumes ok: "ok es" and e: "entry_at occ kf es k = Some e"
  shows "\<exists>r. probe occ kf es (msk es) k (hf k AND msk es) (length es) = Some r \<and> unat r < length es \<and>
    es ! unat r = e \<and> occ e \<and> kf e = k"
proof -
  obtain p where p: "p < length es" "es ! p = e" "occ e" "kf e = k"
    using e entry_at_Some [OF tableD(4) [OF ok]] by (auto simp: contents_nth)
  then show ?thesis using probe_present [OF ok p(1), of k] by auto
qed

lemma lookup_None:
  assumes "ok es" and "entry_at occ kf es k = None"
  shows "\<exists>r. probe occ kf es (msk es) k (hf k AND msk es) (length es) = Some r \<and> unat r < length es \<and>
    \<not> occ (es ! unat r) \<and> path occ es (hm es k) (unat r)"
  using probe_absent [OF assms(1)] assms(2) by (simp add: entry_at_None)

lemma insert_map:
  assumes ok: "ok es" and q: "q < length es" "\<not> occ (es ! q)" and e: "occ e" "entry_at occ kf es (kf e) = None"
    and pa: "path occ es (hm es (kf e)) q" and room: "Suc (used occ es) < length es"
  shows "ok (es[q := e])" "entry_at occ kf (es[q := e]) = (entry_at occ kf es)(kf e \<mapsto> e)"
    "used occ (es[q := e]) = Suc (used occ es)"
proof -
  note t = tableD [OF ok]
  note i = insert_ok [OF ok q e(1) _ pa, OF e(2) [unfolded entry_at_None]]
  show "ok (es[q := e])" using i t room by (simp add: table_ok_def)
  show "entry_at occ kf (es[q := e]) = (entry_at occ kf es)(kf e \<mapsto> e)"
    by (rule entry_at_insert [OF t(4) i(2)]) (auto simp: i(4))
  show "used occ (es[q := e]) = Suc (used occ es)" by (rule i(3))
qed

lemma replace_map:
  assumes ok: "ok es" and q: "q < length es" "occ (es ! q)" and e: "occ e" "kf e = kf (es ! q)"
  shows "entry_at occ kf (es[q := e]) = (entry_at occ kf es)(kf e \<mapsto> e)"
proof -
  note i = replace_ok [OF ok q e]
  show ?thesis
    by (rule entry_at_insert [OF tableD(4) [OF ok] tableD(4) [OF i(1)]]) (use e(2) in \<open>auto simp: i(3)\<close>)
qed

lemma rehash_map:
  assumes ok: "ok old" and n: "pow2 n" "length old < n" and b: "\<not> occ b"
  shows "\<exists>r. rehash occ kf hf (msk_of n) old (replicate n b) = Some r \<and> length r = n \<and> ok r \<and>
    entry_at occ kf r = entry_at occ kf old \<and> used occ r = used occ old"
proof -
  note t = tableD [OF ok]
  have fr: "ok (replicate n b)" "used occ (replicate n b) = 0" "contents occ (replicate n b) = {}"
    using n b by (simp_all add: table_ok_def chained_def uniq_def used_def contents_def)
  have ab: "absent (replicate n b) (kf e)" if "e \<in> contents occ old" for e using fr(3) by simp
  have "used occ old + used occ (replicate n b) < length (replicate n b)" using fr(2) t(5) n(2) by simp
  from rehash_ok [OF fr(1) t(4) ab this] obtain r where
    r: "rehash occ kf hf (msk_of n) old (replicate n b) = Some r" "length r = n" "ok r"
      "contents occ r = contents occ old" "used occ r = used occ old"
    using fr(2,3) by auto
  moreover have "entry_at occ kf r = entry_at occ kf old"
    using entry_at_cong [OF t(4) tableD(4) [OF r(3)] r(4)] by (simp add: fun_eq_iff)
  ultimately show ?thesis by blast
qed

lemma delete_map:
  assumes ok: "ok es" and p: "unat i < length es" "occ (es ! unat i)" and b: "\<not> occ b"
    and r: "back_shift occ kf hf (msk es) es i i (length es) = (es', i')"
  shows "entry_at occ kf (es'[unat i' := b]) = (entry_at occ kf es)(kf (es ! unat i) := None)"
proof -
  note t = tableD [OF ok] and d = delete_ok [OF ok p b r]
  have un: "kf x \<noteq> kf (es ! unat i)" if "x \<in> contents occ es" "x \<noteq> es ! unat i" for x
    using uniq_others [OF t(4) p] contents_others [OF p(1), of occ] p(2) that by auto
  show ?thesis
    by (rule entry_at_remove [OF t(4) tableD(4) [OF d(1)]]) (use d(5) un in auto)
qed

end

section \<open>Fresh arrays\<close>

lemma fill_double_replicate:
  assumes "0 < i" and "i \<le> length es" and "take i es = replicate i x"
  shows "fill_double i es = replicate (length es) x"
  using assms
proof (induction "length es - i" arbitrary: i es rule: less_induct)
  case less
  show ?case
  proof (cases "i < length es")
    case False
    then show ?thesis using less.prems by (subst fill_double.simps) simp
  next
    case True
    have c: "copy_up i es = replicate (min (2 * i) (length es)) x @ drop (2 * i) es"
      using less.prems True by (auto simp: copy_up_def replicate_add [symmetric] min_def)
    show ?thesis
    proof (cases "2 * i \<le> length es")
      case le: True
      have "fill_double (2 * i) (copy_up i es) = replicate (length (copy_up i es)) x"
        by (rule less.hyps) (use True less.prems le c in \<open>simp_all add: min_def\<close>)
      then show ?thesis using True less.prems by (subst fill_double.simps) simp
    next
      case False
      then have "copy_up i es = replicate (length es) x" using c by (simp add: min_def)
      then have "fill_double (2 * i) (copy_up i es) = replicate (length es) x"
        using False by (subst fill_double.simps) simp
      then show ?thesis using True less.prems by (subst fill_double.simps) simp
    qed
  qed
qed

lemma fresh_ok:
  assumes "pow2 n" and "\<not> occ b"
  shows "table_ok occ kf hf (replicate n b)" "used occ (replicate n b) = 0" "contents occ (replicate n b) = {}"
  using assms pow2_pos [OF assms(1)]
  by (auto simp: table_ok_def chained_def uniq_def used_def contents_def)

end
