(* ===== verification/Int_Hash.thy ===== *)
theory Int_Hash
  imports Probe_Table
begin

text \<open>
  The integer hash index (\<^verbatim>\<open>internal/engine/exec/int_hash.go\<close>): the open-addressing map from int64
  keys to int32 values behind integer joins and integer GROUP BY. The table is its entry array, mask and size.
  Slice lengths and sizes are natural numbers. Off-heap backing is the flag \<open>entriesOffheap\<close> together with
  \<open>regMaps\<close>, the number of reservations the table's registry holds for it; the argument \<open>fits\<close> says
  whether \<^verbatim>\<open>memory.OffheapSized\<close> hands out a (zeroed) array of a given length, which is the kernel's
  decision. A result \<open>None\<close> is a probe loop that never ends.
\<close>

record ih_entry =
  ekey :: i64
  eval :: i32

record int_hash =
  entries :: "ih_entry list"
  tmask :: u64
  tsize :: nat
  hasReg :: bool
  regMaps :: nat
  entriesOffheap :: bool

definition intHashEmpty :: i64 where "intHashEmpty = - 0x7FFFFFFFFFFFFFFF"

definition ih_occ :: "ih_entry \<Rightarrow> bool" where "ih_occ e = (ekey e \<noteq> intHashEmpty)"

definition zero_entry :: ih_entry where "zero_entry = \<lparr>ekey = 0, eval = 0\<rparr>"

definition allocEntries :: "(nat \<Rightarrow> bool) \<Rightarrow> nat \<Rightarrow> int_hash \<Rightarrow> ih_entry list \<times> int_hash" where
  "allocEntries fits n h =
     (if hasReg h \<and> fits n
      then (replicate n zero_entry, h\<lparr>entriesOffheap := True, regMaps := regMaps h + 1\<rparr>)
      else (replicate n zero_entry, h\<lparr>entriesOffheap := False\<rparr>))"

definition fillEmptyEntries :: "ih_entry list \<Rightarrow> ih_entry list" where
  "fillEmptyEntries es =
     (if es = [] then es else fill_double 1 (es[0 := (es ! 0)\<lparr>ekey := intHashEmpty\<rparr>]))"

definition fibHash :: "i64 \<Rightarrow> u64" where
  "fibHash key =
     (let k = key;
          k = k XOR drop_bit 43 k;
          k = k XOR drop_bit 29 k;
          k = k XOR drop_bit 17 k;
          k = k XOR drop_bit 7 k
      in k * 11400714819323198485)"

function round_cap :: "nat \<Rightarrow> nat \<Rightarrow> nat" where
  "round_cap c t = (if 0 < c \<and> c < t then round_cap (2 * c) t else c)"
  by pat_completeness auto
termination by (relation "measure (\<lambda>(c, t). t - c)") auto

declare round_cap.simps [simp del]

definition newIntHashTableReg :: "(nat \<Rightarrow> bool) \<Rightarrow> nat \<Rightarrow> bool \<Rightarrow> int_hash" where
  "newIntHashTableReg fits n rg =
     (let c = round_cap 16 (n + n div 3);
          h = \<lparr>entries = [], tmask = 0, tsize = 0, hasReg = rg, regMaps = 0, entriesOffheap = False\<rparr>;
          (es, h) = allocEntries fits c h
      in h\<lparr>entries := fillEmptyEntries es, tmask := msk_of c\<rparr>)"

definition newIntHashTable :: "nat \<Rightarrow> int_hash" where
  "newIntHashTable n = newIntHashTableReg (\<lambda>_. False) n False"

definition grow :: "(nat \<Rightarrow> bool) \<Rightarrow> int_hash \<Rightarrow> int_hash option" where
  "grow fits h =
     (let newCap = length (entries h) * 2;
          oldOffheap = entriesOffheap h;
          old = entries h;
          (es, h) = allocEntries fits newCap h;
          newMask = msk_of newCap
      in case rehash ih_occ ekey fibHash newMask old (fillEmptyEntries es) of
           None \<Rightarrow> None
         | Some new \<Rightarrow>
             Some (h\<lparr>regMaps := (if oldOffheap then regMaps h - 1 else regMaps h),
                     entries := new, tmask := newMask\<rparr>))"

definition over_load :: "int_hash \<Rightarrow> bool" where
  "over_load h = (tsize h * 10 > length (entries h) * 7)"

text \<open>The probe loop from a slot hash, and the three things the callers do at its end.\<close>

definition find_slot :: "int_hash \<Rightarrow> i64 \<Rightarrow> u64 \<Rightarrow> u64 option" where
  "find_slot h key hash =
     probe ih_occ ekey (entries h) (tmask h) key (hash AND tmask h) (length (entries h))"

definition occupy :: "int_hash \<Rightarrow> u64 \<Rightarrow> i64 \<Rightarrow> i32 \<Rightarrow> int_hash" where
  "occupy h idx key v =
     h\<lparr>entries := (entries h)[unat idx := (entries h ! unat idx)\<lparr>ekey := key, eval := v\<rparr>],
       tsize := tsize h + 1\<rparr>"

definition set_val :: "int_hash \<Rightarrow> u64 \<Rightarrow> i32 \<Rightarrow> int_hash" where
  "set_val h idx v =
     h\<lparr>entries := (entries h)[unat idx := (entries h ! unat idx)\<lparr>eval := v\<rparr>]\<rparr>"

definition CheckGrow :: "(nat \<Rightarrow> bool) \<Rightarrow> int_hash \<Rightarrow> int_hash option" where
  "CheckGrow fits h = (if over_load h then grow fits h else Some h)"

definition Put :: "(nat \<Rightarrow> bool) \<Rightarrow> i64 \<Rightarrow> i32 \<Rightarrow> int_hash \<Rightarrow> ((i32 \<times> bool) \<times> int_hash) option" where
  "Put fits key v h =
     (case find_slot h key (fibHash key) of
        None \<Rightarrow> None
      | Some idx \<Rightarrow>
          let e = entries h ! unat idx in
          if ekey e = intHashEmpty
          then map_option (\<lambda>h. ((0, False), h)) (CheckGrow fits (occupy h idx key v))
          else Some ((eval e, True), set_val h idx v))"

definition Get :: "i64 \<Rightarrow> int_hash \<Rightarrow> (i32 \<times> bool) option" where
  "Get key h =
     (case find_slot h key (fibHash key) of
        None \<Rightarrow> None
      | Some idx \<Rightarrow>
          let e = entries h ! unat idx in
          if ekey e = intHashEmpty then Some (0, False) else Some (eval e, True))"

definition GetOrInsertNoGrowAt :: "i64 \<Rightarrow> u64 \<Rightarrow> i32 \<Rightarrow> int_hash \<Rightarrow> ((i32 \<times> bool) \<times> int_hash) option" where
  "GetOrInsertNoGrowAt key hash v h =
     (case find_slot h key hash of
        None \<Rightarrow> None
      | Some idx \<Rightarrow>
          let e = entries h ! unat idx in
          if ekey e = intHashEmpty then Some ((v, False), occupy h idx key v)
          else Some ((eval e, True), h))"

definition GetOrInsertNoGrow :: "i64 \<Rightarrow> i32 \<Rightarrow> int_hash \<Rightarrow> ((i32 \<times> bool) \<times> int_hash) option" where
  "GetOrInsertNoGrow key v h = GetOrInsertNoGrowAt key (fibHash key) v h"

definition GetOrInsert :: "(nat \<Rightarrow> bool) \<Rightarrow> i64 \<Rightarrow> i32 \<Rightarrow> int_hash \<Rightarrow> ((i32 \<times> bool) \<times> int_hash) option" where
  "GetOrInsert fits key v h =
     (case find_slot h key (fibHash key) of
        None \<Rightarrow> None
      | Some idx \<Rightarrow>
          let e = entries h ! unat idx in
          if ekey e = intHashEmpty
          then map_option (\<lambda>h. ((v, False), h)) (CheckGrow fits (occupy h idx key v))
          else Some ((eval e, True), h))"

definition PutNoGrow :: "i64 \<Rightarrow> i32 \<Rightarrow> int_hash \<Rightarrow> ((i32 \<times> bool) \<times> int_hash) option" where
  "PutNoGrow key v h =
     (case find_slot h key (fibHash key) of
        None \<Rightarrow> None
      | Some idx \<Rightarrow>
          let e = entries h ! unat idx in
          if ekey e = intHashEmpty then Some ((0, False), occupy h idx key v)
          else Some ((eval e, True), set_val h idx v))"

partial_function (option) EnsureCapacity :: "(nat \<Rightarrow> bool) \<Rightarrow> nat \<Rightarrow> int_hash \<Rightarrow> int_hash option" where
  "EnsureCapacity fits additional h =
     (if (tsize h + additional) * 10 > length (entries h) * 7
      then Option.bind (grow fits h) (EnsureCapacity fits additional)
      else Some h)"

definition Len :: "int_hash \<Rightarrow> nat" where "Len h = tsize h"
definition Slots :: "int_hash \<Rightarrow> nat" where "Slots h = length (entries h)"
definition MemoryUsage :: "int_hash \<Rightarrow> nat" where "MemoryUsage h = length (entries h) * 16"

text \<open>The pairs \<^verbatim>\<open>ForEach\<close> hands to its callback, in order.\<close>

definition ForEach :: "int_hash \<Rightarrow> (i64 \<times> i32) list" where
  "ForEach h = map (\<lambda>e. (ekey e, eval e)) (filter (\<lambda>e. ekey e \<noteq> intHashEmpty) (entries h))"

definition Delete :: "i64 \<Rightarrow> int_hash \<Rightarrow> (i32 \<times> bool) \<times> int_hash" where
  "Delete key h =
     (let n = length (entries h) in
      if n = 0 then ((0, False), h)
      else case find_bounded ih_occ ekey (entries h) (tmask h) key (fibHash key AND tmask h) n of
             None \<Rightarrow> ((0, False), h)
           | Some idx \<Rightarrow>
               let deleted = eval (entries h ! unat idx);
                   (es, i) = back_shift ih_occ ekey fibHash (tmask h) (entries h) idx idx n
               in ((deleted, True),
                   h\<lparr>entries := es[unat i := (es ! unat i)\<lparr>ekey := intHashEmpty\<rparr>],
                     tsize := tsize h - 1\<rparr>))"

definition freeEntries :: "int_hash \<Rightarrow> int_hash" where
  "freeEntries h =
     h\<lparr>regMaps := (if entriesOffheap h \<and> entries h \<noteq> [] then regMaps h - 1 else regMaps h),
       entries := [], entriesOffheap := False, tmask := 0, tsize := 0\<rparr>"

section \<open>Invariant and abstraction\<close>

interpretation ih: probing ih_occ ekey fibHash .

definition ih_ok :: "int_hash \<Rightarrow> bool" where
  "ih_ok h = (table_ok ih_occ ekey fibHash (entries h) \<and> tmask h = msk_of (length (entries h)) \<and>
     tsize h = used ih_occ (entries h) \<and>
     regMaps h = (if entriesOffheap h then 1 else 0) \<and> (entriesOffheap h \<longrightarrow> hasReg h))"

definition ih_map :: "int_hash \<Rightarrow> i64 \<Rightarrow> i32 option" where
  "ih_map h k = map_option eval (entry_at ih_occ ekey (entries h) k)"

lemma ih_okD:
  assumes "ih_ok h"
  shows "table_ok ih_occ ekey fibHash (entries h)" "tmask h = msk_of (length (entries h))"
    "tsize h = used ih_occ (entries h)" "tsize h < length (entries h)" "0 < length (entries h)"
  using assms tableD [of ih_occ ekey fibHash "entries h"] by (simp_all add: ih_ok_def)

lemma ih_map_Some:
  "ih_ok h \<Longrightarrow> ih_map h k = Some v \<longleftrightarrow> (\<exists>e \<in> contents ih_occ (entries h). ekey e = k \<and> eval e = v)"
  using entry_at_Some [OF tableD(4) [OF ih_okD(1)], of h k] by (auto simp: ih_map_def)

lemma ih_map_None: "ih_map h k = None \<longleftrightarrow> (\<forall>e \<in> contents ih_occ (entries h). ekey e \<noteq> k)"
  by (simp add: ih_map_def entry_at_None)

lemma ih_map_sentinel [simp]: "ih_map h intHashEmpty = None"
  by (auto simp: ih_map_None contents_def ih_occ_def)

text \<open>Two tables with the contents related by an update stand for maps related by it.\<close>

lemma ih_map_insert:
  assumes "ih_ok h" and "ih_ok h'" and "e \<in> contents ih_occ (entries h')"
    and "\<And>x. ekey x \<noteq> ekey e \<Longrightarrow> x \<in> contents ih_occ (entries h') \<longleftrightarrow> x \<in> contents ih_occ (entries h)"
  shows "ih_map h' = (ih_map h)(ekey e \<mapsto> eval e)"
proof
  fix k
  have iff: "ih_map h' k = Some v \<longleftrightarrow> ((ih_map h)(ekey e \<mapsto> eval e)) k = Some v" for v
  proof (cases "k = ekey e")
    case True
    have "ih_map h' (ekey e) = Some (eval e)" using ih_map_Some [OF assms(2)] assms(3) by blast
    then show ?thesis by (simp add: True)
  next
    case False
    then show ?thesis using ih_map_Some [OF assms(1)] ih_map_Some [OF assms(2)] assms(4) by auto
  qed
  then show "ih_map h' k = ((ih_map h)(ekey e \<mapsto> eval e)) k" by (metis option.exhaust)
qed

lemma ih_map_cong:
  assumes "ih_ok h" and "ih_ok h'" and "contents ih_occ (entries h') = contents ih_occ (entries h)"
  shows "ih_map h' = ih_map h"
  using entry_at_cong [OF tableD(4) [OF ih_okD(1) [OF assms(1)]] tableD(4) [OF ih_okD(1) [OF assms(2)]] assms(3)]
  by (simp add: fun_eq_iff ih_map_def)

section \<open>Fresh tables and doubling\<close>

lemma fillEmpty_replicate:
  "0 < n \<Longrightarrow> fillEmptyEntries (replicate n e) = replicate n (e\<lparr>ekey := intHashEmpty\<rparr>)"
  unfolding fillEmptyEntries_def by (cases n) (auto simp: fill_double_replicate)

lemma blank_fresh:
  assumes "pow2 n"
  defines "b \<equiv> zero_entry\<lparr>ekey := intHashEmpty\<rparr>"
  shows "table_ok ih_occ ekey fibHash (replicate n b)" "used ih_occ (replicate n b) = 0"
    "contents ih_occ (replicate n b) = {}"
proof -
  have no: "\<not> ih_occ b" by (simp add: ih_occ_def b_def)
  show "table_ok ih_occ ekey fibHash (replicate n b)" by (rule fresh_ok(1) [where occ = ih_occ, OF assms(1) no])
  show "used ih_occ (replicate n b) = 0" by (rule fresh_ok(2) [where occ = ih_occ, OF assms(1) no])
  show "contents ih_occ (replicate n b) = {}" by (rule fresh_ok(3) [where occ = ih_occ, OF assms(1) no])
qed

lemma allocEntries_fst [simp]: "fst (allocEntries fits n h) = replicate n zero_entry"
  by (simp add: allocEntries_def)

lemma round_cap_pow2:
  assumes "t \<le> 2 ^ B" and "c = 2 ^ b" and "b \<le> B"
  shows "\<exists>b' \<le> B. round_cap c t = 2 ^ b' \<and> c \<le> round_cap c t \<and> t \<le> round_cap c t"
  using assms
proof (induction c t arbitrary: b rule: round_cap.induct)
  case (1 c t)
  show ?case
  proof (cases "c < t")
    case True
    have "(2::nat) ^ b < 2 ^ B" using True 1(2,3) by linarith
    then have "b < B" by (rule power_less_imp_less_exp [rotated]) simp
    with 1(1) [of "Suc b"] True 1(2-) obtain b' where
      "b' \<le> B" "round_cap (2 * c) t = 2 ^ b'" "2 * c \<le> round_cap (2 * c) t" "t \<le> round_cap (2 * c) t" by auto
    moreover have "round_cap c t = round_cap (2 * c) t" using True 1(3) by (subst round_cap.simps) simp
    ultimately show ?thesis by (intro exI [of _ b']) simp
  next
    case False
    then show ?thesis using 1(3,4) by (subst (1 2 3) round_cap.simps) auto
  qed
qed

lemma newIntHashTable_ok:
  assumes "n \<le> 2 ^ 59"
  shows "ih_ok (newIntHashTableReg fits n rg)" "ih_map (newIntHashTableReg fits n rg) = Map.empty"
    "tsize (newIntHashTableReg fits n rg) = 0" "16 \<le> length (entries (newIntHashTableReg fits n rg))"
    "n + n div 3 \<le> length (entries (newIntHashTableReg fits n rg))"
    "length (entries (newIntHashTableReg fits n rg)) \<le> 2 ^ 60"
proof -
  let ?h = "newIntHashTableReg fits n rg" and ?c = "round_cap 16 (n + n div 3)"
  let ?b = "zero_entry\<lparr>ekey := intHashEmpty\<rparr>"
  have "n div 3 \<le> n" by simp
  with assms have le: "n + n div 3 \<le> 2 ^ 60" by simp
  obtain b where b: "b \<le> 60" "?c = 2 ^ b" "16 \<le> ?c" "n + n div 3 \<le> ?c"
    using round_cap_pow2 [OF le, of 16 4] by auto
  have e: "entries ?h = replicate ?c ?b"
    using b(3) by (simp add: newIntHashTableReg_def allocEntries_def fillEmpty_replicate Let_def)
  have f: "tmask ?h = msk_of ?c" "tsize ?h = 0" "regMaps ?h = (if entriesOffheap ?h then 1 else 0)"
    "entriesOffheap ?h \<longrightarrow> hasReg ?h"
    by (simp_all add: newIntHashTableReg_def allocEntries_def Let_def)
  have p2: "pow2 ?c" unfolding pow2_def using b(1,2) by (intro exI [of _ b]) simp
  note fr = blank_fresh [OF p2]
  show "ih_ok ?h" unfolding ih_ok_def e using fr f by simp
  have "ih_map ?h k = None" for k unfolding ih_map_None e fr(3) by simp
  then show "ih_map ?h = Map.empty" by (simp add: fun_eq_iff)
  show "tsize ?h = 0" by (rule f(2))
  show "16 \<le> length (entries ?h)" "n + n div 3 \<le> length (entries ?h)"
    unfolding e using b(3,4) by (simp_all only: length_replicate)
  have "(2 :: nat) ^ b \<le> 2 ^ 60" using b(1) by (rule power_increasing) simp
  then show "length (entries ?h) \<le> 2 ^ 60" unfolding e length_replicate b(2) .
qed

lemma pow2_double: "pow2 n \<Longrightarrow> n \<le> 2 ^ 62 \<Longrightarrow> pow2 (n * 2)"
proof -
  assume "pow2 n" and le: "n \<le> 2 ^ 62"
  then obtain b where b: "n = 2 ^ b" by (auto simp: pow2_def)
  have "b \<le> 62" using le unfolding b by (rule power_le_imp_le_exp [rotated]) simp
  then show "pow2 (n * 2)" unfolding pow2_def b by (intro exI [of _ "Suc b"]) simp
qed

lemma grow_ok:
  assumes ok: "ih_ok h" and le: "length (entries h) \<le> 2 ^ 62"
  shows "\<exists>h'. grow fits h = Some h' \<and> ih_ok h' \<and> ih_map h' = ih_map h \<and> tsize h' = tsize h \<and>
    length (entries h') = 2 * length (entries h) \<and> hasReg h' = hasReg h"
proof -
  let ?n = "length (entries h)" and ?b = "zero_entry\<lparr>ekey := intHashEmpty\<rparr>"
  note t = ih_okD [OF ok]
  have p2: "pow2 (?n * 2)" by (rule pow2_double [OF tableD(1) [OF t(1)] le])
  note fr = blank_fresh [OF p2]
  obtain r where r: "rehash ih_occ ekey fibHash (msk_of (?n * 2)) (entries h) (replicate (?n * 2) ?b) = Some r"
    "length r = ?n * 2" "table_ok ih_occ ekey fibHash r" "contents ih_occ r = contents ih_occ (entries h)"
    "used ih_occ r = used ih_occ (entries h)"
    using ih.rehash_ok [OF fr(1) tableD(4) [OF t(1)]] fr t(3,4) by auto
  let ?a = "snd (allocEntries fits (?n * 2) h)"
  let ?h = "?a\<lparr>regMaps := (if entriesOffheap h then regMaps ?a - 1 else regMaps ?a), entries := r,
    tmask := msk_of (?n * 2)\<rparr>"
  have g: "grow fits h = Some ?h"
    using r(1) t(5) by (simp add: grow_def Let_def split_beta fillEmpty_replicate)
  have f: "tsize ?h = tsize h" "hasReg ?h = hasReg h" "regMaps ?h = (if entriesOffheap ?h then 1 else 0)"
    "entriesOffheap ?h \<longrightarrow> hasReg ?h"
    using ok by (auto simp: allocEntries_def ih_ok_def)
  have ok': "ih_ok ?h" unfolding ih_ok_def using r f t(3) by simp
  with ih_map_cong [OF ok ok'] r g f show ?thesis by simp
qed

section \<open>Probing, occupying, replacing\<close>

lemma find_slot_present:
  assumes ok: "ih_ok h" and m: "ih_map h key = Some v"
  shows "\<exists>idx. find_slot h key (fibHash key) = Some idx \<and> unat idx < length (entries h) \<and>
    ih_occ (entries h ! unat idx) \<and> ekey (entries h ! unat idx) = key \<and> eval (entries h ! unat idx) = v"
proof -
  note t = ih_okD [OF ok]
  obtain p where p: "p < length (entries h)" "ih_occ (entries h ! p)" "ekey (entries h ! p) = key"
    "eval (entries h ! p) = v"
    using m ih_map_Some [OF ok] by (auto simp: contents_nth)
  with ih.probe_present [OF t(1) p(1-3)] show ?thesis by (auto simp: find_slot_def t(2))
qed

lemma find_slot_absent:
  assumes ok: "ih_ok h" and m: "ih_map h key = None"
  shows "\<exists>idx. find_slot h key (fibHash key) = Some idx \<and> unat idx < length (entries h) \<and>
    \<not> ih_occ (entries h ! unat idx) \<and> path ih_occ (entries h) (home fibHash (length (entries h)) key) (unat idx)"
  using ih.probe_absent [OF ih_okD(1) [OF ok], of key] m ih_okD(2) [OF ok]
  by (auto simp: find_slot_def ih_map_None)

lemma occupy_ok:
  assumes ok: "ih_ok h" and m: "ih_map h key = None" and k: "key \<noteq> intHashEmpty"
    and idx: "unat idx < length (entries h)" "\<not> ih_occ (entries h ! unat idx)"
      "path ih_occ (entries h) (home fibHash (length (entries h)) key) (unat idx)"
    and room: "Suc (tsize h) < length (entries h)"
  shows "ih_ok (occupy h idx key v)" "ih_map (occupy h idx key v) = (ih_map h)(key \<mapsto> v)"
proof -
  note t = ih_okD [OF ok]
  let ?e = "(entries h ! unat idx)\<lparr>ekey := key, eval := v\<rparr>" and ?h = "occupy h idx key v"
  have o: "ih_occ ?e" using k by (simp add: ih_occ_def)
  have ab: "\<forall>x \<in> contents ih_occ (entries h). ekey x \<noteq> ekey ?e" using m by (simp add: ih_map_None)
  have pa: "path ih_occ (entries h) (home fibHash (length (entries h)) (ekey ?e)) (unat idx)" using idx(3) by simp
  note i = ih.insert_ok [OF t(1) idx(1,2) o ab pa]
  show ok': "ih_ok ?h"
    using i ok room tableD(1) [OF t(1)] unfolding ih_ok_def table_ok_def by (simp add: occupy_def)
  have "ih_map ?h = (ih_map h)(ekey ?e \<mapsto> eval ?e)"
    by (rule ih_map_insert [OF ok ok']) (auto simp: occupy_def i(4))
  then show "ih_map ?h = (ih_map h)(key \<mapsto> v)" by simp
qed

lemma set_val_ok:
  assumes ok: "ih_ok h" and idx: "unat idx < length (entries h)" "ih_occ (entries h ! unat idx)"
    and k: "ekey (entries h ! unat idx) = key"
  shows "ih_ok (set_val h idx v)" "ih_map (set_val h idx v) = (ih_map h)(key \<mapsto> v)"
proof -
  note t = ih_okD [OF ok]
  let ?e = "(entries h ! unat idx)\<lparr>eval := v\<rparr>" and ?h = "set_val h idx v"
  have o: "ih_occ ?e" using idx(2) by (simp add: ih_occ_def)
  note i = ih.replace_ok [OF t(1) idx o]
  show ok': "ih_ok ?h" using i ok unfolding ih_ok_def by (simp add: set_val_def)
  have "ih_map ?h = (ih_map h)(ekey ?e \<mapsto> eval ?e)"
    by (rule ih_map_insert [OF ok ok']) (auto simp: set_val_def i(3))
  then show "ih_map ?h = (ih_map h)(key \<mapsto> v)" using k by simp
qed

section \<open>The operations against the map\<close>

text \<open>The load rule keeps a free slot; \<open>fit B m h\<close> says that \<open>m\<close> more keys can come while the table
  stays within \<open>2 ^ B\<close> slots.\<close>

definition loaded :: "int_hash \<Rightarrow> bool" where
  "loaded h = (ih_ok h \<and> 16 \<le> length (entries h) \<and> \<not> over_load h)"

definition fit :: "nat \<Rightarrow> nat \<Rightarrow> int_hash \<Rightarrow> bool" where
  "fit B m h = (loaded h \<and> B \<le> 60 \<and> length (entries h) \<le> 2 ^ B \<and> 3 * (tsize h + m) \<le> 2 ^ B)"

lemma Get_ok:
  assumes "ih_ok h"
  shows "Get key h = Some (case ih_map h key of None \<Rightarrow> (0, False) | Some v \<Rightarrow> (v, True))"
proof (cases "ih_map h key")
  case None
  with find_slot_absent [OF assms None] show ?thesis by (auto simp: Get_def ih_occ_def Let_def)
next
  case (Some v)
  with find_slot_present [OF assms Some] show ?thesis by (auto simp: Get_def ih_occ_def Let_def)
qed

lemma CheckGrow_ok:
  assumes ok: "ih_ok h" and le: "length (entries h) \<le> 2 ^ B" "3 * (tsize h + m) \<le> 2 ^ B" "16 \<le> length (entries h)"
    "tsize h \<le> length (entries h)" "B \<le> 60"
  shows "\<exists>h'. CheckGrow fits h = Some h' \<and> fit B m h' \<and> ih_map h' = ih_map h \<and> tsize h' = tsize h"
proof (cases "over_load h")
  case False
  then show ?thesis using assms by (auto simp: CheckGrow_def fit_def loaded_def)
next
  case True
  have "(2::nat) ^ B \<le> 2 ^ 62" using le(5) by (intro power_increasing) simp_all
  then obtain h' where h': "grow fits h = Some h'" "ih_ok h'" "ih_map h' = ih_map h" "tsize h' = tsize h"
    "length (entries h') = 2 * length (entries h)"
    using grow_ok [OF ok, of fits] le(1) by auto
  moreover have "fit B m h'"
    using h' True assms unfolding fit_def loaded_def over_load_def by auto
  ultimately show ?thesis using True by (simp add: CheckGrow_def)
qed

lemma insert_grow_ok:
  assumes f: "fit B (Suc m) h" and m: "ih_map h key = None" and k: "key \<noteq> intHashEmpty"
    and idx: "unat idx < length (entries h)" "\<not> ih_occ (entries h ! unat idx)"
      "path ih_occ (entries h) (home fibHash (length (entries h)) key) (unat idx)"
  shows "\<exists>h'. CheckGrow fits (occupy h idx key v) = Some h' \<and> fit B m h' \<and> ih_map h' = (ih_map h)(key \<mapsto> v)"
proof -
  have ok: "ih_ok h" using f by (simp add: fit_def loaded_def)
  have room: "Suc (tsize h) < length (entries h)"
    using f unfolding fit_def loaded_def over_load_def by auto
  note o = occupy_ok [OF ok m k idx room]
  have "\<exists>h'. CheckGrow fits (occupy h idx key v) = Some h' \<and> fit B m h' \<and> ih_map h' = ih_map (occupy h idx key v) \<and>
      tsize h' = tsize (occupy h idx key v)"
    by (rule CheckGrow_ok [OF o(1)]) (use f room in \<open>auto simp: occupy_def fit_def loaded_def\<close>)
  with o(2) show ?thesis by auto
qed

lemma fit_pred: "fit B (Suc m) h \<Longrightarrow> fit B m h"
  by (simp add: fit_def)

lemma fit_set_val:
  assumes "fit B m h" and "unat idx < length (entries h)" and "ih_occ (entries h ! unat idx)"
    and "ekey (entries h ! unat idx) = key"
  shows "fit B m (set_val h idx v)"
  using assms set_val_ok(1) [of h idx key v]
  by (auto simp: fit_def loaded_def over_load_def set_val_def)

lemma GetOrInsert_ok:
  assumes f: "fit B (Suc m) h" and k: "key \<noteq> intHashEmpty"
  shows "\<exists>h'. GetOrInsert fits key v h =
      Some (case ih_map h key of None \<Rightarrow> (v, False) | Some w \<Rightarrow> (w, True), h') \<and> fit B m h' \<and>
    ih_map h' = (case ih_map h key of None \<Rightarrow> (ih_map h)(key \<mapsto> v) | Some w \<Rightarrow> ih_map h)"
proof -
  have ok: "ih_ok h" using f by (simp add: fit_def loaded_def)
  show ?thesis
  proof (cases "ih_map h key")
    case None
    obtain idx where i: "find_slot h key (fibHash key) = Some idx" "unat idx < length (entries h)"
      "\<not> ih_occ (entries h ! unat idx)" "path ih_occ (entries h) (home fibHash (length (entries h)) key) (unat idx)"
      using find_slot_absent [OF ok None] by blast
    with insert_grow_ok [OF f None k i(2-4), of fits v] None show ?thesis
      by (auto simp: GetOrInsert_def ih_occ_def Let_def)
  next
    case (Some w)
    with find_slot_present [OF ok Some] fit_pred [OF f] show ?thesis
      by (auto simp: GetOrInsert_def ih_occ_def Let_def)
  qed
qed

lemma Put_ok:
  assumes f: "fit B (Suc m) h" and k: "key \<noteq> intHashEmpty"
  shows "\<exists>h'. Put fits key v h = Some (case ih_map h key of None \<Rightarrow> (0, False) | Some w \<Rightarrow> (w, True), h') \<and>
    fit B m h' \<and> ih_map h' = (ih_map h)(key \<mapsto> v)"
proof -
  have ok: "ih_ok h" using f by (simp add: fit_def loaded_def)
  show ?thesis
  proof (cases "ih_map h key")
    case None
    obtain idx where i: "find_slot h key (fibHash key) = Some idx" "unat idx < length (entries h)"
      "\<not> ih_occ (entries h ! unat idx)" "path ih_occ (entries h) (home fibHash (length (entries h)) key) (unat idx)"
      using find_slot_absent [OF ok None] by blast
    with insert_grow_ok [OF f None k i(2-4), of fits v] None show ?thesis
      by (auto simp: Put_def ih_occ_def Let_def)
  next
    case (Some w)
    obtain idx where i: "find_slot h key (fibHash key) = Some idx" "unat idx < length (entries h)"
      "ih_occ (entries h ! unat idx)" "ekey (entries h ! unat idx) = key" "eval (entries h ! unat idx) = w"
      using find_slot_present [OF ok Some] by blast
    with fit_set_val [OF fit_pred [OF f] i(2-4)] set_val_ok(2) [OF ok i(2-4)] Some show ?thesis
      by (auto simp: Put_def ih_occ_def Let_def)
  qed
qed

lemma PutNoGrow_ok:
  assumes ok: "ih_ok h" and k: "key \<noteq> intHashEmpty" and room: "Suc (tsize h) < length (entries h)"
  shows "\<exists>h'. PutNoGrow key v h = Some (case ih_map h key of None \<Rightarrow> (0, False) | Some w \<Rightarrow> (w, True), h') \<and>
    ih_ok h' \<and> ih_map h' = (ih_map h)(key \<mapsto> v) \<and> length (entries h') = length (entries h) \<and>
    tsize h' \<le> Suc (tsize h)"
proof (cases "ih_map h key")
  case None
  obtain idx where i: "find_slot h key (fibHash key) = Some idx" "unat idx < length (entries h)"
    "\<not> ih_occ (entries h ! unat idx)" "path ih_occ (entries h) (home fibHash (length (entries h)) key) (unat idx)"
    using find_slot_absent [OF ok None] by blast
  with occupy_ok [OF ok None k i(2-4) room, of v] None show ?thesis
    by (auto simp: PutNoGrow_def ih_occ_def Let_def) (simp_all add: occupy_def)
next
  case (Some w)
  obtain idx where i: "find_slot h key (fibHash key) = Some idx" "unat idx < length (entries h)"
    "ih_occ (entries h ! unat idx)" "ekey (entries h ! unat idx) = key" "eval (entries h ! unat idx) = w"
    using find_slot_present [OF ok Some] by blast
  with set_val_ok [OF ok i(2-4), of v] Some show ?thesis
    by (auto simp: PutNoGrow_def ih_occ_def Let_def) (simp_all add: set_val_def)
qed

lemma EnsureCapacity_ok:
  assumes "ih_ok h" and "length (entries h) \<le> 2 ^ 60" and "3 * (tsize h + a) \<le> 2 ^ 60"
  shows "\<exists>h'. EnsureCapacity fits a h = Some h' \<and> ih_ok h' \<and> ih_map h' = ih_map h \<and> tsize h' = tsize h \<and>
    (tsize h' + a) * 10 \<le> length (entries h') * 7 \<and> length (entries h') \<le> 2 ^ 60"
  using assms
proof (induction "(tsize h + a) * 10 - length (entries h) * 7" arbitrary: h rule: less_induct)
  case less
  show ?case
  proof (cases "(tsize h + a) * 10 > length (entries h) * 7")
    case False
    then show ?thesis using less.prems by (subst EnsureCapacity.simps) auto
  next
    case True
    obtain h' where h': "grow fits h = Some h'" "ih_ok h'" "ih_map h' = ih_map h" "tsize h' = tsize h"
      "length (entries h') = 2 * length (entries h)"
      using grow_ok [OF less.prems(1), of fits] less.prems(2) by auto
    have pos: "0 < length (entries h)" by (rule ih_okD(5) [OF less.prems(1)])
    have "\<exists>r. EnsureCapacity fits a h' = Some r \<and> ih_ok r \<and> ih_map r = ih_map h' \<and> tsize r = tsize h' \<and>
      (tsize r + a) * 10 \<le> length (entries r) * 7 \<and> length (entries r) \<le> 2 ^ 60"
    proof (rule less.hyps [OF _ h'(2)])
      have "s - n * 2 * 7 < s - n * 7" if "n * 7 < s" and "0 < n" for s n :: nat using that by arith
      from this [OF True pos] show "(tsize h' + a) * 10 - length (entries h') * 7 < (tsize h + a) * 10 - length (entries h) * 7"
        by (simp add: h'(4,5) mult.commute)
      show "length (entries h') \<le> 2 ^ 60" "3 * (tsize h' + a) \<le> 2 ^ 60"
        using True less.prems(3) unfolding h'(4,5) by simp_all
    qed
    with True h' show ?thesis by (subst EnsureCapacity.simps) simp
  qed
qed

lemma Delete_ok:
  assumes ok: "ih_ok h"
  shows "\<exists>h'. Delete key h = (case ih_map h key of None \<Rightarrow> (0, False) | Some v \<Rightarrow> (v, True), h') \<and> ih_ok h' \<and>
    ih_map h' = (ih_map h)(key := None) \<and> length (entries h') = length (entries h) \<and> tsize h' \<le> tsize h"
proof (cases "ih_map h key")
  case None
  then have "(ih_map h)(key := None) = ih_map h" by auto
  with find_slot_absent [OF ok None] ok None ih_okD(5) [OF ok] show ?thesis
    by (auto simp: Delete_def find_slot_def find_bounded_probe Let_def)
next
  case (Some v)
  note t = ih_okD [OF ok]
  obtain idx where i: "find_slot h key (fibHash key) = Some idx" "unat idx < length (entries h)"
    "ih_occ (entries h ! unat idx)" "ekey (entries h ! unat idx) = key" "eval (entries h ! unat idx) = v"
    using find_slot_present [OF ok Some] by blast
  obtain es j where b: "back_shift ih_occ ekey fibHash (tmask h) (entries h) idx idx (length (entries h)) = (es, j)"
    by fastforce
  let ?b = "(es ! unat j)\<lparr>ekey := intHashEmpty\<rparr>"
  let ?h = "h\<lparr>entries := es[unat j := ?b], tsize := tsize h - 1\<rparr>"
  have no: "\<not> ih_occ ?b" by (simp add: ih_occ_def)
  note d = ih.delete_ok [OF t(1) i(2,3) no b [unfolded t(2)]]
  have ok': "ih_ok ?h" using ok d by (simp add: ih_ok_def)
  have "ih_map ?h k = ((ih_map h)(key := None)) k" for k
  proof (cases "k = key")
    case True
    have "\<forall>e \<in> contents ih_occ (entries ?h). ekey e \<noteq> key"
      using uniq_others [OF tableD(4) [OF t(1)] i(2,3)] contents_others [OF i(2), of ih_occ] i(4) d(5) by auto
    then have "ih_map ?h key = None" by (simp only: ih_map_None)
    then show ?thesis using True by simp
  next
    case False
    have "ih_map ?h k = Some w \<longleftrightarrow> ih_map h k = Some w" for w
      using ih_map_Some [OF ok'] ih_map_Some [OF ok] d(5) False i(4) by auto
    then show ?thesis using False by (metis fun_upd_other option.exhaust)
  qed
  moreover have "Delete key h = ((v, True), ?h)"
    using i(1,3,5) b t(5) by (simp add: Delete_def find_slot_def find_bounded_probe Let_def)
  ultimately show ?thesis using Some ok' d(2) by (auto simp: fun_eq_iff)
qed

section \<open>The hash function\<close>

lemma drop_bit_fixpoint:
  fixes d :: u64
  assumes "d = drop_bit s d" and "0 < s"
  shows "d = 0"
proof -
  have "d = drop_bit (k * s) d" for k
  proof (induction k)
    case (Suc k)
    then have "d = drop_bit s (drop_bit (k * s) d)" using assms(1) by simp
    then show ?case by (simp add: drop_bit_drop_bit add.commute)
  qed simp
  from this [of 64] show ?thesis
    using assms(2) by (simp add: bit_eq_iff bit_drop_bit_eq impossible_bit)
qed

lemma xorshift_inj:
  fixes x y :: u64
  assumes "x XOR drop_bit s x = y XOR drop_bit s y" and "0 < s"
  shows "x = y"
proof -
  have b: "(bit x n \<noteq> bit x (s + n)) = (bit y n \<noteq> bit y (s + n))" for n
    using arg_cong [OF assms(1), of "\<lambda>w. bit w n"] by (simp add: bit_xor_iff bit_drop_bit_eq)
  have "x XOR y = drop_bit s (x XOR y)"
    by (rule bit_eqI) (use b in \<open>auto simp: bit_xor_iff bit_drop_bit_eq\<close>)
  then have z: "x XOR y = 0" using drop_bit_fixpoint assms(2) by blast
  have "bit x n = bit y n" for n using arg_cong [OF z, of "\<lambda>w. bit w n"] by (simp add: bit_xor_iff)
  then show ?thesis by (rule bit_eqI)
qed

lemma phi_cancel:
  fixes x y :: u64
  assumes "x * 11400714819323198485 = y * 11400714819323198485"
  shows "x = y"
proof -
  have inv: "(11400714819323198485 :: u64) * 17428512612931826493 = 1" by simp
  have "x * 11400714819323198485 * 17428512612931826493 = y * 11400714819323198485 * 17428512612931826493" using assms by (rule arg_cong)
  then show ?thesis by (simp only: mult.assoc inv mult.right_neutral)
qed

lemma fibHash_inj: "fibHash a = fibHash b \<Longrightarrow> a = b"
  unfolding fibHash_def Let_def
  by (drule phi_cancel, (drule xorshift_inj, simp)+)

section \<open>Sequences of calls\<close>

datatype ih_op = OpPut i64 i32 | OpGetOrInsert i64 i32 | OpGet i64 | OpDelete i64

fun op_key :: "ih_op \<Rightarrow> i64" where
  "op_key (OpPut k v) = k"
| "op_key (OpGetOrInsert k v) = k"
| "op_key (OpGet k) = k"
| "op_key (OpDelete k) = k"

fun run_op :: "(nat \<Rightarrow> bool) \<Rightarrow> ih_op \<Rightarrow> int_hash \<Rightarrow> ((i32 \<times> bool) \<times> int_hash) option" where
  "run_op fits (OpPut k v) h = Put fits k v h"
| "run_op fits (OpGetOrInsert k v) h = GetOrInsert fits k v h"
| "run_op fits (OpGet k) h = map_option (\<lambda>r. (r, h)) (Get k h)"
| "run_op fits (OpDelete k) h = Some (Delete k h)"

fun run_ops :: "(nat \<Rightarrow> bool) \<Rightarrow> ih_op list \<Rightarrow> int_hash \<Rightarrow> ((i32 \<times> bool) list \<times> int_hash) option" where
  "run_ops fits [] h = Some ([], h)"
| "run_ops fits (c # cs) h =
     (case run_op fits c h of
        None \<Rightarrow> None
      | Some (r, h) \<Rightarrow> map_option (\<lambda>(rs, h). (r # rs, h)) (run_ops fits cs h))"

text \<open>The same calls on a partial map.\<close>

definition found :: "i32 \<Rightarrow> i32 option \<Rightarrow> i32 \<times> bool" where
  "found d x = (case x of None \<Rightarrow> (d, False) | Some v \<Rightarrow> (v, True))"

fun spec_op :: "ih_op \<Rightarrow> (i64 \<Rightarrow> i32 option) \<Rightarrow> (i32 \<times> bool) \<times> (i64 \<Rightarrow> i32 option)" where
  "spec_op (OpPut k v) m = (found 0 (m k), m(k \<mapsto> v))"
| "spec_op (OpGetOrInsert k v) m = (found v (m k), if m k = None then m(k \<mapsto> v) else m)"
| "spec_op (OpGet k) m = (found 0 (m k), m)"
| "spec_op (OpDelete k) m = (found 0 (m k), m(k := None))"

fun spec_ops :: "ih_op list \<Rightarrow> (i64 \<Rightarrow> i32 option) \<Rightarrow> (i32 \<times> bool) list \<times> (i64 \<Rightarrow> i32 option)" where
  "spec_ops [] m = ([], m)"
| "spec_ops (c # cs) m = (let (r, m) = spec_op c m; (rs, m) = spec_ops cs m in (r # rs, m))"

lemma run_op_refines:
  assumes f: "fit B (Suc m) h" and k: "op_key c \<noteq> intHashEmpty"
  shows "\<exists>h'. run_op fits c h = Some (fst (spec_op c (ih_map h)), h') \<and> ih_map h' = snd (spec_op c (ih_map h)) \<and> fit B m h'"
proof -
  have ok: "ih_ok h" using f by (simp add: fit_def loaded_def)
  show ?thesis
  proof (cases c)
    case (OpPut k v)
    then show ?thesis using Put_ok [OF f, of k fits v] k by (auto simp: found_def)
  next
    case (OpGetOrInsert k v)
    then show ?thesis using GetOrInsert_ok [OF f, of k fits v] k
      by (auto simp: found_def split: option.splits)
  next
    case (OpGet k)
    then show ?thesis using Get_ok [OF ok, of k] fit_pred [OF f] by (simp add: found_def)
  next
    case (OpDelete k)
    obtain h' where h': "Delete k h = (found 0 (ih_map h k), h')" "ih_ok h'" "ih_map h' = (ih_map h)(k := None)"
      "length (entries h') = length (entries h)" "tsize h' \<le> tsize h"
      using Delete_ok [OF ok, of k] by (auto simp: found_def)
    moreover have "fit B m h'" using f h' by (simp add: fit_def loaded_def over_load_def)
    ultimately show ?thesis using OpDelete by simp
  qed
qed

lemma run_ops_refines:
  assumes "fit B (length cs) h" and "\<forall>c \<in> set cs. op_key c \<noteq> intHashEmpty"
  shows "\<exists>h'. run_ops fits cs h = Some (fst (spec_ops cs (ih_map h)), h') \<and> ih_map h' = snd (spec_ops cs (ih_map h)) \<and>
    ih_ok h'"
  using assms
proof (induction cs arbitrary: h)
  case Nil
  then show ?case by (simp add: fit_def loaded_def)
next
  case (Cons c cs)
  obtain h' where h': "run_op fits c h = Some (fst (spec_op c (ih_map h)), h')" "ih_map h' = snd (spec_op c (ih_map h))"
    "fit B (length cs) h'"
    using run_op_refines [of B "length cs" h c fits] Cons.prems by auto
  with Cons.IH [OF h'(3)] Cons.prems(2) show ?case by (auto simp: split_beta)
qed

fun run_puts :: "(i64 \<times> i32) list \<Rightarrow> int_hash \<Rightarrow> int_hash option" where
  "run_puts [] h = Some h"
| "run_puts ((k, v) # kvs) h = (case PutNoGrow k v h of None \<Rightarrow> None | Some (r, h) \<Rightarrow> run_puts kvs h)"

lemma run_puts_ok:
  assumes "ih_ok h" and "(tsize h + a) * 10 \<le> length (entries h) * 7" and "length kvs \<le> a"
    and "\<forall>kv \<in> set kvs. fst kv \<noteq> intHashEmpty"
  shows "\<exists>h'. run_puts kvs h = Some h' \<and> ih_ok h' \<and> ih_map h' = ih_map h ++ map_of (rev kvs)"
  using assms
proof (induction kvs arbitrary: h a)
  case Nil
  then show ?case by simp
next
  case (Cons kv kvs)
  obtain k v where kv: "kv = (k, v)" by fastforce
  obtain b where a: "a = Suc b" using Cons.prems(3) by (cases a) auto
  have room: "Suc (tsize h) < length (entries h)" using Cons.prems(2) by (simp add: a)
  obtain h' where h': "PutNoGrow k v h = Some (case ih_map h k of None \<Rightarrow> (0, False) | Some w \<Rightarrow> (w, True), h')"
    "ih_ok h'" "ih_map h' = (ih_map h)(k \<mapsto> v)" "length (entries h') = length (entries h)" "tsize h' \<le> Suc (tsize h)"
    using PutNoGrow_ok [OF Cons.prems(1) _ room, of k v] Cons.prems(4) kv by auto
  have "(tsize h' + b) * 10 \<le> length (entries h') * 7" using h'(4,5) Cons.prems(2) a by simp
  with Cons.IH [OF h'(2), of b] Cons.prems(3,4) a obtain r where
    "run_puts kvs h' = Some r" "ih_ok r" "ih_map r = ih_map h' ++ map_of (rev kvs)" by auto
  then show ?case using h'(1,3) kv by (auto simp: map_add_def fun_eq_iff split: option.splits)
qed

lemma blank_swap_ok:
  assumes ok: "table_ok ih_occ ekey fibHash es" and q: "q < length es" "\<not> ih_occ (es ! q)" and b: "\<not> ih_occ b"
  shows "table_ok ih_occ ekey fibHash (es[q := b])" "contents ih_occ (es[q := b]) = contents ih_occ es"
proof -
  note t = tableD [OF ok]
  have n: "ih_occ (es[q := b] ! p) \<longleftrightarrow> ih_occ (es ! p)" if "p < length es" for p
    using q b by (auto simp: nth_list_update)
  have e: "es[q := b] ! p = es ! p" if "ih_occ (es ! p)" for p
    using q(2) that by (cases "p = q") simp_all
  have "path ih_occ (es[q := b]) a p = path ih_occ es a p" for a p
    using n t(2) by (auto simp: path_def)
  then have "chained ih_occ ekey fibHash (es[q := b])"
    using t(3) n e unfolding chained_def by (metis length_list_update)
  moreover have "uniq ih_occ ekey (es[q := b])"
    using t(4) n e unfolding uniq_def by (metis length_list_update)
  moreover have "used ih_occ (es[q := b]) = used ih_occ es" using used_update [OF q(1), of ih_occ b] q b by simp
  ultimately show "table_ok ih_occ ekey fibHash (es[q := b])" using t by (simp add: table_ok_def)
  show "contents ih_occ (es[q := b]) = contents ih_occ es"
    using contents_update [OF q(1), of ih_occ b] contents_others [OF q(1), of ih_occ] q b by simp
qed

lemma ForEach_contents_swap:
  assumes "q < length es" and "\<not> ih_occ (es ! q)" and "\<not> ih_occ b"
  shows "filter ih_occ (es[q := b]) = filter ih_occ es"
  by (subst (2) id_take_nth_drop [OF assms(1)]) (simp add: upd_conv_take_nth_drop assms)

section \<open>Properties\<close>

text \<open>
  C5: The integer hash index implements a finite map. For every sequence of Put, GetOrInsert, Get and Delete
  calls on a new table (of any pre-size up to 2^59, on or off heap, for any outcome of the reservations), of at most
  2^58 calls none of which uses the sentinel key intHashEmpty, every call returns, the answers are those of a partial map starting empty, and the final
  table stands for the final map.
\<close>

theorem int_hash_refines_map:
  assumes "n \<le> 2 ^ 59" and "length cs \<le> 2 ^ 58" and "\<forall>c \<in> set cs. op_key c \<noteq> intHashEmpty"
  shows "\<exists>h. run_ops fits cs (newIntHashTableReg fits n rg) = Some (fst (spec_ops cs Map.empty), h) \<and>
    ih_map h = snd (spec_ops cs Map.empty) \<and> ih_ok h"
proof -
  note new = newIntHashTable_ok [OF assms(1), of fits rg]
  have "fit 60 (length cs) (newIntHashTableReg fits n rg)"
    using new assms(2) by (simp add: fit_def loaded_def over_load_def)
  from run_ops_refines [OF this assms(3), of fits] show ?thesis by (simp add: new(2))
qed

theorem int_hash_refines_map_witness:
  "\<exists>h. run_ops (\<lambda>_. True) [OpPut 5 7, OpDelete 5, OpGetOrInsert 5 9, OpGet 5] (newIntHashTableReg (\<lambda>_. True) 3 True) =
     Some ([(0, False), (7, True), (9, False), (9, True)], h) \<and> ih_map h 5 = Some 9"
  using int_hash_refines_map [of 3 "[OpPut 5 7, OpDelete 5, OpGetOrInsert 5 9, OpGet 5]" "\<lambda>_. True" True]
  by (auto simp: found_def intHashEmpty_def)

text \<open>
  C6: Back-shift deletion keeps every probe chain. In a well-formed table Delete answers with the key's value,
  removes exactly that key, and the table stays well-formed, so each other key is still found by Get.
\<close>

theorem delete_keeps_chains:
  assumes "ih_ok h"
  shows "ih_ok (snd (Delete key h)) \<and> fst (Delete key h) = found 0 (ih_map h key) \<and>
    Get other (snd (Delete key h)) = Some (found 0 (if other = key then None else ih_map h other))"
proof -
  obtain h' where h': "Delete key h = (found 0 (ih_map h key), h')" "ih_ok h'" "ih_map h' = (ih_map h)(key := None)"
    using Delete_ok [OF assms, of key] by (auto simp: found_def)
  with Get_ok [OF h'(2), of other] show ?thesis by (simp add: found_def)
qed

theorem delete_keeps_chains_witness:
  "ih_ok (snd (Delete 4 (newIntHashTable 3)))"
  using delete_keeps_chains [of "newIntHashTable 3" 4 0] newIntHashTable_ok(1) [of 3 "\<lambda>_. False" False]
  by (simp add: newIntHashTable_def)

text \<open>
  C26: EnsureCapacity terminates and its promise holds: after it, any batch of at most that many PutNoGrow calls,
  none of which uses the sentinel key intHashEmpty, on a well-formed table that needs at most 2^60 slots, finds a slot for every key (no probe runs forever although nothing checks the load) and leaves the map updated
  by the batch in order.
\<close>

theorem ensure_capacity_covers:
  assumes "ih_ok h" and "length (entries h) \<le> 2 ^ 60" and "3 * (tsize h + a) \<le> 2 ^ 60"
    and "length kvs \<le> a" and "\<forall>kv \<in> set kvs. fst kv \<noteq> intHashEmpty"
  shows "\<exists>h' h''. EnsureCapacity fits a h = Some h' \<and> run_puts kvs h' = Some h'' \<and>
    ih_ok h'' \<and> ih_map h'' = ih_map h ++ map_of (rev kvs)"
proof -
  obtain h' where h': "EnsureCapacity fits a h = Some h'" "ih_ok h'" "ih_map h' = ih_map h"
    "(tsize h' + a) * 10 \<le> length (entries h') * 7"
    using EnsureCapacity_ok [OF assms(1-3), of fits] by blast
  with run_puts_ok [OF h'(2,4) assms(4,5)] show ?thesis by auto
qed

theorem ensure_capacity_covers_witness:
  "\<exists>h' h''. EnsureCapacity (\<lambda>_. False) 40 (newIntHashTable 3) = Some h' \<and>
     run_puts [(1, 2), (3, 4), (1, 5)] h' = Some h'' \<and> ih_ok h'' \<and> ih_map h'' 1 = Some 5"
proof -
  note new = newIntHashTable_ok [of 3 "\<lambda>_. False" False, folded newIntHashTable_def]
  show ?thesis
    using ensure_capacity_covers [of "newIntHashTable 3" 40 "[(1, 2), (3, 4), (1, 5)]" "\<lambda>_. False"] new
    by (auto simp: intHashEmpty_def)
qed

text \<open>
  C27: The sentinel is a key the table cannot hold. Put of the legal int64 value -9223372036854775807 counts a
  new entry, yet the next Get of it answers that it is missing and ForEach does not show it.
\<close>

theorem sentinel_key_lost:
  assumes "ih_ok h" and "(tsize h + 1) * 10 \<le> length (entries h) * 7"
  shows "\<exists>h'. Put fits intHashEmpty v h = Some ((0, False), h') \<and> Len h' = Len h + 1 \<and>
    Get intHashEmpty h' = Some (0, False) \<and> ForEach h' = ForEach h"
proof -
  note t = ih_okD [OF assms(1)]
  obtain idx where i: "find_slot h intHashEmpty (fibHash intHashEmpty) = Some idx" "unat idx < length (entries h)"
    "\<not> ih_occ (entries h ! unat idx)"
    using find_slot_absent [OF assms(1) ih_map_sentinel] by blast
  let ?h = "occupy h idx intHashEmpty v" and ?b = "(entries h ! unat idx)\<lparr>ekey := intHashEmpty, eval := v\<rparr>"
  have b: "\<not> ih_occ ?b" by (simp add: ih_occ_def)
  note sw = blank_swap_ok [OF t(1) i(2,3) b]
  have e: "entries ?h = (entries h)[unat idx := ?b]" "tmask ?h = tmask h" by (simp_all add: occupy_def)
  have "\<not> over_load ?h" using assms(2) by (simp add: over_load_def occupy_def)
  then have "Put fits intHashEmpty v h = Some ((0, False), ?h)"
    using i by (simp add: Put_def CheckGrow_def ih_occ_def Let_def)
  moreover have "\<forall>x \<in> contents ih_occ (entries ?h). ekey x \<noteq> intHashEmpty"
    by (auto simp: contents_def ih_occ_def)
  then obtain r where "find_slot ?h intHashEmpty (fibHash intHashEmpty) = Some r" "\<not> ih_occ (entries ?h ! unat r)"
    using ih.probe_absent [OF sw(1), of intHashEmpty] t(2) unfolding find_slot_def e by auto
  then have "Get intHashEmpty ?h = Some (0, False)" by (simp add: Get_def ih_occ_def Let_def)
  moreover have "(\<lambda>e. ekey e \<noteq> intHashEmpty) = ih_occ" by (auto simp: fun_eq_iff ih_occ_def)
  then have "ForEach ?h = ForEach h"
    using ForEach_contents_swap [OF i(2,3) b] e(1) by (simp add: ForEach_def)
  ultimately show ?thesis by (auto simp: Len_def occupy_def)
qed

theorem sentinel_key_lost_witness:
  "\<exists>h'. Put (\<lambda>_. False) intHashEmpty 8 (newIntHashTable 3) = Some ((0, False), h') \<and> Get intHashEmpty h' = Some (0, False)"
  using sentinel_key_lost [of "newIntHashTable 3" "\<lambda>_. False" 8]
    newIntHashTable_ok [of 3 "\<lambda>_. False" False, folded newIntHashTable_def] by auto

end
