(* ===== verification/Two_Level.thy ===== *)
theory Two_Level
  imports Int_Hash
begin

text \<open>
  The bucketed group index (\<^verbatim>\<open>internal/engine/exec/two_level_hash.go\<close>): 256 sub-tables selected by
  the low eight bits of a key's hash and probed with the bits above them, each grown alone. The source writes
  the table twice, for int and for packed keys, over different entry types; the definitions here take what
  differs as one argument, a \<open>table_kind\<close>. Off-heap memory is a count of the reservations the registry
  holds for the table (\<open>tmaps\<close>), the shared arena as its length, and the kernel's answers as the arguments of
  \<open>offheap\<close>: whether the i-th allocation of the table gets a reservation of a length, and how many bytes a slice
  vacated after i allocations gives back. \<open>tallocs\<close> counts the allocations, so every request has an answer of
  its own.
\<close>

record ('e, 'k) table_kind =
  k_occ :: "'e \<Rightarrow> bool"
  k_key :: "'e \<Rightarrow> 'k"
  k_hash :: "'k \<Rightarrow> u64"
  k_zero :: 'e
  k_fill :: "'e list \<Rightarrow> 'e list"
  k_bytes :: nat

record offheap =
  exact :: "nat \<Rightarrow> nat \<Rightarrow> bool"
  discarded :: "nat \<Rightarrow> nat \<Rightarrow> int"

record 'e sub_table =
  sentries :: "'e list"
  smask :: u64
  ssize :: nat
  soffheap :: bool
  sarena :: bool

record 'e two_level =
  subs :: "'e sub_table list"
  treg :: bool
  tmaps :: nat
  arena :: "nat option"
  arenaLive :: nat
  arenaFreed :: int
  tallocs :: nat

definition twoLevelBuckets :: nat where "twoLevelBuckets = 256"
definition twoLevelBucketMask :: u64 where "twoLevelBucketMask = 255"
definition twoLevelMaxSubBits :: nat where "twoLevelMaxSubBits = 36"
definition twoLevelMinSubCap :: nat where "twoLevelMinSubCap = 16"
definition offheapSubMinBytes :: nat where "offheapSubMinBytes = 2 * 2 ^ 20"

definition bucketOf :: "u64 \<Rightarrow> u64" where "bucketOf hash = hash AND twoLevelBucketMask"

text \<open>The slot hash of a bucket: \<^verbatim>\<open>hash >> twoLevelSlotShift\<close>.\<close>

definition sub_hash :: "('e, 'k) table_kind \<Rightarrow> 'k \<Rightarrow> u64" where
  "sub_hash K k = drop_bit 8 (k_hash K k)"

definition bucket :: "('e, 'k) table_kind \<Rightarrow> 'k \<Rightarrow> nat" where
  "bucket K k = unat (bucketOf (k_hash K k))"

definition subCapFor :: "nat \<Rightarrow> nat" where
  "subCapFor n = (let per = n div twoLevelBuckets in round_cap twoLevelMinSubCap (per + per div 3))"

definition subCapForFlatSlots :: "nat \<Rightarrow> nat" where
  "subCapForFlatSlots slots =
     (let per = slots div twoLevelBuckets in if per < twoLevelMinSubCap then twoLevelMinSubCap else per)"

definition allocOffheapArena :: "offheap \<Rightarrow> ('e, 'k) table_kind \<Rightarrow> bool \<Rightarrow> nat \<Rightarrow> nat \<Rightarrow> bool" where
  "allocOffheapArena env K rg i n = (if \<not> rg \<or> n * k_bytes K < offheapSubMinBytes then False else exact env i n)"

definition allocSubEntries :: "offheap \<Rightarrow> ('e, 'k) table_kind \<Rightarrow> bool \<Rightarrow> nat \<Rightarrow> nat \<Rightarrow> 'e list \<times> bool" where
  "allocSubEntries env K rg i n =
     (if rg \<and> offheapSubMinBytes \<le> n * k_bytes K \<and> exact env i n
      then (replicate n (k_zero K), True)
      else (replicate n (k_zero K), False))"

definition new_heap_sub :: "offheap \<Rightarrow> ('e, 'k) table_kind \<Rightarrow> bool \<Rightarrow> nat \<Rightarrow> nat \<Rightarrow> 'e sub_table" where
  "new_heap_sub env K rg i n =
     (let (es, off) = allocSubEntries env K rg i n
      in \<lparr>sentries = k_fill K es, smask = msk_of n, ssize = 0, soffheap = off, sarena = False\<rparr>)"

definition newTwoLevelSub :: "offheap \<Rightarrow> ('e, 'k) table_kind \<Rightarrow> nat \<Rightarrow> bool \<Rightarrow> 'e two_level" where
  "newTwoLevelSub env K n rg =
     (if allocOffheapArena env K rg 0 (twoLevelBuckets * n) then
        let a = k_fill K (replicate (twoLevelBuckets * n) (k_zero K)) in
        \<lparr>subs = map (\<lambda>i. \<lparr>sentries = take n (drop (i * n) a), smask = msk_of n, ssize = 0,
                         soffheap = True, sarena = True\<rparr>) [0..<twoLevelBuckets],
         treg = rg, tmaps = 1, arena = Some (twoLevelBuckets * n),
         arenaLive = twoLevelBuckets, arenaFreed = 0, tallocs = 1\<rparr>
      else
        let ss = map (\<lambda>i. new_heap_sub env K rg (i + 1) n) [0..<twoLevelBuckets] in
        \<lparr>subs = ss, treg = rg, tmaps = length (filter soffheap ss), arena = None,
         arenaLive = 0, arenaFreed = 0, tallocs = twoLevelBuckets + 1\<rparr>)"

definition newTwoLevel :: "offheap \<Rightarrow> ('e, 'k) table_kind \<Rightarrow> nat \<Rightarrow> bool \<Rightarrow> 'e two_level" where
  "newTwoLevel env K n rg = newTwoLevelSub env K (subCapFor n) rg"

definition releaseArenaSlot :: "offheap \<Rightarrow> 'e list \<Rightarrow> 'e two_level \<Rightarrow> 'e two_level" where
  "releaseArenaSlot env old t =
     (let t = t\<lparr>arenaFreed := arenaFreed t + discarded env (tallocs t) (length old), arenaLive := arenaLive t - 1\<rparr> in
      if 0 < arenaLive t \<or> arena t = None then t
      else t\<lparr>tmaps := tmaps t - 1, arena := None, arenaFreed := 0\<rparr>)"

definition growSub :: "offheap \<Rightarrow> ('e, 'k) table_kind \<Rightarrow> nat \<Rightarrow> 'e two_level \<Rightarrow> 'e two_level option" where
  "growSub env K b t =
     (let s = subs t ! b; newCap = length (sentries s) * 2 in
      if 0 < newCap div 2 ^ twoLevelMaxSubBits then Some t
      else
        let old = sentries s; (es, off) = allocSubEntries env K (treg t) (tallocs t) newCap; newMask = msk_of newCap in
        case rehash (k_occ K) (k_key K) (sub_hash K) newMask old (k_fill K es) of
          None \<Rightarrow> None
        | Some new \<Rightarrow>
            let t' = t\<lparr>subs := (subs t)[b := s\<lparr>sentries := new, soffheap := off, sarena := False, smask := newMask\<rparr>],
                       tmaps := tmaps t + (if off then 1 else 0), tallocs := tallocs t + 1\<rparr>
            in Some (if sarena s then releaseArenaSlot env old t'
                     else if soffheap s then t'\<lparr>tmaps := tmaps t' - 1\<rparr>
                     else t'))"

text \<open>An entry goes into a free slot of bucket \<open>b\<close>; the bucket is grown if that crosses its load factor.\<close>

definition tl_occupy :: "offheap \<Rightarrow> ('e, 'k) table_kind \<Rightarrow> nat \<Rightarrow> u64 \<Rightarrow> 'e \<Rightarrow> 'e two_level \<Rightarrow> 'e two_level option" where
  "tl_occupy env K b idx e t =
     (let s = subs t ! b;
          s = s\<lparr>sentries := (sentries s)[unat idx := e], ssize := ssize s + 1\<rparr>;
          t = t\<lparr>subs := (subs t)[b := s]\<rparr>
      in if ssize s * 10 > length (sentries s) * 7 then growSub env K b t else Some t)"

definition tl_find :: "('e, 'k) table_kind \<Rightarrow> 'k \<Rightarrow> u64 \<Rightarrow> 'e two_level \<Rightarrow> u64 option" where
  "tl_find K k hash t =
     (let s = subs t ! unat (bucketOf hash) in
      probe (k_occ K) (k_key K) (sentries s) (smask s) k (drop_bit 8 hash AND smask s) (length (sentries s)))"

text \<open>The insertion loop of a conversion: every occupied entry of the flat table, in order.\<close>

fun convert_loop :: "offheap \<Rightarrow> ('e, 'k) table_kind \<Rightarrow> 'e list \<Rightarrow> 'e two_level \<Rightarrow> 'e two_level option" where
  "convert_loop env K [] t = Some t"
| "convert_loop env K (e # es) t =
     (if \<not> k_occ K e then convert_loop env K es t
      else
        let hash = k_hash K (k_key K e); b = unat (bucketOf hash); s = subs t ! b in
        case first_free (k_occ K) (sentries s) (smask s) (drop_bit 8 hash AND smask s) (length (sentries s)) of
          None \<Rightarrow> None
        | Some idx \<Rightarrow> Option.bind (tl_occupy env K b idx e t) (convert_loop env K es))"

definition tl_Len :: "'e two_level \<Rightarrow> nat" where "tl_Len t = sum_list (map ssize (subs t))"

definition tl_MemoryUsage :: "('e, 'k) table_kind \<Rightarrow> nat \<Rightarrow> 'e two_level \<Rightarrow> int" where
  "tl_MemoryUsage K header t =
     (case arena t of None \<Rightarrow> 0 | Some n \<Rightarrow> int (n * k_bytes K)) - arenaFreed t +
     sum_list (map (\<lambda>s. if sarena s then 0 else int (length (sentries s) * k_bytes K)) (subs t)) + int header"

definition tl_ForEach :: "('e, 'k) table_kind \<Rightarrow> 'e two_level \<Rightarrow> 'e list" where
  "tl_ForEach K t = concat (map (\<lambda>s. filter (k_occ K) (sentries s)) (subs t))"

section \<open>Int keys\<close>

definition int_kind :: "(ih_entry, i64) table_kind" where
  "int_kind = \<lparr>k_occ = ih_occ, k_key = ekey, k_hash = fibHash, k_zero = zero_entry,
     k_fill = fillEmptyEntries, k_bytes = 16\<rparr>"

type_synonym int_two_level = "ih_entry two_level"

definition newIntTwoLevelTable :: "offheap \<Rightarrow> nat \<Rightarrow> bool \<Rightarrow> int_two_level" where
  "newIntTwoLevelTable env n rg = newTwoLevel env int_kind n rg"

definition convertIntHashTableToTwoLevel :: "offheap \<Rightarrow> int_hash \<Rightarrow> bool \<Rightarrow> (int_two_level \<times> int_hash) option" where
  "convertIntHashTableToTwoLevel env flat rg =
     (let t = newTwoLevelSub env int_kind (subCapForFlatSlots (length (entries flat))) rg
      in map_option (\<lambda>t. (t, freeEntries flat)) (convert_loop env int_kind (entries flat) t))"

definition tl_GetOrInsertAt :: "offheap \<Rightarrow> i64 \<Rightarrow> u64 \<Rightarrow> i32 \<Rightarrow> int_two_level \<Rightarrow> ((i32 \<times> bool) \<times> int_two_level) option" where
  "tl_GetOrInsertAt env key hash v t =
     (case tl_find int_kind key hash t of
        None \<Rightarrow> None
      | Some idx \<Rightarrow>
          let b = unat (bucketOf hash); e = sentries (subs t ! b) ! unat idx in
          if ekey e = intHashEmpty
          then map_option (\<lambda>t. ((v, False), t)) (tl_occupy env int_kind b idx (e\<lparr>ekey := key, eval := v\<rparr>) t)
          else Some ((eval e, True), t))"

definition tl_Get :: "i64 \<Rightarrow> int_two_level \<Rightarrow> (i32 \<times> bool) option" where
  "tl_Get key t =
     (case tl_find int_kind key (fibHash key) t of
        None \<Rightarrow> None
      | Some idx \<Rightarrow>
          let e = sentries (subs t ! unat (bucketOf (fibHash key))) ! unat idx in
          if ekey e = intHashEmpty then Some (0, False) else Some (eval e, True))"

definition tl_GetOrInsert :: "offheap \<Rightarrow> i64 \<Rightarrow> i32 \<Rightarrow> int_two_level \<Rightarrow> ((i32 \<times> bool) \<times> int_two_level) option" where
  "tl_GetOrInsert env key v t = tl_GetOrInsertAt env key (fibHash key) v t"

definition tl_Delete :: "i64 \<Rightarrow> int_two_level \<Rightarrow> (i32 \<times> bool) \<times> int_two_level" where
  "tl_Delete key t =
     (let hash = fibHash key; b = unat (bucketOf hash); s = subs t ! b; n = length (sentries s) in
      if n = 0 then ((0, False), t)
      else case find_bounded ih_occ ekey (sentries s) (smask s) key (drop_bit 8 hash AND smask s) n of
             None \<Rightarrow> ((0, False), t)
           | Some idx \<Rightarrow>
               let deleted = eval (sentries s ! unat idx);
                   (es, i) = back_shift ih_occ ekey (sub_hash int_kind) (smask s) (sentries s) idx idx n
               in ((deleted, True),
                   t\<lparr>subs := (subs t)[b := s\<lparr>sentries := es[unat i := (es ! unat i)\<lparr>ekey := intHashEmpty\<rparr>],
                                           ssize := ssize s - 1\<rparr>]\<rparr>))"

section \<open>Invariant and abstraction\<close>

definition sub_ok :: "('e, 'k) table_kind \<Rightarrow> nat \<Rightarrow> 'e sub_table \<Rightarrow> bool" where
  "sub_ok K b s = (table_ok (k_occ K) (k_key K) (sub_hash K) (sentries s) \<and>
     smask s = msk_of (length (sentries s)) \<and> ssize s = used (k_occ K) (sentries s) \<and>
     (\<forall>e \<in> contents (k_occ K) (sentries s). bucket K (k_key K e) = b) \<and> (sarena s \<longrightarrow> soffheap s))"

text \<open>The reservations a table answers for: the arena while a bucket still lives in it, and one per bucket
  that was given memory of its own.\<close>

definition backing_ok :: "'e two_level \<Rightarrow> bool" where
  "backing_ok t = (arenaLive t = used sarena (subs t) \<and> (arena t = None \<longleftrightarrow> arenaLive t = 0) \<and>
     tmaps t = (if arena t = None then 0 else 1) + used (\<lambda>s. soffheap s \<and> \<not> sarena s) (subs t))"

definition tl_ok :: "('e, 'k) table_kind \<Rightarrow> 'e two_level \<Rightarrow> bool" where
  "tl_ok K t = (length (subs t) = 256 \<and> (\<forall>b < 256. sub_ok K b (subs t ! b)) \<and> backing_ok t)"

definition tl_map :: "('e, 'k) table_kind \<Rightarrow> 'e two_level \<Rightarrow> 'k \<Rightarrow> 'e option" where
  "tl_map K t k = entry_at (k_occ K) (k_key K) (sentries (subs t ! bucket K k)) k"

definition tl_fit :: "('e, 'k) table_kind \<Rightarrow> nat \<Rightarrow> 'e two_level \<Rightarrow> bool" where
  "tl_fit K m t = (tl_ok K t \<and> (\<forall>b < 256. let s = subs t ! b; n = length (sentries s) in
     16 \<le> n \<and> ssize s * 10 \<le> n * 7 \<and> n \<le> 2 ^ 34 \<and> 3 * (ssize s + m) \<le> 2 ^ 34))"

lemma bucket_less: "bucket K k < 256"
proof -
  have "msk_of 256 = twoLevelBucketMask" by (simp add: msk_of_def twoLevelBucketMask_def)
  moreover have "pow2 256" unfolding pow2_def by (rule exI [of _ 8]) simp
  ultimately show ?thesis by (metis bucket_def bucketOf_def unat_and_msk mod_less_divisor zero_less_numeral)
qed

lemma tl_sub: "tl_ok K t \<Longrightarrow> sub_ok K (bucket K k) (subs t ! bucket K k)"
  using bucket_less [of K k] by (auto simp: tl_ok_def)

lemma sub_okD:
  assumes "sub_ok K b s"
  shows "table_ok (k_occ K) (k_key K) (sub_hash K) (sentries s)" "smask s = msk_of (length (sentries s))"
    "ssize s = used (k_occ K) (sentries s)" "\<And>e. e \<in> contents (k_occ K) (sentries s) \<Longrightarrow> bucket K (k_key K e) = b"
  using assms by (simp_all add: sub_ok_def)

lemma tl_Len_card:
  assumes "tl_ok K t"
  shows "tl_Len t = card (dom (tl_map K t))"
proof -
  let ?D = "\<lambda>b. dom (entry_at (k_occ K) (k_key K) (sentries (subs t ! b)))"
  have len: "length (subs t) = 256" using assms by (simp add: tl_ok_def)
  have so: "sub_ok K b (subs t ! b)" if "b < 256" for b using assms that by (simp add: tl_ok_def)
  have bk: "bucket K k = b" if b: "b < 256" "k \<in> ?D b" for b k
  proof -
    obtain e where "entry_at (k_occ K) (k_key K) (sentries (subs t ! b)) k = Some e" using b(2) by auto
    then have "e \<in> contents (k_occ K) (sentries (subs t ! b))" "k_key K e = k"
      using entry_at_Some [OF tableD(4) [OF sub_okD(1) [OF so [OF b(1)]]]] by blast+
    then show ?thesis using sub_okD(4) [OF so [OF b(1)]] by blast
  qed
  have "tl_Len t = (\<Sum>b<256. ssize (subs t ! b))"
    unfolding tl_Len_def by (simp add: sum_list_sum_nth len atLeast0LessThan)
  also have "\<dots> = (\<Sum>b<256. card (?D b))"
    using used_card [OF tableD(4) [OF sub_okD(1) [OF so]]] sub_okD(3) [OF so] by (intro sum.cong) auto
  also have "\<dots> = card (\<Union>b<256. ?D b)"
  proof (rule card_UN_disjoint [symmetric])
    show "\<forall>b\<in>{..<256}. \<forall>c\<in>{..<256}. b \<noteq> c \<longrightarrow> ?D b \<inter> ?D c = {}" using bk by blast
  qed (simp_all add: dom_entry_at)
  also have "(\<Union>b<256. ?D b) = dom (tl_map K t)"
    using bk bucket_less [of K] unfolding tl_map_def by (auto simp: dom_def)
  finally show ?thesis .
qed

text \<open>Replacing bucket \<open>b\<close> by one that keeps its keys in \<open>b\<close> changes the map only there.\<close>

lemma tl_map_update:
  assumes "b < length (subs t)" and "length (subs t) = 256"
  shows "tl_map K (t\<lparr>subs := (subs t)[b := s]\<rparr>) k =
    (if bucket K k = b then entry_at (k_occ K) (k_key K) (sentries s) k else tl_map K t k)"
  using assms by (auto simp: tl_map_def nth_list_update)

lemma tl_map_more [simp]:
  "tl_map K (t\<lparr>tmaps := x\<rparr>) = tl_map K t" "tl_map K (t\<lparr>arenaFreed := y\<rparr>) = tl_map K t"
  "tl_map K (t\<lparr>arenaLive := z\<rparr>) = tl_map K t" "tl_map K (t\<lparr>arena := w\<rparr>) = tl_map K t"
  by (simp_all add: tl_map_def fun_eq_iff)

lemma releaseArenaSlot_subs [simp]:
  "subs (releaseArenaSlot env old t) = subs t" "tl_map K (releaseArenaSlot env old t) = tl_map K t"
  by (simp_all add: releaseArenaSlot_def Let_def)

lemma backing_grow:
  fixes i :: nat
  assumes b: "backing_ok t" "b < length (subs t)" and s: "s = subs t ! b" "sarena s \<longrightarrow> soffheap s"
    and s': "\<not> sarena s'" "soffheap s' = off"
  defines "t' \<equiv> t\<lparr>subs := (subs t)[b := s'], tmaps := tmaps t + (if off then 1 else 0), tallocs := i\<rparr>"
  shows "backing_ok (if sarena s then releaseArenaSlot env old t'
    else if soffheap s then t'\<lparr>tmaps := tmaps t' - 1\<rparr> else t')"
  using b s s' used_update [OF b(2), of sarena s'] used_update [OF b(2), of "\<lambda>s. soffheap s \<and> \<not> sarena s" s']
  unfolding t'_def backing_ok_def by (auto simp: releaseArenaSlot_def Let_def split: if_splits)

section \<open>The bucketed table over any kind of entry\<close>

text \<open>What the table relies on of an entry type: the fill routine stamps one unoccupied entry everywhere.\<close>

locale bucketed =
  fixes K :: "('e, 'k) table_kind" and blank :: 'e
  assumes fill: "0 < n \<Longrightarrow> k_fill K (replicate n (k_zero K)) = replicate n blank"
    and blank_free: "\<not> k_occ K blank"
begin

lemma growSub_ok:
  assumes ok: "tl_ok K t" and b: "b < 256" and cap: "length (sentries (subs t ! b)) * 2 < 2 ^ 36"
  shows "\<exists>t' s'. growSub env K b t = Some t' \<and> tl_ok K t' \<and> tl_map K t' = tl_map K t \<and>
    subs t' = (subs t)[b := s'] \<and> length (sentries s') = 2 * length (sentries (subs t ! b)) \<and>
    ssize s' = ssize (subs t ! b)"
proof -
  let ?s = "subs t ! b" and ?n = "length (sentries (subs t ! b))"
  have len: "length (subs t) = 256" and so: "sub_ok K b ?s" and bo: "backing_ok t"
    using ok b by (simp_all add: tl_ok_def)
  note d = sub_okD [OF so]
  have pos: "0 < ?n" and p: "pow2 ?n" by (rule tableD(2) [OF d(1)], rule tableD(1) [OF d(1)])
  have p2: "pow2 (?n * 2)" using pow2_double [OF p] cap by simp
  have lt: "?n < ?n * 2" using pos by simp
  obtain r where r: "rehash (k_occ K) (k_key K) (sub_hash K) (msk_of (?n * 2)) (sentries ?s) (replicate (?n * 2) blank) = Some r"
    "length r = ?n * 2" "table_ok (k_occ K) (k_key K) (sub_hash K) r"
    "entry_at (k_occ K) (k_key K) r = entry_at (k_occ K) (k_key K) (sentries ?s)"
    "used (k_occ K) r = used (k_occ K) (sentries ?s)"
    using probing.rehash_map [OF d(1) p2 lt blank_free] by blast
  define off where "off = snd (allocSubEntries env K (treg t) (tallocs t) (?n * 2))"
  have al: "allocSubEntries env K (treg t) (tallocs t) (?n * 2) = (replicate (?n * 2) (k_zero K), off)"
    by (simp add: off_def allocSubEntries_def)
  let ?s' = "?s\<lparr>sentries := r, soffheap := off, sarena := False, smask := msk_of (?n * 2)\<rparr>"
  let ?t1 = "t\<lparr>subs := (subs t)[b := ?s'], tmaps := tmaps t + (if off then 1 else 0), tallocs := tallocs t + 1\<rparr>"
  let ?t = "if sarena ?s then releaseArenaSlot env (sentries ?s) ?t1
    else if soffheap ?s then ?t1\<lparr>tmaps := tmaps ?t1 - 1\<rparr> else ?t1"
  have g: "growSub env K b t = Some ?t"
    using cap r(1) pos by (simp add: growSub_def Let_def al fill twoLevelMaxSubBits_def)
  have sb: "subs ?t = (subs t)[b := ?s']" by simp
  have "bucket K (k_key K e) = b" if "e \<in> contents (k_occ K) r" for e
    using d(4) r(4) that entry_at_Some [OF tableD(4) [OF r(3)]] entry_at_Some [OF tableD(4) [OF d(1)]] by metis
  then have "sub_ok K b ?s'" unfolding sub_ok_def using r d(3) by simp
  moreover have "backing_ok ?t"
    by (rule backing_grow [OF bo _ refl]) (use b len so in \<open>simp_all add: sub_ok_def\<close>)
  ultimately have ok': "tl_ok K ?t"
    using ok b len unfolding tl_ok_def sb by (simp add: nth_list_update)
  have "tl_map K ?t = tl_map K (t\<lparr>subs := (subs t)[b := ?s']\<rparr>)" by (simp add: tl_map_def fun_eq_iff)
  also have "\<dots> = tl_map K t"
    using tl_map_update [of b t K ?s'] b len r(4) by (auto simp: fun_eq_iff tl_map_def)
  finally have "tl_map K ?t = tl_map K t" .
  with g ok' sb r(2) show ?thesis by (intro exI [of _ ?t] exI [of _ ?s']) simp
qed

lemma tl_occupy_ok:
  assumes f: "tl_fit K (Suc m) t" and b: "b = bucket K (k_key K e)" and e: "k_occ K e" "tl_map K t (k_key K e) = None"
    and idx: "unat idx < length (sentries (subs t ! b))" "\<not> k_occ K (sentries (subs t ! b) ! unat idx)"
      "path (k_occ K) (sentries (subs t ! b)) (home (sub_hash K) (length (sentries (subs t ! b))) (k_key K e)) (unat idx)"
  shows "\<exists>t'. tl_occupy env K b idx e t = Some t' \<and> tl_fit K m t' \<and> tl_map K t' = (tl_map K t)(k_key K e \<mapsto> e)"
proof -
  let ?s = "subs t ! b"
  let ?s1 = "?s\<lparr>sentries := (sentries ?s)[unat idx := e], ssize := ssize ?s + 1\<rparr>"
  let ?t1 = "t\<lparr>subs := (subs t)[b := ?s1]\<rparr>"
  have bl: "b < 256" unfolding b by (rule bucket_less)
  have ok: "tl_ok K t" and len: "length (subs t) = 256" and so: "sub_ok K b ?s" and bo: "backing_ok t"
    using f bl by (simp_all add: tl_fit_def tl_ok_def)
  have sz: "16 \<le> length (sentries ?s)" "ssize ?s * 10 \<le> length (sentries ?s) * 7" "length (sentries ?s) \<le> 2 ^ 34"
    "3 * (ssize ?s + Suc m) \<le> 2 ^ 34" using f bl unfolding tl_fit_def Let_def by blast+
  note d = sub_okD [OF so]
  have nn: "entry_at (k_occ K) (k_key K) (sentries ?s) (k_key K e) = None" using e(2) b by (simp add: tl_map_def)
  have room: "Suc (used (k_occ K) (sentries ?s)) < length (sentries ?s)" using sz(1,2) d(3) by simp
  note i = probing.insert_map [OF d(1) idx(1,2) e(1) nn idx(3) room]
  have cont: "contents (k_occ K) ((sentries ?s)[unat idx := e]) = insert e (contents (k_occ K) (sentries ?s))"
    using probing.insert_ok(4) [OF d(1) idx(1,2) e(1) _ idx(3)] nn by (simp add: entry_at_None)
  have s1: "sub_ok K b ?s1"
    unfolding sub_ok_def using i d cont b so by (auto simp: sub_ok_def)
  have "backing_ok ?t1"
    using bo used_update [of b "subs t" sarena ?s1] used_update [of b "subs t" "\<lambda>s. soffheap s \<and> \<not> sarena s" ?s1] bl len
    by (simp add: backing_ok_def split: if_splits)
  then have ok1: "tl_ok K ?t1" using ok s1 bl by (simp add: tl_ok_def nth_list_update)
  have m1: "tl_map K ?t1 = (tl_map K t)(k_key K e \<mapsto> e)"
    using tl_map_update [of b t K ?s1] bl len i(2) b by (auto simp: fun_eq_iff tl_map_def)
  have rest: "16 \<le> length (sentries (subs t ! c)) \<and> ssize (subs t ! c) * 10 \<le> length (sentries (subs t ! c)) * 7 \<and>
      length (sentries (subs t ! c)) \<le> 2 ^ 34 \<and> 3 * (ssize (subs t ! c) + m) \<le> 2 ^ 34" if "c < 256" for c
  proof -
    have "16 \<le> length (sentries (subs t ! c)) \<and> ssize (subs t ! c) * 10 \<le> length (sentries (subs t ! c)) * 7 \<and>
      length (sentries (subs t ! c)) \<le> 2 ^ 34 \<and> 3 * (ssize (subs t ! c) + Suc m) \<le> 2 ^ 34"
      using f that unfolding tl_fit_def Let_def by blast
    then show ?thesis by auto
  qed
  show ?thesis
  proof (cases "ssize ?s1 * 10 > length (sentries ?s1) * 7")
    case False
    then have "tl_fit K m ?t1"
      using ok1 rest sz len bl unfolding tl_fit_def by (simp add: Let_def nth_list_update)
    with False m1 show ?thesis by (simp add: tl_occupy_def Let_def)
  next
    case True
    have at: "subs ?t1 ! b = ?s1" using len bl by simp
    have "length (sentries (subs ?t1 ! b)) * 2 < 2 ^ 36" using sz(3) unfolding at by simp
    from growSub_ok [OF ok1 bl this, of env] obtain t' s' where
      g: "growSub env K b ?t1 = Some t'" "tl_ok K t'" "tl_map K t' = tl_map K ?t1" "subs t' = (subs ?t1)[b := s']"
        "length (sentries s') = 2 * length (sentries ?s1)" "ssize s' = ssize ?s1"
      unfolding at by blast
    have "tl_fit K m t'"
      unfolding tl_fit_def Let_def
    proof (intro conjI [OF g(2)] allI impI)
      fix c :: nat assume c: "c < 256"
      show "16 \<le> length (sentries (subs t' ! c)) \<and> ssize (subs t' ! c) * 10 \<le> length (sentries (subs t' ! c)) * 7 \<and>
        length (sentries (subs t' ! c)) \<le> 2 ^ 34 \<and> 3 * (ssize (subs t' ! c) + m) \<le> 2 ^ 34"
      proof (cases "c = b")
        case False
        then show ?thesis using rest [OF c] g(4) by simp
      next
        case at': True
        have "subs t' ! c = s'" using g(4) at' len bl by simp
        then show ?thesis using g(5,6) sz True by simp
      qed
    qed
    with True g m1 show ?thesis by (simp add: tl_occupy_def Let_def)
  qed
qed

lemma tl_find_Some:
  assumes ok: "tl_ok K t" and e: "tl_map K t k = Some e"
  shows "\<exists>r. tl_find K k (k_hash K k) t = Some r \<and> unat r < length (sentries (subs t ! bucket K k)) \<and>
    sentries (subs t ! bucket K k) ! unat r = e \<and> k_occ K e \<and> k_key K e = k"
proof -
  note d = sub_okD [of K "bucket K k" "subs t ! bucket K k"]
  have so: "sub_ok K (bucket K k) (subs t ! bucket K k)" by (rule tl_sub [OF ok])
  from probing.lookup_Some [OF d(1) [OF so] e [unfolded tl_map_def]] show ?thesis
    by (simp add: tl_find_def Let_def bucket_def [symmetric] d(2) [OF so] sub_hash_def)
qed

lemma tl_find_None:
  assumes ok: "tl_ok K t" and e: "tl_map K t k = None"
  shows "\<exists>r. tl_find K k (k_hash K k) t = Some r \<and> unat r < length (sentries (subs t ! bucket K k)) \<and>
    \<not> k_occ K (sentries (subs t ! bucket K k) ! unat r) \<and>
    path (k_occ K) (sentries (subs t ! bucket K k))
      (home (sub_hash K) (length (sentries (subs t ! bucket K k))) k) (unat r)"
proof -
  note d = sub_okD [of K "bucket K k" "subs t ! bucket K k"]
  have so: "sub_ok K (bucket K k) (subs t ! bucket K k)" by (rule tl_sub [OF ok])
  from probing.lookup_None [OF d(1) [OF so] e [unfolded tl_map_def]] show ?thesis
    by (simp add: tl_find_def Let_def bucket_def [symmetric] d(2) [OF so] sub_hash_def)
qed

lemma convert_loop_ok:
  assumes "tl_fit K (length es + m) t" and "uniq (k_occ K) (k_key K) es"
    and "\<And>e. e \<in> contents (k_occ K) es \<Longrightarrow> tl_map K t (k_key K e) = None"
  shows "\<exists>t'. convert_loop env K es t = Some t' \<and> tl_fit K m t' \<and>
    tl_map K t' = tl_map K t ++ entry_at (k_occ K) (k_key K) es"
  using assms
proof (induction es arbitrary: t)
  case Nil
  then show ?case by (simp add: tl_fit_def entry_at_def map_add_def fun_eq_iff)
next
  case (Cons e es)
  note u = uniq_Cons(1) [OF Cons.prems(2)]
  have f': "tl_fit K (length es + m) t"
    using Cons.prems(1) unfolding tl_fit_def Let_def by fastforce
  show ?case
  proof (cases "k_occ K e")
    case False
    then have "entry_at (k_occ K) (k_key K) (e # es) = entry_at (k_occ K) (k_key K) es"
      by (simp add: entry_at_def fun_eq_iff)
    with False Cons.IH [OF f' u] Cons.prems(3) show ?thesis by simp
  next
    case o: True
    let ?k = "k_key K e" and ?s = "subs t ! bucket K (k_key K e)"
    have n: "tl_map K t ?k = None" using Cons.prems(3) [of e] o by simp
    have so: "sub_ok K (bucket K ?k) ?s" using f' by (intro tl_sub) (simp add: tl_fit_def)
    note d = sub_okD [OF so]
    obtain q where q: "first_free (k_occ K) (sentries ?s) (smask ?s) (sub_hash K ?k AND smask ?s) (length (sentries ?s)) = Some q"
      "unat q < length (sentries ?s)" "\<not> k_occ K (sentries ?s ! unat q)"
      "path (k_occ K) (sentries ?s) (home (sub_hash K) (length (sentries ?s)) ?k) (unat q)"
      using probing.first_free_finds [OF tableD(1,5) [OF d(1)], of "sub_hash K" ?k] d(2) by auto
    obtain t' where t': "tl_occupy env K (bucket K ?k) q e t = Some t'" "tl_fit K (length es + m) t'"
      "tl_map K t' = (tl_map K t)(?k \<mapsto> e)"
      using tl_occupy_ok [OF _ refl o n q(2-4), of "length es + m" env] Cons.prems(1) by auto
    note dk = uniq_Cons(2) [OF Cons.prems(2) o]
    have "tl_map K t' (k_key K x) = None" if "x \<in> contents (k_occ K) es" for x
      using Cons.prems(3) [of x] that dk [OF that] o t'(3) by simp
    with Cons.IH [OF t'(2) u] obtain t'' where t'': "convert_loop env K es t' = Some t''" "tl_fit K m t''"
      "tl_map K t'' = tl_map K t' ++ entry_at (k_occ K) (k_key K) es" by blast
    have "entry_at (k_occ K) (k_key K) es ?k = None" using dk by (simp add: entry_at_None)
    then have "tl_map K t'' = tl_map K t ++ entry_at (k_occ K) (k_key K) (e # es)"
      using t''(3) t'(3) o by (auto simp: fun_eq_iff map_add_def entry_at_def split: option.splits)
    with o q(1) t'(1) t''(1,2) show ?thesis by (simp add: Let_def bucket_def [symmetric] sub_hash_def)
  qed
qed

lemma newTwoLevelSub_ok:
  assumes n: "pow2 n" "16 \<le> n" "n \<le> 2 ^ 34" "3 * m \<le> 2 ^ 34"
  shows "tl_fit K m (newTwoLevelSub env K n rg)" "tl_map K (newTwoLevelSub env K n rg) = Map.empty"
proof -
  let ?t = "newTwoLevelSub env K n rg"
  have pos: "0 < n" using n(2) by simp
  note fr = fresh_ok(1) [where occ = "k_occ K" and kf = "k_key K" and hf = "sub_hash K", OF n(1) blank_free]
    fresh_ok(2,3) [where occ = "k_occ K", OF n(1) blank_free]
  have slice: "min n (256 * n - i * n) = n" if "i < 256" for i
  proof -
    have "Suc i * n \<le> 256 * n" using that by (intro mult_le_mono1) simp
    then have "n \<le> 256 * n - i * n" by (simp only: mult_Suc)
    then show ?thesis by (simp only: min.absorb1)
  qed
  have len: "length (subs ?t) = 256"
    by (simp add: newTwoLevelSub_def twoLevelBuckets_def Let_def)
  have sub: "sentries (subs ?t ! b) = replicate n blank \<and> smask (subs ?t ! b) = msk_of n \<and> ssize (subs ?t ! b) = 0 \<and>
      (sarena (subs ?t ! b) \<longrightarrow> soffheap (subs ?t ! b))" if "b < 256" for b
    using that pos by (simp add: newTwoLevelSub_def twoLevelBuckets_def Let_def slice new_heap_sub_def
        allocSubEntries_def fill)
  have "backing_ok ?t"
    by (simp add: backing_ok_def newTwoLevelSub_def twoLevelBuckets_def Let_def used_def new_heap_sub_def
        allocSubEntries_def filter_map comp_def)
  then have "tl_ok K ?t" using len sub fr unfolding tl_ok_def sub_ok_def by simp
  then show "tl_fit K m ?t" using sub n unfolding tl_fit_def Let_def by simp
  have "tl_map K ?t k = None" for k
    using sub [OF bucket_less [of K k]] fr(3) by (simp add: tl_map_def entry_at_None)
  then show "tl_map K ?t = Map.empty" by (simp add: fun_eq_iff)
qed

end

section \<open>The int table against the map\<close>

interpretation itl: bucketed int_kind "zero_entry\<lparr>ekey := intHashEmpty\<rparr>"
proof
  show "k_fill int_kind (replicate n (k_zero int_kind)) = replicate n (zero_entry\<lparr>ekey := intHashEmpty\<rparr>)"
    if "0 < n" for n
    using fillEmpty_replicate [OF that] by (simp add: int_kind_def)
  show "\<not> k_occ int_kind (zero_entry\<lparr>ekey := intHashEmpty\<rparr>)" by (simp add: int_kind_def ih_occ_def)
qed

definition itl_map :: "int_two_level \<Rightarrow> i64 \<Rightarrow> i32 option" where
  "itl_map t k = map_option eval (tl_map int_kind t k)"

lemma int_kind_sel [simp]:
  "k_occ int_kind = ih_occ" "k_key int_kind = ekey" "k_hash int_kind = fibHash" "k_zero int_kind = zero_entry"
  "k_fill int_kind = fillEmptyEntries" "k_bytes int_kind = 16"
  by (simp_all add: int_kind_def)

lemma int_bucket: "unat (bucketOf (fibHash k)) = bucket int_kind k"
  by (simp add: bucket_def)

lemma tl_fit_pred: "tl_fit K (Suc m) t \<Longrightarrow> tl_fit K m t"
  unfolding tl_fit_def Let_def by fastforce

lemma tl_Get_ok:
  assumes "tl_ok int_kind t"
  shows "tl_Get key t = Some (found 0 (itl_map t key))"
proof (cases "tl_map int_kind t key")
  case None
  with itl.tl_find_None [OF assms None] show ?thesis
    by (auto simp: tl_Get_def itl_map_def found_def ih_occ_def int_bucket Let_def)
next
  case (Some e)
  with itl.tl_find_Some [OF assms Some] show ?thesis
    by (auto simp: tl_Get_def itl_map_def found_def ih_occ_def int_bucket Let_def)
qed

lemma tl_GetOrInsert_ok:
  assumes f: "tl_fit int_kind (Suc m) t" and k: "key \<noteq> intHashEmpty"
  shows "\<exists>t'. tl_GetOrInsert env key v t = Some (found v (itl_map t key), t') \<and> tl_fit int_kind m t' \<and>
    itl_map t' = (if itl_map t key = None then (itl_map t)(key \<mapsto> v) else itl_map t)"
proof -
  have ok: "tl_ok int_kind t" using f by (simp add: tl_fit_def)
  show ?thesis
  proof (cases "tl_map int_kind t key")
    case None
    let ?b = "bucket int_kind key"
    obtain r where r: "tl_find int_kind key (fibHash key) t = Some r" "unat r < length (sentries (subs t ! ?b))"
      "\<not> ih_occ (sentries (subs t ! ?b) ! unat r)"
      "path ih_occ (sentries (subs t ! ?b)) (home (sub_hash int_kind) (length (sentries (subs t ! ?b))) key) (unat r)"
      using itl.tl_find_None [OF ok None] by auto
    let ?e = "(sentries (subs t ! ?b) ! unat r)\<lparr>ekey := key, eval := v\<rparr>"
    have o: "k_occ int_kind ?e" using k by (simp add: ih_occ_def)
    have "\<exists>t'. tl_occupy env int_kind ?b r ?e t = Some t' \<and> tl_fit int_kind m t' \<and>
        tl_map int_kind t' = (tl_map int_kind t)(k_key int_kind ?e \<mapsto> ?e)"
      by (rule itl.tl_occupy_ok [OF f]) (use o None r in simp_all)
    then obtain t' where t': "tl_occupy env int_kind ?b r ?e t = Some t'" "tl_fit int_kind m t'"
        "tl_map int_kind t' = (tl_map int_kind t)(key \<mapsto> ?e)" by auto
    then have "itl_map t' = (itl_map t)(key \<mapsto> v)" by (simp add: fun_eq_iff itl_map_def)
    with t' r None show ?thesis
      by (auto simp: tl_GetOrInsert_def tl_GetOrInsertAt_def found_def itl_map_def ih_occ_def int_bucket Let_def)
  next
    case (Some e)
    with itl.tl_find_Some [OF ok Some] tl_fit_pred [OF f] show ?thesis
      by (auto simp: tl_GetOrInsert_def tl_GetOrInsertAt_def found_def itl_map_def ih_occ_def int_bucket Let_def)
  qed
qed

lemma tl_Delete_ok:
  assumes ok: "tl_ok int_kind t"
  shows "\<exists>t'. tl_Delete key t = (found 0 (itl_map t key), t') \<and> tl_ok int_kind t' \<and>
    itl_map t' = (itl_map t)(key := None) \<and> (\<forall>m. tl_fit int_kind m t \<longrightarrow> tl_fit int_kind m t')"
proof (cases "tl_map int_kind t key")
  case None
  then have "(itl_map t)(key := None) = itl_map t" by (auto simp: itl_map_def)
  with itl.tl_find_None [OF ok None] ok None show ?thesis
    by (auto simp: tl_Delete_def tl_find_def find_bounded_probe found_def itl_map_def int_bucket Let_def)
next
  case (Some e)
  let ?b = "bucket int_kind key"
  let ?s = "subs t ! ?b"
  have bl: "?b < 256" by (rule bucket_less)
  have so: "sub_ok int_kind ?b ?s" by (rule tl_sub [OF ok])
  note d = sub_okD [OF so, unfolded int_kind_sel]
  have len: "length (subs t) = 256" and bo: "backing_ok t" using ok by (simp_all add: tl_ok_def)
  obtain r where r: "tl_find int_kind key (fibHash key) t = Some r" "unat r < length (sentries ?s)"
    "sentries ?s ! unat r = e" "ih_occ e" "ekey e = key"
    using itl.tl_find_Some [OF ok Some] by auto
  have o: "ih_occ (sentries ?s ! unat r)" using r(3,4) by simp
  obtain es i where bs: "back_shift ih_occ ekey (sub_hash int_kind) (smask ?s) (sentries ?s) r r (length (sentries ?s)) = (es, i)"
    by fastforce
  let ?e = "(es ! unat i)\<lparr>ekey := intHashEmpty\<rparr>"
  let ?s' = "?s\<lparr>sentries := es[unat i := ?e], ssize := ssize ?s - 1\<rparr>"
  let ?t = "t\<lparr>subs := (subs t)[?b := ?s']\<rparr>"
  have no: "\<not> ih_occ ?e" by (simp add: ih_occ_def)
  note del = probing.delete_ok [OF d(1) r(2) o no bs [unfolded d(2)]]
    and map = probing.delete_map [OF d(1) r(2) o no bs [unfolded d(2)]]
  have "sub_ok int_kind ?b ?s'" unfolding sub_ok_def using del d so by (auto simp: sub_ok_def)
  moreover have "backing_ok ?t"
    using bo used_update [of ?b "subs t" sarena ?s'] used_update [of ?b "subs t" "\<lambda>s. soffheap s \<and> \<not> sarena s" ?s'] bl len
    by (simp add: backing_ok_def split: if_splits)
  ultimately have ok': "tl_ok int_kind ?t" using ok bl len by (simp add: tl_ok_def nth_list_update)
  have "tl_fit int_kind m ?t" if "tl_fit int_kind m t" for m
    unfolding tl_fit_def Let_def
  proof (intro conjI [OF ok'] allI impI)
    fix c :: nat assume "c < 256"
    then have "16 \<le> length (sentries (subs t ! c)) \<and> ssize (subs t ! c) * 10 \<le> length (sentries (subs t ! c)) * 7 \<and>
      length (sentries (subs t ! c)) \<le> 2 ^ 34 \<and> 3 * (ssize (subs t ! c) + m) \<le> 2 ^ 34"
      using that unfolding tl_fit_def Let_def by blast
    then show "16 \<le> length (sentries (subs ?t ! c)) \<and> ssize (subs ?t ! c) * 10 \<le> length (sentries (subs ?t ! c)) * 7 \<and>
      length (sentries (subs ?t ! c)) \<le> 2 ^ 34 \<and> 3 * (ssize (subs ?t ! c) + m) \<le> 2 ^ 34"
      using del(2) bl len by (cases "c = ?b") (simp_all, linarith)
  qed
  moreover note ok'
  moreover have "itl_map ?t = (itl_map t)(key := None)"
    using tl_map_update [of ?b t int_kind ?s'] bl len map r(3,5) by (auto simp: fun_eq_iff itl_map_def tl_map_def)
  moreover have "tl_Delete key t = ((eval e, True), ?t)"
    using r bs o by (auto simp: tl_Delete_def tl_find_def find_bounded_probe sub_hash_def int_bucket Let_def)
  ultimately show ?thesis using Some by (simp add: found_def itl_map_def)
qed

section \<open>Conversion of a flat table\<close>

lemma subCapForFlatSlots_ok:
  assumes "pow2 n" and "n \<le> 2 ^ 34"
  shows "pow2 (subCapForFlatSlots n)" "16 \<le> subCapForFlatSlots n" "subCapForFlatSlots n \<le> 2 ^ 34"
proof -
  obtain b where b: "n = 2 ^ b" "b \<le> 63" using assms(1) by (auto simp: pow2_def)
  have "pow2 16" unfolding pow2_def by (rule exI [of _ 4]) simp
  moreover have "pow2 (n div 256)" if "16 \<le> n div 256"
  proof -
    have "8 \<le> b"
    proof (rule ccontr)
      assume "\<not> 8 \<le> b"
      then have "(2::nat) ^ b < 2 ^ 8" by (intro power_strict_increasing) simp_all
      then show False using that b(1) by simp
    qed
    then have "n div 256 = 2 ^ (b - 8)" using power_diff [of "2::nat" 8 b] b(1) by simp
    then show ?thesis unfolding pow2_def using b(2) by (intro exI [of _ "b - 8"]) simp
  qed
  ultimately show "pow2 (subCapForFlatSlots n)"
    by (simp add: subCapForFlatSlots_def twoLevelBuckets_def twoLevelMinSubCap_def Let_def)
  show "16 \<le> subCapForFlatSlots n"
    by (simp add: subCapForFlatSlots_def twoLevelBuckets_def twoLevelMinSubCap_def Let_def)
  have "n div 256 \<le> n" by simp
  then have "n div 256 \<le> 2 ^ 34" using assms(2) by linarith
  then show "subCapForFlatSlots n \<le> 2 ^ 34"
    by (simp add: subCapForFlatSlots_def twoLevelBuckets_def twoLevelMinSubCap_def Let_def)
qed

lemma convert_ok:
  assumes ok: "ih_ok flat" and le: "length (entries flat) \<le> 2 ^ 32" "m \<le> 2 ^ 30"
  shows "\<exists>t f. convertIntHashTableToTwoLevel env flat rg = Some (t, f) \<and> tl_fit int_kind m t \<and>
    itl_map t = ih_map flat \<and> regMaps f = 0 \<and> entries f = []"
proof -
  let ?n = "subCapForFlatSlots (length (entries flat))"
  let ?t = "newTwoLevelSub env int_kind ?n rg"
  note d = ih_okD [OF ok]
  have p: "pow2 (length (entries flat))" by (rule tableD(1) [OF d(1)])
  have le': "length (entries flat) \<le> 2 ^ 34" using le by simp
  have m: "3 * (length (entries flat) + m) \<le> 2 ^ 34" using le by simp
  note new = itl.newTwoLevelSub_ok [OF subCapForFlatSlots_ok [OF p le'] m, of env rg]
  obtain t where t: "convert_loop env int_kind (entries flat) ?t = Some t" "tl_fit int_kind m t"
    "tl_map int_kind t = tl_map int_kind ?t ++ entry_at ih_occ ekey (entries flat)"
    using itl.convert_loop_ok [OF new(1), of env] tableD(4) [OF d(1)] new(2) by auto
  have "itl_map t = ih_map flat" using t(3) new(2) by (simp add: fun_eq_iff itl_map_def ih_map_def)
  moreover have "regMaps (freeEntries flat) = 0 \<and> entries (freeEntries flat) = []"
    using ok d(5) by (auto simp: freeEntries_def ih_ok_def)
  ultimately show ?thesis using t(1,2) by (simp add: convertIntHashTableToTwoLevel_def Let_def)
qed

lemma Len_card: "ih_ok h \<Longrightarrow> Len h = card (dom (ih_map h))"
  using used_card [OF tableD(4) [OF ih_okD(1)], of h] ih_okD(3) [of h]
  by (simp add: Len_def ih_map_def dom_map_option_comp [unfolded comp_def] dom_def)

section \<open>Properties\<close>

text \<open>
  C7: Replacing the flat index by the bucketed one loses and invents nothing. From any well-formed flat table of
  at most 2^32 slots the conversion returns; afterwards every lookup answers as before, the entry count is the
  same, the flat table has given its reservation back, and every reservation the new table caused is accounted
  to the arena or to one bucket.
\<close>

theorem conversion_preserves_index:
  assumes "ih_ok flat" and "length (entries flat) \<le> 2 ^ 32"
  shows "\<exists>t f. convertIntHashTableToTwoLevel env flat rg = Some (t, f) \<and> (\<forall>key. tl_Get key t = Get key flat) \<and>
    tl_Len t = Len flat \<and> regMaps f = 0 \<and> backing_ok t"
proof -
  obtain t f where t: "convertIntHashTableToTwoLevel env flat rg = Some (t, f)" "tl_fit int_kind 0 t"
    "itl_map t = ih_map flat" "regMaps f = 0"
    using convert_ok [OF assms, of 0 env rg] by auto
  have ok: "tl_ok int_kind t" using t(2) by (simp add: tl_fit_def)
  have "tl_Get key t = Get key flat" for key
    using tl_Get_ok [OF ok, of key] Get_ok [OF assms(1), of key] t(3) by (simp add: found_def)
  moreover have "dom (tl_map int_kind t) = dom (itl_map t)" by (auto simp: itl_map_def dom_def)
  then have "tl_Len t = Len flat" using tl_Len_card [OF ok] Len_card [OF assms(1)] t(3) by simp
  ultimately show ?thesis using t ok by (auto simp: tl_ok_def)
qed

theorem conversion_preserves_index_witness:
  "\<exists>t f. convertIntHashTableToTwoLevel \<lparr>exact = \<lambda>i _. even i, discarded = \<lambda>_. int\<rparr> (newIntHashTable 3) True = Some (t, f) \<and>
     tl_Len t = 0 \<and> backing_ok t"
proof -
  note new = newIntHashTable_ok [of 3 "\<lambda>_. False" False, folded newIntHashTable_def]
  have "round_cap 16 (3 + 3 div 3) = 16" by (subst round_cap.simps) simp
  then have "length (entries (newIntHashTable 3)) \<le> 2 ^ 32"
    by (simp add: newIntHashTable_def newIntHashTableReg_def allocEntries_def fillEmpty_replicate Let_def)
  then show ?thesis
    using conversion_preserves_index [of "newIntHashTable 3" "\<lparr>exact = \<lambda>i _. even i, discarded = \<lambda>_. int\<rparr>" True] new(1,3)
    by (auto simp: Len_def)
qed

end
