(* ===== verification/Packed_Hash.thy ===== *)
theory Packed_Hash
  imports Two_Level
begin

text \<open>
  Packed composite GROUP BY keys (\<^verbatim>\<open>internal/engine/exec/packed_hash.go\<close> and the packed half of
  \<^verbatim>\<open>two_level_hash.go\<close>): the layout that places two to four integer columns in a 128-bit key, the key
  of a row and the reading back of a column, the flat table from such keys to group ids, and its bucketed form
  as another instance of the bucketed table. A slot is free when its value is -1. The conventions for off-heap
  memory and for loops that never end are those of the int table.
\<close>

section \<open>Definitions: tables\<close>

record ph_entry =
  plo :: u64
  phi :: u64
  pval :: i32

record packed_hash =
  pentries :: "ph_entry list"
  pmask :: u64
  psize :: nat
  phasReg :: bool
  pregMaps :: nat
  pentriesOffheap :: bool

definition packedHashEmpty :: i32 where "packedHashEmpty = - 1"

definition ph_occ :: "ph_entry \<Rightarrow> bool" where "ph_occ e = (pval e \<noteq> packedHashEmpty)"

definition ph_key :: "ph_entry \<Rightarrow> u64 \<times> u64" where "ph_key e = (plo e, phi e)"

definition zero_pentry :: ph_entry where "zero_pentry = \<lparr>plo = 0, phi = 0, pval = 0\<rparr>"

text \<open>\<^verbatim>\<open>bits.Mul64\<close>: the high and the low word of the full product.\<close>

definition Mul64 :: "u64 \<Rightarrow> u64 \<Rightarrow> u64 \<times> u64" where
  "Mul64 x y = (of_nat ((unat x * unat y) div 2 ^ 64), x * y)"

definition packedHash :: "u64 \<times> u64 \<Rightarrow> u64" where
  "packedHash k =
     (let (lo, hi) = k; (hp, lp) = Mul64 (lo XOR 0x9E3779B97F4A7C15) (hi XOR 0x517CC1B727220A95)
      in hp XOR lp XOR (lo + hi))"

definition p_allocEntries :: "(nat \<Rightarrow> bool) \<Rightarrow> nat \<Rightarrow> packed_hash \<Rightarrow> ph_entry list \<times> packed_hash" where
  "p_allocEntries fits n h =
     (if phasReg h \<and> fits n
      then (replicate n zero_pentry, h\<lparr>pentriesOffheap := True, pregMaps := pregMaps h + 1\<rparr>)
      else (replicate n zero_pentry, h\<lparr>pentriesOffheap := False\<rparr>))"

definition fillEmptyPackedEntries :: "ph_entry list \<Rightarrow> ph_entry list" where
  "fillEmptyPackedEntries es =
     (if es = [] then es else fill_double 1 (es[0 := (es ! 0)\<lparr>pval := packedHashEmpty\<rparr>]))"

definition newPackedHashTableReg :: "(nat \<Rightarrow> bool) \<Rightarrow> nat \<Rightarrow> bool \<Rightarrow> packed_hash" where
  "newPackedHashTableReg fits n rg =
     (let c = round_cap 16 (n + n div 3);
          h = \<lparr>pentries = [], pmask = 0, psize = 0, phasReg = rg, pregMaps = 0, pentriesOffheap = False\<rparr>;
          (es, h) = p_allocEntries fits c h
      in h\<lparr>pentries := fillEmptyPackedEntries es, pmask := msk_of c\<rparr>)"

definition p_grow :: "(nat \<Rightarrow> bool) \<Rightarrow> packed_hash \<Rightarrow> packed_hash option" where
  "p_grow fits h =
     (let newCap = length (pentries h) * 2;
          oldOffheap = pentriesOffheap h;
          old = pentries h;
          (es, h) = p_allocEntries fits newCap h;
          newMask = msk_of newCap
      in case rehash ph_occ ph_key packedHash newMask old (fillEmptyPackedEntries es) of
           None \<Rightarrow> None
         | Some new \<Rightarrow>
             Some (h\<lparr>pregMaps := (if oldOffheap then pregMaps h - 1 else pregMaps h),
                     pentries := new, pmask := newMask\<rparr>))"

definition p_find_slot :: "packed_hash \<Rightarrow> u64 \<times> u64 \<Rightarrow> u64 \<Rightarrow> u64 option" where
  "p_find_slot h k hash =
     probe ph_occ ph_key (pentries h) (pmask h) k (hash AND pmask h) (length (pentries h))"

definition p_Get :: "u64 \<Rightarrow> u64 \<Rightarrow> packed_hash \<Rightarrow> (i32 \<times> bool) option" where
  "p_Get lo hi h =
     (case p_find_slot h (lo, hi) (packedHash (lo, hi)) of
        None \<Rightarrow> None
      | Some idx \<Rightarrow>
          let e = pentries h ! unat idx in
          if pval e = packedHashEmpty then Some (0, False) else Some (pval e, True))"

definition p_GetOrInsertNoGrowAt :: "u64 \<Rightarrow> u64 \<Rightarrow> u64 \<Rightarrow> i32 \<Rightarrow> packed_hash \<Rightarrow> (i32 \<times> packed_hash) option" where
  "p_GetOrInsertNoGrowAt lo hi hash v h =
     (case p_find_slot h (lo, hi) hash of
        None \<Rightarrow> None
      | Some idx \<Rightarrow>
          let e = pentries h ! unat idx in
          if pval e = packedHashEmpty
          then Some (v, h\<lparr>pentries := (pentries h)[unat idx := e\<lparr>plo := lo, phi := hi, pval := v\<rparr>],
                          psize := psize h + 1\<rparr>)
          else Some (pval e, h))"

definition p_GetOrInsertNoGrow :: "u64 \<Rightarrow> u64 \<Rightarrow> i32 \<Rightarrow> packed_hash \<Rightarrow> (i32 \<times> packed_hash) option" where
  "p_GetOrInsertNoGrow lo hi v h = p_GetOrInsertNoGrowAt lo hi (packedHash (lo, hi)) v h"

definition p_CheckGrow :: "(nat \<Rightarrow> bool) \<Rightarrow> packed_hash \<Rightarrow> packed_hash option" where
  "p_CheckGrow fits h = (if psize h * 10 > length (pentries h) * 7 then p_grow fits h else Some h)"

definition p_GetOrInsert :: "(nat \<Rightarrow> bool) \<Rightarrow> u64 \<Rightarrow> u64 \<Rightarrow> i32 \<Rightarrow> packed_hash \<Rightarrow> ((i32 \<times> bool) \<times> packed_hash) option" where
  "p_GetOrInsert fits lo hi v h =
     (case p_GetOrInsertNoGrow lo hi v h of
        None \<Rightarrow> None
      | Some (got, h) \<Rightarrow>
          if got = v then map_option (\<lambda>h. ((got, False), h)) (p_CheckGrow fits h)
          else Some ((got, True), h))"

partial_function (option) p_EnsureCapacity :: "(nat \<Rightarrow> bool) \<Rightarrow> nat \<Rightarrow> packed_hash \<Rightarrow> packed_hash option" where
  "p_EnsureCapacity fits additional h =
     (if (psize h + additional) * 10 > length (pentries h) * 7
      then Option.bind (p_grow fits h) (p_EnsureCapacity fits additional)
      else Some h)"

definition p_Len :: "packed_hash \<Rightarrow> nat" where "p_Len h = psize h"
definition p_Slots :: "packed_hash \<Rightarrow> nat" where "p_Slots h = length (pentries h)"
definition p_MemoryUsage :: "packed_hash \<Rightarrow> nat" where "p_MemoryUsage h = length (pentries h) * 24"

definition p_ForEach :: "packed_hash \<Rightarrow> (u64 \<times> u64 \<times> i32) list" where
  "p_ForEach h = map (\<lambda>e. (plo e, phi e, pval e)) (filter (\<lambda>e. pval e \<noteq> packedHashEmpty) (pentries h))"

definition p_freeEntries :: "packed_hash \<Rightarrow> packed_hash" where
  "p_freeEntries h =
     h\<lparr>pregMaps := (if pentriesOffheap h \<and> pentries h \<noteq> [] then pregMaps h - 1 else pregMaps h),
       pentries := [], pentriesOffheap := False, pmask := 0, psize := 0\<rparr>"

definition packed_kind :: "(ph_entry, u64 \<times> u64) table_kind" where
  "packed_kind = \<lparr>k_occ = ph_occ, k_key = ph_key, k_hash = packedHash, k_zero = zero_pentry,
     k_fill = fillEmptyPackedEntries, k_bytes = 24\<rparr>"

type_synonym packed_two_level = "ph_entry two_level"

definition newPackedTwoLevelTable :: "offheap \<Rightarrow> nat \<Rightarrow> bool \<Rightarrow> packed_two_level" where
  "newPackedTwoLevelTable env n rg = newTwoLevel env packed_kind n rg"

definition ptl_growSub :: "offheap \<Rightarrow> nat \<Rightarrow> packed_two_level \<Rightarrow> packed_two_level option" where
  "ptl_growSub env b t = growSub env packed_kind b t"

definition ptl_Len :: "packed_two_level \<Rightarrow> nat" where "ptl_Len t = tl_Len t"

definition ptl_MemoryUsage :: "nat \<Rightarrow> packed_two_level \<Rightarrow> int" where
  "ptl_MemoryUsage header t = tl_MemoryUsage packed_kind header t"

definition ptl_ForEach :: "packed_two_level \<Rightarrow> (u64 \<times> u64 \<times> i32) list" where
  "ptl_ForEach t = map (\<lambda>e. (plo e, phi e, pval e)) (tl_ForEach packed_kind t)"

definition convertPackedHashTableToTwoLevel :: "offheap \<Rightarrow> packed_hash \<Rightarrow> bool \<Rightarrow> (packed_two_level \<times> packed_hash) option" where
  "convertPackedHashTableToTwoLevel env flat rg =
     (let t = newTwoLevelSub env packed_kind (subCapForFlatSlots (length (pentries flat))) rg
      in map_option (\<lambda>t. (t, p_freeEntries flat)) (convert_loop env packed_kind (pentries flat) t))"

definition ptl_GetOrInsertAt :: "offheap \<Rightarrow> u64 \<Rightarrow> u64 \<Rightarrow> u64 \<Rightarrow> i32 \<Rightarrow> packed_two_level \<Rightarrow> (i32 \<times> packed_two_level) option" where
  "ptl_GetOrInsertAt env lo hi hash v t =
     (case tl_find packed_kind (lo, hi) hash t of
        None \<Rightarrow> None
      | Some idx \<Rightarrow>
          let b = unat (bucketOf hash); e = sentries (subs t ! b) ! unat idx in
          if pval e = packedHashEmpty
          then map_option (\<lambda>t. (v, t)) (tl_occupy env packed_kind b idx (e\<lparr>plo := lo, phi := hi, pval := v\<rparr>) t)
          else Some (pval e, t))"

definition ptl_Get :: "u64 \<Rightarrow> u64 \<Rightarrow> packed_two_level \<Rightarrow> (i32 \<times> bool) option" where
  "ptl_Get lo hi t =
     (let hash = packedHash (lo, hi) in
      case tl_find packed_kind (lo, hi) hash t of
        None \<Rightarrow> None
      | Some idx \<Rightarrow>
          let e = sentries (subs t ! unat (bucketOf hash)) ! unat idx in
          if pval e = packedHashEmpty then Some (0, False) else Some (pval e, True))"

definition ptl_GetOrInsert :: "offheap \<Rightarrow> u64 \<Rightarrow> u64 \<Rightarrow> i32 \<Rightarrow> packed_two_level \<Rightarrow> ((i32 \<times> bool) \<times> packed_two_level) option" where
  "ptl_GetOrInsert env lo hi v t =
     map_option (\<lambda>(got, t). ((got, got \<noteq> v), t)) (ptl_GetOrInsertAt env lo hi (packedHash (lo, hi)) v t)"

section \<open>Definitions: key layout\<close>

datatype type_id = TypeBool | TypeInt32 | TypeInt64 | TypeFloat32 | TypeFloat64 | TypeString | TypeBytes
  | TypeTimestamp | TypeIPv4 | TypeIPv6 | TypeCIDR | TypeMAC | TypePort | TypeProtocol | TypeDuration
  | TypeUUID | TypeDate | TypeDecimal | TypeArray | TypeRow | TypeMap | TypeVector

record packed_field =
  fword :: nat
  fshift :: nat
  fi32 :: bool

definition packedKeyWidth :: "type_id \<Rightarrow> nat" where
  "packedKeyWidth t =
     (if t \<in> {TypeInt32, TypePort, TypeProtocol, TypeDate} then 4
      else if t \<in> {TypeInt64, TypeTimestamp, TypeIPv4, TypeMAC, TypeDuration} then 8
      else 0)"

definition packedKeyMaxBytes :: nat where "packedKeyMaxBytes = 16"

text \<open>The two placement passes: wide columns take whole words in order, narrow ones the free half words.\<close>

fun place_wide :: "type_id list \<Rightarrow> nat \<Rightarrow> packed_field list \<times> nat" where
  "place_wide [] w = ([], w)"
| "place_wide (t # ts) w =
     (if packedKeyWidth t = 8
      then let (fs, w') = place_wide ts (w + 1) in (\<lparr>fword = w, fshift = 0, fi32 = False\<rparr> # fs, w')
      else let (fs, w') = place_wide ts w in (\<lparr>fword = 0, fshift = 0, fi32 = False\<rparr> # fs, w'))"

definition narrow_slots :: "nat \<Rightarrow> (nat \<times> nat) list" where
  "narrow_slots w = concat (map (\<lambda>x. [(x, 0), (x, 32)]) [w..<2])"

text \<open>Taking a slot past the end of the list is an index panic, here \<open>None\<close>.\<close>

fun place_narrow :: "(type_id \<times> packed_field) list \<Rightarrow> (nat \<times> nat) list \<Rightarrow> packed_field list option" where
  "place_narrow [] slots = Some []"
| "place_narrow ((t, f) # tfs) slots =
     (if packedKeyWidth t \<noteq> 4 then map_option (Cons f) (place_narrow tfs slots)
      else case slots of
             [] \<Rightarrow> None
           | (w, s) # slots \<Rightarrow> map_option (Cons \<lparr>fword = w, fshift = s, fi32 = True\<rparr>) (place_narrow tfs slots))"

datatype layout = Ineligible | Layout "packed_field list" | Layout_panic

definition buildPackedLayout :: "type_id list \<Rightarrow> layout" where
  "buildPackedLayout types =
     (if length types < 2 then Ineligible
      else if \<exists>t \<in> set types. packedKeyWidth t = 0 then Ineligible
      else if sum_list (map packedKeyWidth types) > packedKeyMaxBytes then Ineligible
      else
        let (fields, nextWide) = place_wide types 0 in
        case place_narrow (zip types fields) (narrow_slots nextWide) of
          None \<Rightarrow> Layout_panic
        | Some fs \<Rightarrow> Layout fs)"

definition samePackedLayout :: "packed_field list \<Rightarrow> packed_field list \<Rightarrow> bool" where
  "samePackedLayout a b = (length a = length b \<and> a \<noteq> [] \<and> (\<forall>i < length a. a ! i = b ! i))"

text \<open>A column's value at a row: from \<^verbatim>\<open>Int32Data\<close> or from \<^verbatim>\<open>Int64Data\<close>.\<close>

datatype cell = I32 i32 | I64 i64

fun cell_word :: "packed_field \<Rightarrow> cell \<Rightarrow> u64" where
  "cell_word f (I32 x) = push_bit (fshift f) (ucast x)"
| "cell_word f (I64 x) = x"

fun packedKeyAt :: "(packed_field \<times> cell) list \<Rightarrow> u64 \<times> u64 \<Rightarrow> u64 \<times> u64" where
  "packedKeyAt [] k = k"
| "packedKeyAt ((f, c) # fcs) (lo, hi) =
     (let v = cell_word f c in
      if fword f = 0 then packedKeyAt fcs (lo OR v, hi) else packedKeyAt fcs (lo, hi OR v))"

definition packed_get :: "packed_field \<Rightarrow> u64 \<times> u64 \<Rightarrow> i64" where
  "packed_get f k =
     (let w = (if fword f \<noteq> 0 then snd k else fst k)
      in if fi32 f then scast (ucast (drop_bit (fshift f) w) :: i32) else w)"

section \<open>The flat table: invariant and abstraction\<close>

interpretation ph: probing ph_occ ph_key packedHash .

abbreviation blank_pentry :: ph_entry where "blank_pentry \<equiv> zero_pentry\<lparr>pval := packedHashEmpty\<rparr>"

definition ph_ok :: "packed_hash \<Rightarrow> bool" where
  "ph_ok h = (table_ok ph_occ ph_key packedHash (pentries h) \<and> pmask h = msk_of (length (pentries h)) \<and>
     psize h = used ph_occ (pentries h) \<and>
     pregMaps h = (if pentriesOffheap h then 1 else 0) \<and> (pentriesOffheap h \<longrightarrow> phasReg h))"

definition ph_map :: "packed_hash \<Rightarrow> u64 \<times> u64 \<Rightarrow> i32 option" where
  "ph_map h k = map_option pval (entry_at ph_occ ph_key (pentries h) k)"

text \<open>\<open>p_fit B m h\<close>: the load rule holds and \<open>m\<close> more keys keep the table within \<open>2 ^ B\<close> slots.\<close>

definition p_fit :: "nat \<Rightarrow> nat \<Rightarrow> packed_hash \<Rightarrow> bool" where
  "p_fit B m h = (ph_ok h \<and> 16 \<le> length (pentries h) \<and> psize h * 10 \<le> length (pentries h) * 7 \<and>
     B \<le> 60 \<and> length (pentries h) \<le> 2 ^ B \<and> 3 * (psize h + m) \<le> 2 ^ B)"

lemma ph_okD:
  assumes "ph_ok h"
  shows "table_ok ph_occ ph_key packedHash (pentries h)" "pmask h = msk_of (length (pentries h))"
    "psize h = used ph_occ (pentries h)" "psize h < length (pentries h)" "0 < length (pentries h)"
  using assms tableD [of ph_occ ph_key packedHash "pentries h"] by (simp_all add: ph_ok_def)

lemma blank_free: "\<not> ph_occ blank_pentry"
  by (simp add: ph_occ_def)

lemma fillEmptyPacked_replicate:
  "0 < n \<Longrightarrow> fillEmptyPackedEntries (replicate n e) = replicate n (e\<lparr>pval := packedHashEmpty\<rparr>)"
  unfolding fillEmptyPackedEntries_def by (cases n) (auto simp: fill_double_replicate)

lemma newPackedHashTable_ok:
  assumes "n \<le> 2 ^ 59"
  shows "ph_ok (newPackedHashTableReg fits n rg)" "ph_map (newPackedHashTableReg fits n rg) = Map.empty"
    "psize (newPackedHashTableReg fits n rg) = 0"
    "length (pentries (newPackedHashTableReg fits n rg)) = round_cap 16 (n + n div 3)"
    "16 \<le> round_cap 16 (n + n div 3)" "round_cap 16 (n + n div 3) \<le> 2 ^ 60"
proof -
  let ?h = "newPackedHashTableReg fits n rg" and ?c = "round_cap 16 (n + n div 3)"
  have "n div 3 \<le> n" by simp
  with assms have le: "n + n div 3 \<le> 2 ^ 60" by simp
  obtain b where b: "b \<le> 60" "?c = 2 ^ b" "16 \<le> ?c"
    using round_cap_pow2 [OF le, of 16 4] by auto
  have e: "pentries ?h = replicate ?c blank_pentry"
    using b(3) by (simp add: newPackedHashTableReg_def p_allocEntries_def fillEmptyPacked_replicate Let_def)
  have f: "pmask ?h = msk_of ?c" "psize ?h = 0" "pregMaps ?h = (if pentriesOffheap ?h then 1 else 0)"
    "pentriesOffheap ?h \<longrightarrow> phasReg ?h"
    by (simp_all add: newPackedHashTableReg_def p_allocEntries_def Let_def)
  have p2: "pow2 ?c" unfolding pow2_def using b(1,2) by (intro exI [of _ b]) simp
  note fr = fresh_ok(1) [where occ = ph_occ and kf = ph_key and hf = packedHash, OF p2 blank_free]
    fresh_ok(2,3) [where occ = ph_occ, OF p2 blank_free]
  show "ph_ok ?h" unfolding ph_ok_def e using fr f by simp
  have "entry_at ph_occ ph_key (pentries ?h) k = None" for k using fr(3) by (simp add: entry_at_None e)
  then show "ph_map ?h = Map.empty" by (simp add: fun_eq_iff ph_map_def)
  show "psize ?h = 0" by (rule f(2))
  show "length (pentries ?h) = ?c" by (simp add: e)
  show "16 \<le> ?c" by (rule b(3))
  show "?c \<le> 2 ^ 60" unfolding b(2) using b(1) by (rule power_increasing) simp
qed

lemma p_grow_ok:
  assumes ok: "ph_ok h" and le: "length (pentries h) \<le> 2 ^ 62"
  shows "\<exists>h'. p_grow fits h = Some h' \<and> ph_ok h' \<and> ph_map h' = ph_map h \<and> psize h' = psize h \<and>
    length (pentries h') = 2 * length (pentries h)"
proof -
  let ?n = "length (pentries h)"
  note t = ph_okD [OF ok]
  have p2: "pow2 (?n * 2)" by (rule pow2_double [OF tableD(1) [OF t(1)] le])
  have lt: "?n < ?n * 2" using t(5) by simp
  obtain r where r: "rehash ph_occ ph_key packedHash (msk_of (?n * 2)) (pentries h) (replicate (?n * 2) blank_pentry) = Some r"
    "length r = ?n * 2" "table_ok ph_occ ph_key packedHash r"
    "entry_at ph_occ ph_key r = entry_at ph_occ ph_key (pentries h)" "used ph_occ r = used ph_occ (pentries h)"
    using ph.rehash_map [OF t(1) p2 lt blank_free] by blast
  let ?a = "snd (p_allocEntries fits (?n * 2) h)"
  let ?h = "?a\<lparr>pregMaps := (if pentriesOffheap h then pregMaps ?a - 1 else pregMaps ?a), pentries := r,
    pmask := msk_of (?n * 2)\<rparr>"
  have a: "p_allocEntries fits (?n * 2) h = (replicate (?n * 2) zero_pentry, ?a)" by (simp add: p_allocEntries_def)
  have "fillEmptyPackedEntries (replicate (?n * 2) zero_pentry) = replicate (?n * 2) blank_pentry"
    using t(5) by (intro fillEmptyPacked_replicate) simp
  then have g: "p_grow fits h = Some ?h"
    using r(1) unfolding p_grow_def Let_def by (subst a) simp
  have f: "psize ?h = psize h" "pregMaps ?h = (if pentriesOffheap ?h then 1 else 0)" "pentriesOffheap ?h \<longrightarrow> phasReg ?h"
    using ok by (auto simp: p_allocEntries_def ph_ok_def)
  then have "ph_ok ?h" unfolding ph_ok_def using r t(3) by simp
  moreover have "ph_map ?h = ph_map h" using r(4) by (simp add: fun_eq_iff ph_map_def)
  ultimately show ?thesis using g f(1) r(2) by simp
qed

lemma p_find_Some:
  assumes ok: "ph_ok h" and m: "ph_map h (lo, hi) = Some v"
  shows "\<exists>idx. p_find_slot h (lo, hi) (packedHash (lo, hi)) = Some idx \<and> v \<noteq> packedHashEmpty \<and>
    pval (pentries h ! unat idx) = v"
proof -
  obtain e where e: "entry_at ph_occ ph_key (pentries h) (lo, hi) = Some e" "pval e = v"
    using m by (auto simp: ph_map_def)
  with ph.lookup_Some [OF ph_okD(1) [OF ok] e(1)] show ?thesis
    by (auto simp: p_find_slot_def ph_okD(2) [OF ok] ph_occ_def)
qed

lemma p_insert_ok:
  assumes ok: "ph_ok h" and m: "ph_map h (lo, hi) = None" and v: "v \<noteq> packedHashEmpty"
    and room: "Suc (psize h) < length (pentries h)"
  shows "\<exists>h'. p_GetOrInsertNoGrow lo hi v h = Some (v, h') \<and> ph_ok h' \<and> ph_map h' = (ph_map h)((lo, hi) \<mapsto> v) \<and>
    psize h' = Suc (psize h) \<and> length (pentries h') = length (pentries h)"
proof -
  note t = ph_okD [OF ok]
  have n: "entry_at ph_occ ph_key (pentries h) (lo, hi) = None" using m by (simp add: ph_map_def)
  obtain idx where i: "p_find_slot h (lo, hi) (packedHash (lo, hi)) = Some idx" "unat idx < length (pentries h)"
    "\<not> ph_occ (pentries h ! unat idx)" "path ph_occ (pentries h) (home packedHash (length (pentries h)) (lo, hi)) (unat idx)"
    using ph.lookup_None [OF t(1) n] by (auto simp: p_find_slot_def t(2))
  let ?e = "(pentries h ! unat idx)\<lparr>plo := lo, phi := hi, pval := v\<rparr>"
  let ?h = "h\<lparr>pentries := (pentries h)[unat idx := ?e], psize := psize h + 1\<rparr>"
  have k: "ph_key ?e = (lo, hi)" and o: "ph_occ ?e" using v by (simp_all add: ph_key_def ph_occ_def)
  have r: "Suc (used ph_occ (pentries h)) < length (pentries h)" using room t(3) by simp
  note ins = ph.insert_map [OF t(1) i(2,3) o n [folded k] i(4) [folded k] r]
  have "p_GetOrInsertNoGrow lo hi v h = Some (v, ?h)"
    using i(1,3) by (simp add: p_GetOrInsertNoGrow_def p_GetOrInsertNoGrowAt_def Let_def ph_occ_def)
  moreover have "ph_ok ?h" using ok ins(1,3) by (simp add: ph_ok_def)
  moreover have "ph_map ?h = (ph_map h)((lo, hi) \<mapsto> v)" using ins(2) k by (simp add: fun_eq_iff ph_map_def)
  ultimately show ?thesis by simp
qed

lemma p_Get_ok:
  assumes "ph_ok h"
  shows "p_Get lo hi h = Some (found 0 (ph_map h (lo, hi)))"
proof (cases "ph_map h (lo, hi)")
  case None
  then have "entry_at ph_occ ph_key (pentries h) (lo, hi) = None" by (simp add: ph_map_def)
  with ph.lookup_None [OF ph_okD(1) [OF assms] this] None show ?thesis
    by (auto simp: p_Get_def p_find_slot_def ph_okD(2) [OF assms] ph_occ_def found_def Let_def)
next
  case (Some v)
  with p_find_Some [OF assms Some] show ?thesis by (auto simp: p_Get_def found_def Let_def)
qed

lemma p_CheckGrow_ok:
  assumes ok: "ph_ok h" and le: "length (pentries h) \<le> 2 ^ B" "3 * (psize h + m) \<le> 2 ^ B" "16 \<le> length (pentries h)"
    "B \<le> 60"
  shows "\<exists>h'. p_CheckGrow fits h = Some h' \<and> p_fit B m h' \<and> ph_map h' = ph_map h"
proof (cases "psize h * 10 > length (pentries h) * 7")
  case False
  then show ?thesis using assms by (auto simp: p_CheckGrow_def p_fit_def)
next
  case True
  have "(2::nat) ^ B \<le> 2 ^ 62" using le(4) by (intro power_increasing) simp_all
  then obtain h' where h': "p_grow fits h = Some h'" "ph_ok h'" "ph_map h' = ph_map h" "psize h' = psize h"
    "length (pentries h') = 2 * length (pentries h)"
    using p_grow_ok [OF ok, of fits] le(1) by auto
  moreover have "p_fit B m h'" using h' True assms ph_okD(4) [OF ok] unfolding p_fit_def by simp
  ultimately show ?thesis using True by (simp add: p_CheckGrow_def)
qed

text \<open>The caller offers an id that no resident entry holds, as its contract asks.\<close>

lemma p_GetOrInsert_ok:
  assumes f: "p_fit B (Suc m) h" and v: "v \<noteq> packedHashEmpty" "v \<notin> ran (ph_map h)"
  shows "\<exists>h'. p_GetOrInsert fits lo hi v h = Some (found v (ph_map h (lo, hi)), h') \<and> p_fit B m h' \<and>
    ph_map h' = (if ph_map h (lo, hi) = None then (ph_map h)((lo, hi) \<mapsto> v) else ph_map h)"
proof -
  have ok: "ph_ok h" using f by (simp add: p_fit_def)
  show ?thesis
  proof (cases "ph_map h (lo, hi)")
    case None
    have room: "Suc (psize h) < length (pentries h)" using f by (simp add: p_fit_def)
    obtain h1 where h1: "p_GetOrInsertNoGrow lo hi v h = Some (v, h1)" "ph_ok h1" "ph_map h1 = (ph_map h)((lo, hi) \<mapsto> v)"
      "psize h1 = Suc (psize h)" "length (pentries h1) = length (pentries h)"
      using p_insert_ok [OF ok None v(1) room] by blast
    with p_CheckGrow_ok [OF h1(2), of B m fits] f None show ?thesis
      by (auto simp: p_GetOrInsert_def p_fit_def found_def)
  next
    case (Some w)
    then have "w \<noteq> v" using v(2) by (auto simp: ran_def)
    moreover have "p_fit B m h" using f by (simp add: p_fit_def)
    ultimately show ?thesis using Some p_find_Some [OF ok Some]
      by (auto simp: p_GetOrInsert_def p_GetOrInsertNoGrow_def p_GetOrInsertNoGrowAt_def found_def Let_def)
  qed
qed

lemma p_EnsureCapacity_ok:
  assumes "ph_ok h" and "length (pentries h) \<le> 2 ^ 60" and "3 * (psize h + a) \<le> 2 ^ 60"
  shows "\<exists>h'. p_EnsureCapacity fits a h = Some h' \<and> ph_ok h' \<and> ph_map h' = ph_map h \<and> psize h' = psize h \<and>
    (psize h' + a) * 10 \<le> length (pentries h') * 7"
  using assms
proof (induction "(psize h + a) * 10 - length (pentries h) * 7" arbitrary: h rule: less_induct)
  case less
  show ?case
  proof (cases "(psize h + a) * 10 > length (pentries h) * 7")
    case False
    then show ?thesis using less.prems by (subst p_EnsureCapacity.simps) auto
  next
    case True
    obtain h' where h': "p_grow fits h = Some h'" "ph_ok h'" "ph_map h' = ph_map h" "psize h' = psize h"
      "length (pentries h') = 2 * length (pentries h)"
      using p_grow_ok [OF less.prems(1), of fits] less.prems(2) by auto
    have pos: "0 < length (pentries h)" by (rule ph_okD(5) [OF less.prems(1)])
    have lt: "(psize h' + a) * 10 - length (pentries h') * 7 < (psize h + a) * 10 - length (pentries h) * 7"
      unfolding h'(4,5) using True pos by linarith
    have "length (pentries h') \<le> 2 ^ 60" "3 * (psize h' + a) \<le> 2 ^ 60"
      using True less.prems(3) unfolding h'(4,5) by simp_all
    from less.hyps [OF lt h'(2) this] True h' show ?thesis by (subst p_EnsureCapacity.simps) simp
  qed
qed

section \<open>The bucketed table\<close>

lemma packed_kind_sel [simp]:
  "k_occ packed_kind = ph_occ" "k_key packed_kind = ph_key" "k_hash packed_kind = packedHash"
  "k_zero packed_kind = zero_pentry" "k_fill packed_kind = fillEmptyPackedEntries" "k_bytes packed_kind = 24"
  by (simp_all add: packed_kind_def)

interpretation ptl: bucketed packed_kind blank_pentry
  by unfold_locales (simp_all add: fillEmptyPacked_replicate blank_free)

definition ptl_map :: "packed_two_level \<Rightarrow> u64 \<times> u64 \<Rightarrow> i32 option" where
  "ptl_map t k = map_option pval (tl_map packed_kind t k)"

lemma packed_bucket: "unat (bucketOf (packedHash k)) = bucket packed_kind k"
  by (simp add: bucket_def)

lemma ptl_find_Some:
  assumes ok: "tl_ok packed_kind t" and m: "ptl_map t (lo, hi) = Some v"
  shows "\<exists>r. tl_find packed_kind (lo, hi) (packedHash (lo, hi)) t = Some r \<and> v \<noteq> packedHashEmpty \<and>
    pval (sentries (subs t ! bucket packed_kind (lo, hi)) ! unat r) = v"
proof -
  obtain e where e: "tl_map packed_kind t (lo, hi) = Some e" "pval e = v" using m by (auto simp: ptl_map_def)
  with ptl.tl_find_Some [OF ok e(1)] show ?thesis by (auto simp: ph_occ_def)
qed

lemma ptl_Get_ok:
  assumes "tl_ok packed_kind t"
  shows "ptl_Get lo hi t = Some (found 0 (ptl_map t (lo, hi)))"
proof (cases "ptl_map t (lo, hi)")
  case None
  then have "tl_map packed_kind t (lo, hi) = None" by (simp add: ptl_map_def)
  with ptl.tl_find_None [OF assms this] None show ?thesis
    by (auto simp: ptl_Get_def found_def ph_occ_def packed_bucket Let_def)
next
  case (Some v)
  with ptl_find_Some [OF assms Some] show ?thesis
    by (auto simp: ptl_Get_def found_def packed_bucket Let_def)
qed

lemma ptl_GetOrInsertAt_ok:
  assumes f: "tl_fit packed_kind (Suc m) t" and v: "v \<noteq> packedHashEmpty"
  shows "\<exists>t'. ptl_GetOrInsertAt env lo hi (packedHash (lo, hi)) v t = Some (fst (found v (ptl_map t (lo, hi))), t') \<and>
    tl_fit packed_kind m t' \<and>
    ptl_map t' = (if ptl_map t (lo, hi) = None then (ptl_map t)((lo, hi) \<mapsto> v) else ptl_map t)"
proof -
  have ok: "tl_ok packed_kind t" using f by (simp add: tl_fit_def)
  show ?thesis
  proof (cases "ptl_map t (lo, hi)")
    case None
    let ?b = "bucket packed_kind (lo, hi)"
    have n: "tl_map packed_kind t (lo, hi) = None" using None by (simp add: ptl_map_def)
    obtain r where r: "tl_find packed_kind (lo, hi) (packedHash (lo, hi)) t = Some r"
      "unat r < length (sentries (subs t ! ?b))" "\<not> ph_occ (sentries (subs t ! ?b) ! unat r)"
      "path ph_occ (sentries (subs t ! ?b))
        (home (sub_hash packed_kind) (length (sentries (subs t ! ?b))) (lo, hi)) (unat r)"
      using ptl.tl_find_None [OF ok n] by auto
    let ?e = "(sentries (subs t ! ?b) ! unat r)\<lparr>plo := lo, phi := hi, pval := v\<rparr>"
    have k: "ph_key ?e = (lo, hi)" and o: "ph_occ ?e" using v by (simp_all add: ph_key_def ph_occ_def)
    have "\<exists>t'. tl_occupy env packed_kind ?b r ?e t = Some t' \<and> tl_fit packed_kind m t' \<and>
        tl_map packed_kind t' = (tl_map packed_kind t)(k_key packed_kind ?e \<mapsto> ?e)"
      by (rule ptl.tl_occupy_ok [OF f]) (use o k n r in simp_all)
    then obtain t' where t': "tl_occupy env packed_kind ?b r ?e t = Some t'" "tl_fit packed_kind m t'"
        "tl_map packed_kind t' = (tl_map packed_kind t)((lo, hi) \<mapsto> ?e)" using k by auto
    then have "ptl_map t' = (ptl_map t)((lo, hi) \<mapsto> v)" by (simp add: fun_eq_iff ptl_map_def)
    with t' r None show ?thesis
      by (auto simp: ptl_GetOrInsertAt_def found_def ph_occ_def packed_bucket Let_def)
  next
    case (Some w)
    with ptl_find_Some [OF ok Some] tl_fit_pred [OF f] show ?thesis
      by (auto simp: ptl_GetOrInsertAt_def found_def packed_bucket Let_def)
  qed
qed

lemma p_convert_ok:
  assumes ok: "ph_ok flat" and le: "length (pentries flat) \<le> 2 ^ 32" "m \<le> 2 ^ 30"
  shows "\<exists>t f. convertPackedHashTableToTwoLevel env flat rg = Some (t, f) \<and> tl_fit packed_kind m t \<and>
    ptl_map t = ph_map flat \<and> pregMaps f = 0 \<and> pentries f = []"
proof -
  let ?n = "subCapForFlatSlots (length (pentries flat))"
  let ?t = "newTwoLevelSub env packed_kind ?n rg"
  note d = ph_okD [OF ok]
  have p: "pow2 (length (pentries flat))" by (rule tableD(1) [OF d(1)])
  have le': "length (pentries flat) \<le> 2 ^ 34" using le by simp
  have m: "3 * (length (pentries flat) + m) \<le> 2 ^ 34" using le by simp
  note new = ptl.newTwoLevelSub_ok [OF subCapForFlatSlots_ok [OF p le'] m, of env rg]
  obtain t where t: "convert_loop env packed_kind (pentries flat) ?t = Some t" "tl_fit packed_kind m t"
    "tl_map packed_kind t = tl_map packed_kind ?t ++ entry_at ph_occ ph_key (pentries flat)"
    using ptl.convert_loop_ok [OF new(1), of env] tableD(4) [OF d(1)] new(2) by auto
  have "ptl_map t = ph_map flat" using t(3) new(2) by (simp add: fun_eq_iff ptl_map_def ph_map_def)
  moreover have "pregMaps (p_freeEntries flat) = 0 \<and> pentries (p_freeEntries flat) = []"
    using ok d(5) by (auto simp: p_freeEntries_def ph_ok_def)
  ultimately show ?thesis using t(1,2) by (simp add: convertPackedHashTableToTwoLevel_def Let_def)
qed

section \<open>Key layouts\<close>

text \<open>Fields of one key never overlap: another word, or the other half of the same word.\<close>

definition apart :: "packed_field \<Rightarrow> packed_field \<Rightarrow> bool" where
  "apart f g = (fword f \<noteq> fword g \<or> (fi32 f \<and> fi32 g \<and> fshift f \<noteq> fshift g))"

definition field_ok :: "packed_field \<Rightarrow> bool" where
  "field_ok f = (fword f \<in> {0, 1} \<and> (if fi32 f then fshift f \<in> {0, 32} else fshift f = 0))"

definition layout_ok :: "packed_field list \<Rightarrow> bool" where
  "layout_ok fs = (list_all field_ok fs \<and> sorted_wrt apart fs)"

text \<open>A column feeds \<^verbatim>\<open>Int32Data\<close> exactly when its field is a half word.\<close>

fun cell_fits :: "packed_field \<Rightarrow> cell \<Rightarrow> bool" where
  "cell_fits f (I32 x) = fi32 f"
| "cell_fits f (I64 x) = (\<not> fi32 f)"

fun cell_value :: "cell \<Rightarrow> i64" where
  "cell_value (I32 x) = scast x"
| "cell_value (I64 x) = x"

definition field_word :: "packed_field \<Rightarrow> u64 \<times> u64 \<Rightarrow> u64" where
  "field_word f k = (if fword f \<noteq> 0 then snd k else fst k)"

definition covered :: "packed_field \<Rightarrow> nat \<Rightarrow> bool" where
  "covered f n = (if fi32 f then fshift f \<le> n \<and> n < fshift f + 32 else n < 64)"

lemma packedKeyAt_or:
  "field_word f (packedKeyAt fcs (lo, hi)) = field_word f (lo, hi) OR field_word f (packedKeyAt fcs (0, 0))"
proof (induction fcs arbitrary: lo hi)
  case Nil
  then show ?case by (simp add: field_word_def)
next
  case (Cons gc fcs)
  obtain g c where gc: "gc = (g, c)" by fastforce
  show ?case
    using Cons.IH [of "lo OR cell_word g c" hi] Cons.IH [of lo "hi OR cell_word g c"]
      Cons.IH [of "cell_word g c" 0] Cons.IH [of 0 "cell_word g c"]
    by (simp add: gc Let_def field_word_def or.assoc split: if_splits)
qed

lemma packedKeyAt_append:
  "field_word f (packedKeyAt (xs @ ys) (0, 0)) =
     field_word f (packedKeyAt xs (0, 0)) OR field_word f (packedKeyAt ys (0, 0))"
proof -
  have "packedKeyAt (xs @ ys) k = packedKeyAt ys (packedKeyAt xs k)" for k
    by (induction xs k rule: packedKeyAt.induct) (simp_all add: Let_def)
  then show ?thesis using packedKeyAt_or [of f ys] by (metis surj_pair)
qed

lemma packedKeyAt_single:
  "field_word f (packedKeyAt [(g, c)] (0, 0)) = (if (fword g = 0) = (fword f = 0) then cell_word g c else 0)"
  by (simp add: field_word_def Let_def)

lemma cell_word_covered:
  assumes "cell_fits g c" and "bit (cell_word g c) n"
  shows "covered g n"
proof (cases c)
  case (I32 x)
  then show ?thesis using assms bit_imp_le_length [of x "n - fshift g"]
    by (auto simp: covered_def bit_simps)
next
  case (I64 x)
  then show ?thesis using assms bit_imp_le_length [of x n] by (simp add: covered_def)
qed

lemma apart_uncovered:
  assumes "field_ok f" and "field_ok g" and "apart f g" and "(fword g = 0) = (fword f = 0)" and "covered f n"
  shows "\<not> covered g n"
  using assms by (auto simp: field_ok_def apart_def covered_def split: if_splits)

lemma packedKeyAt_others:
  assumes "list_all (\<lambda>x. field_ok (fst x) \<and> cell_fits (fst x) (snd x) \<and> apart f (fst x)) gcs" and "field_ok f" and "covered f n"
  shows "\<not> bit (field_word f (packedKeyAt gcs (0, 0))) n"
  using assms(1)
proof (induction gcs)
  case Nil
  then show ?case by (simp add: field_word_def)
next
  case (Cons gc gcs)
  obtain g c where gc: "gc = (g, c)" by fastforce
  have "\<not> bit (field_word f (packedKeyAt [gc] (0, 0))) n"
    using Cons.prems cell_word_covered [of g c n] apart_uncovered [OF assms(2), of g n] assms(3)
    unfolding gc packedKeyAt_single by auto
  then show ?case using Cons packedKeyAt_append [of f "[gc]" gcs] by (simp add: bit_or_iff)
qed

lemma packed_get_word:
  assumes c: "cell_fits f c" and f: "field_ok f"
    and w: "\<And>n. covered f n \<Longrightarrow> bit (field_word f k) n = bit (cell_word f c) n"
  shows "packed_get f k = cell_value c"
proof (cases c)
  case (I64 x)
  then have "field_word f k = x"
    using w c by (intro bit_word_eqI) (simp add: covered_def)
  then show ?thesis using I64 c by (simp add: packed_get_def field_word_def Let_def)
next
  case (I32 x)
  have "ucast (drop_bit (fshift f) (field_word f k)) = x"
  proof (rule bit_word_eqI)
    fix n assume "n < LENGTH(32)"
    moreover from this have "bit (field_word f k) (fshift f + n) = bit (cell_word f c) (fshift f + n)"
      using w [of "fshift f + n"] I32 c by (simp add: covered_def)
    ultimately show "bit (ucast (drop_bit (fshift f) (field_word f k)) :: i32) n = bit x n"
      using I32 c f by (auto simp: bit_simps field_ok_def)
  qed
  then show ?thesis using I32 c by (simp add: packed_get_def field_word_def Let_def)
qed

lemma packed_roundtrip:
  assumes l: "layout_ok fs" and n: "length cs = length fs" "i < length fs"
    and c: "\<And>j. j < length fs \<Longrightarrow> cell_fits (fs ! j) (cs ! j)"
  shows "packed_get (fs ! i) (packedKeyAt (zip fs cs) (0, 0)) = cell_value (cs ! i)"
proof (rule packed_get_word)
  let ?z = "zip fs cs" and ?f = "fs ! i"
  let ?P = "\<lambda>x. field_ok (fst x) \<and> cell_fits (fst x) (snd x) \<and> apart ?f (fst x)"
  have ok: "\<And>j. j < length fs \<Longrightarrow> field_ok (fs ! j)" using l by (auto simp: layout_ok_def list_all_length)
  show "cell_fits ?f (cs ! i)" "field_ok ?f" using n c ok by auto
  have sw: "apart (fs ! x) (fs ! y)" if "x < y" "y < length fs" for x y
    using l that by (simp add: layout_ok_def sorted_wrt_iff_nth_less)
  have ap: "apart ?f (fs ! j)" if j: "j < length fs" "j \<noteq> i" for j
  proof (cases "i < j")
    case True
    then show ?thesis using sw j by blast
  next
    case False
    then have "apart (fs ! j) ?f" using sw [of j i] j n(2) by simp
    then show ?thesis by (auto simp: apart_def)
  qed
  have z: "?z = take i ?z @ [(?f, cs ! i)] @ drop (Suc i) ?z"
    using id_take_nth_drop [of i ?z] n by simp
  have P: "?P (?z ! j)" if "j < length fs" "j \<noteq> i" for j
    using ok [OF that(1)] ap [OF that] c [OF that(1)] n(1) that(1) by simp
  have "list_all ?P (take i ?z)" unfolding list_all_length
  proof (intro allI impI)
    fix j assume "j < length (take i ?z)"
    then have "j < length fs" "j \<noteq> i" "take i ?z ! j = ?z ! j" by auto
    then show "?P (take i ?z ! j)" using P [of j] by simp
  qed
  moreover have "list_all ?P (drop (Suc i) ?z)" unfolding list_all_length
  proof (intro allI impI)
    fix j assume "j < length (drop (Suc i) ?z)"
    then have "Suc i + j < length fs" "drop (Suc i) ?z ! j = ?z ! (Suc i + j)" using n by auto
    then show "?P (drop (Suc i) ?z ! j)" using P [of "Suc i + j"] by simp
  qed
  moreover fix m assume m: "covered ?f m"
  ultimately have "\<not> bit (field_word ?f (packedKeyAt (take i ?z) (0, 0))) m"
    "\<not> bit (field_word ?f (packedKeyAt (drop (Suc i) ?z) (0, 0))) m"
    using packedKeyAt_others [OF _ ok [OF n(2)] m] by blast+
  then show "bit (field_word ?f (packedKeyAt ?z (0, 0))) m = bit (cell_word ?f (cs ! i)) m"
    by (subst z) (simp only: packedKeyAt_append packedKeyAt_single bit_or_iff, simp)
qed

text \<open>The eligible shapes, by column width.\<close>

definition eligible :: "type_id list \<Rightarrow> bool" where
  "eligible types = (2 \<le> length types \<and> (\<forall>t \<in> set types. packedKeyWidth t \<noteq> 0) \<and>
     sum_list (map packedKeyWidth types) \<le> 16)"

lemma packedKeyWidth_cases: "packedKeyWidth t = 0 \<or> packedKeyWidth t = 4 \<or> packedKeyWidth t = 8"
  by (simp add: packedKeyWidth_def)

lemma eligible_shapes:
  assumes "eligible types"
  shows "map packedKeyWidth types \<in> {[4, 4], [4, 8], [8, 4], [8, 8], [4, 4, 4], [4, 4, 8], [4, 8, 4], [8, 4, 4], [4, 4, 4, 4]}"
proof -
  have w: "packedKeyWidth t = 4 \<or> packedKeyWidth t = 8" if "t \<in> set types" for t
    using assms that packedKeyWidth_cases [of t] by (auto simp: eligible_def)
  have s: "sum_list (map packedKeyWidth types) \<le> 16" "2 \<le> length types" using assms by (simp_all add: eligible_def)
  have "4 * length ts \<le> sum_list (map packedKeyWidth ts)" if "set ts \<subseteq> set types" for ts
    using that by (induction ts) (use w in force)+
  from this [OF subset_refl] s have "length types = 2 \<or> length types = 3 \<or> length types = 4" by linarith
  then consider a b where "types = [a, b]" | a b c where "types = [a, b, c]" | a b c d where "types = [a, b, c, d]"
    by (auto simp: length_Suc_conv eval_nat_numeral)
  then show ?thesis
  proof cases
    case (1 a b)
    then show ?thesis using w [of a] w [of b] by auto
  next
    case (2 a b c)
    then show ?thesis using w [of a] w [of b] w [of c] s(1) by auto
  next
    case (3 a b c d)
    then show ?thesis using w [of a] w [of b] w [of c] w [of d] s(1) by auto
  qed
qed

lemma buildPackedLayout_ok:
  assumes e: "eligible types"
  shows "\<exists>fs. buildPackedLayout types = Layout fs \<and> layout_ok fs \<and> map fi32 fs = map (\<lambda>t. packedKeyWidth t = 4) types"
proof -
  have d: "buildPackedLayout types = (case place_narrow (zip types (fst (place_wide types 0)))
      (narrow_slots (snd (place_wide types 0))) of None \<Rightarrow> Layout_panic | Some fs \<Rightarrow> Layout fs)"
    using e by (auto simp: buildPackedLayout_def eligible_def packedKeyMaxBytes_def split_beta Let_def)
  show ?thesis
    unfolding d using eligible_shapes [OF e]
    by (auto simp: map_eq_Cons_conv narrow_slots_def upt_rec layout_ok_def field_ok_def apart_def)
qed

lemma buildPackedLayout_not_eligible: "\<not> eligible types \<Longrightarrow> buildPackedLayout types = Ineligible"
  by (auto simp: buildPackedLayout_def eligible_def packedKeyMaxBytes_def)

fun cell_typed :: "type_id \<Rightarrow> cell \<Rightarrow> bool" where
  "cell_typed t (I32 x) = (packedKeyWidth t = 4)"
| "cell_typed t (I64 x) = (packedKeyWidth t = 8)"

lemma cell_fits_typed:
  assumes "map fi32 fs = map (\<lambda>t. packedKeyWidth t = 4) types" and "list_all2 cell_typed types cs" and "j < length fs"
  shows "cell_fits (fs ! j) (cs ! j)"
proof -
  have l: "length fs = length types" using assms(1) by (rule map_eq_imp_length_eq)
  have "map fi32 fs ! j = map (\<lambda>t. packedKeyWidth t = 4) types ! j" by (simp only: assms(1))
  then have "fi32 (fs ! j) = (packedKeyWidth (types ! j) = 4)" using assms(3) l by simp
  then show ?thesis using list_all2_nthD [OF assms(2), of j] assms(3) l by (cases "cs ! j") simp_all
qed

lemma ucast_scast32 [simp]: "(ucast (scast (x :: i32) :: i64) :: i32) = x"
  by (rule bit_word_eqI) (auto simp: bit_simps)

lemma cell_value_inj:
  assumes "cell_typed t c" and "cell_typed t d" and "cell_value c = cell_value d"
  shows "c = d"
proof (cases c)
  case (I32 x)
  then obtain y where d: "d = I32 y" using assms by (cases d) auto
  have "(ucast (scast x :: i64) :: i32) = ucast (scast y :: i64)" using assms(3) I32 d by simp
  then show ?thesis using I32 d by simp
next
  case (I64 x)
  then show ?thesis using assms by (cases d) auto
qed

section \<open>Properties\<close>

text \<open>
  C8: Packing loses no column. For every key shape that buildPackedLayout accepts and every row of columns of
  those types, reading column i back from the packed key gives its value widened to 64 bits (negative 32-bit
  values included), so two rows have the same packed key exactly when they agree on every key column.
\<close>

theorem packed_key_roundtrip:
  assumes "buildPackedLayout types = Layout fs" and "list_all2 cell_typed types cs" and "list_all2 cell_typed types ds"
  shows "(\<forall>i < length types. packed_get (fs ! i) (packedKeyAt (zip fs cs) (0, 0)) = cell_value (cs ! i)) \<and>
    (packedKeyAt (zip fs cs) (0, 0) = packedKeyAt (zip fs ds) (0, 0) \<longleftrightarrow> cs = ds)"
proof -
  have "eligible types" using assms(1) buildPackedLayout_not_eligible by fastforce
  from buildPackedLayout_ok [OF this] assms(1)
  have l: "layout_ok fs" and m: "map fi32 fs = map (\<lambda>t. packedKeyWidth t = 4) types" by auto
  have n: "length fs = length types" using m by (rule map_eq_imp_length_eq)
  have get: "packed_get (fs ! i) (packedKeyAt (zip fs xs) (0, 0)) = cell_value (xs ! i)"
    if "list_all2 cell_typed types xs" "i < length types" for xs i
    using packed_roundtrip [OF l, of xs i] cell_fits_typed [OF m that(1)] list_all2_lengthD [OF that(1)] that(2) n by simp
  have "cs = ds" if eq: "packedKeyAt (zip fs cs) (0, 0) = packedKeyAt (zip fs ds) (0, 0)"
  proof (rule nth_equalityI)
    show "length cs = length ds" using list_all2_lengthD [OF assms(2)] list_all2_lengthD [OF assms(3)] by simp
    fix i assume "i < length cs"
    then have i: "i < length types" using list_all2_lengthD [OF assms(2)] by simp
    show "cs ! i = ds ! i"
      using get [OF assms(2) i] get [OF assms(3) i] eq list_all2_nthD [OF assms(2) i] list_all2_nthD [OF assms(3) i]
      by (intro cell_value_inj [of "types ! i"]) auto
  qed
  then show ?thesis using get [OF assms(2)] by auto
qed

theorem packed_key_roundtrip_witness:
  "\<exists>fs. buildPackedLayout [TypeInt32, TypeInt64, TypeDate] = Layout fs \<and>
     packed_get (fs ! 0) (packedKeyAt (zip fs [I32 (- 5), I64 7, I32 9]) (0, 0)) = - 5"
proof -
  let ?fs = "[\<lparr>fword = 1, fshift = 0, fi32 = True\<rparr>, \<lparr>fword = 0, fshift = 0, fi32 = False\<rparr>,
    \<lparr>fword = 1, fshift = 32, fi32 = True\<rparr>]"
  have b: "buildPackedLayout [TypeInt32, TypeInt64, TypeDate] = Layout ?fs"
    by (simp add: buildPackedLayout_def packedKeyWidth_def packedKeyMaxBytes_def narrow_slots_def upt_rec Let_def)
  have t: "list_all2 cell_typed [TypeInt32, TypeInt64, TypeDate] [I32 (- 5), I64 7, I32 9]"
    by (simp add: packedKeyWidth_def)
  show ?thesis using packed_key_roundtrip [OF b t t] b by auto
qed

text \<open>
  C28: Widest-first placement always succeeds. A key shape gets a layout exactly when it has at least two columns,
  all of integer class, of at most 16 bytes together; the half-word slots never run out, and no two fields overlap.
\<close>

theorem packed_layout_total:
  "buildPackedLayout types \<noteq> Layout_panic \<and> (buildPackedLayout types = Ineligible \<longleftrightarrow> \<not> eligible types) \<and>
   (eligible types \<longleftrightarrow> (\<exists>fs. buildPackedLayout types = Layout fs \<and> layout_ok fs \<and> length fs = length types))"
proof (cases "eligible types")
  case True
  then obtain fs where "buildPackedLayout types = Layout fs" "layout_ok fs"
    "map fi32 fs = map (\<lambda>t. packedKeyWidth t = 4) types"
    using buildPackedLayout_ok by blast
  with True show ?thesis by (auto dest: map_eq_imp_length_eq)
qed (simp add: buildPackedLayout_not_eligible)

text \<open>
  C9: The packed index implements a finite map on 128-bit keys with no reserved key. From any table within its
  load rule, GetOrInsert with a fresh non-negative id returns, answers the resident id of the key or the offered
  one, and the table then stands for the map with that key added and no other change; the free-slot marker lives
  in the value, so every key, zero included, can be stored and is found again.
\<close>

theorem packed_hash_refines_map:
  assumes "p_fit B (Suc m) h" and "0 \<le> sint v" and "v \<notin> ran (ph_map h)"
  shows "\<exists>h'. p_GetOrInsert fits lo hi v h = Some (found v (ph_map h (lo, hi)), h') \<and> p_fit B m h' \<and>
    ph_map h' = (if ph_map h (lo, hi) = None then (ph_map h)((lo, hi) \<mapsto> v) else ph_map h) \<and>
    p_Get lo' hi' h' = Some (found 0 (ph_map h' (lo', hi')))"
proof -
  have "v \<noteq> packedHashEmpty" using assms(2) by (auto simp: packedHashEmpty_def)
  from p_GetOrInsert_ok [OF assms(1) this assms(3), of fits lo hi] obtain h' where
    h': "p_GetOrInsert fits lo hi v h = Some (found v (ph_map h (lo, hi)), h')" "p_fit B m h'"
      "ph_map h' = (if ph_map h (lo, hi) = None then (ph_map h)((lo, hi) \<mapsto> v) else ph_map h)" by blast
  moreover have "ph_ok h'" using h'(2) by (simp add: p_fit_def)
  ultimately show ?thesis using p_Get_ok by blast
qed

theorem packed_hash_refines_map_witness:
  "\<exists>h'. p_GetOrInsert (\<lambda>_. True) 0 0 3 (newPackedHashTableReg (\<lambda>_. True) 3 True) = Some ((3, False), h') \<and>
     p_Get 0 0 h' = Some (3, True)"
proof -
  let ?h = "newPackedHashTableReg (\<lambda>_. True) 3 True"
  note new = newPackedHashTable_ok(1-4) [of 3 "\<lambda>_. True" True] newPackedHashTable_ok(5,6) [of 3]
  have f: "p_fit 60 (Suc 0) ?h" using new by (simp add: p_fit_def)
  from packed_hash_refines_map [OF f, of 3 "\<lambda>_. True" 0 0 0 0] new(2) show ?thesis
    by (auto simp: found_def)
qed

end
