(* ===== verification/Null_Bitmap.thy ===== *)
theory Null_Bitmap
  imports Wadjet_Base "HOL-Library.Signed_Division"
begin

text \<open>
  The null bitmap of a column vector (\<^verbatim>\<open>internal/engine/batch/bitmap.go\<close>): one bit per row, 1 for a
  value and 0 for NULL, in 64-bit words, with a cached answer to "are there nulls". The slice is modelled with
  its spare capacity (\<open>spare\<close>: the words between length and capacity, whatever they hold), because a reslice
  exposes them. Lengths are numbers of rows that exist in memory, so they do not reach the int64 range; the
  arguments of SetNullRange are arbitrary, so its sums wrap as in Go. An index out of range is a panic,
  \<open>None\<close>.
\<close>

section \<open>Definitions\<close>

record bitmap =
  bdata :: "u64 list"
  spare :: "u64 list"
  blen :: nat
  hasNulls :: int

definition words_for :: "nat \<Rightarrow> nat" where "words_for n = (n + 63) div 64"

definition low_mask :: "nat \<Rightarrow> u64" where "low_mask r = push_bit r 1 - 1"

text \<open>All ones, the last word cut to the length.\<close>

definition trim_last :: "nat \<Rightarrow> u64 list \<Rightarrow> u64 list" where
  "trim_last n d = (if 0 < n mod 64 then d[length d - 1 := low_mask (n mod 64)] else d)"

definition NewBitmap :: "nat \<Rightarrow> bitmap" where
  "NewBitmap n =
     \<lparr>bdata = trim_last n (replicate (words_for n) (NOT 0)), spare = [], blen = n, hasNulls = 0\<rparr>"

definition NewBitmapAllNull :: "nat \<Rightarrow> bitmap" where
  "NewBitmapAllNull n =
     \<lparr>bdata = replicate (words_for n) 0, spare = [], blen = n, hasNulls = (if n = 0 then 0 else 1)\<rparr>"

definition set_bit_at :: "nat \<Rightarrow> u64 list \<Rightarrow> u64 list" where
  "set_bit_at i d = d[i div 64 := d ! (i div 64) OR push_bit (i mod 64) 1]"

definition clear_mask :: "nat \<Rightarrow> u64 \<Rightarrow> u64 list \<Rightarrow> u64 list" where
  "clear_mask w m d = d[w := d ! w AND NOT m]"

function double_cap :: "nat \<Rightarrow> nat \<Rightarrow> nat" where
  "double_cap c words = (if 0 < c \<and> c < words then double_cap (c * 2) words else c)"
  by pat_completeness auto
termination by (relation "measure (\<lambda>(c, w). w - c)") auto

definition EnsureLen :: "nat \<Rightarrow> bitmap \<Rightarrow> bitmap" where
  "EnsureLen n b =
     (if n \<le> blen b then b
      else
        let words = words_for n; c = length (bdata b) + length (spare b);
            b1 = (if words > c then
                    let newCap = double_cap (if c = 0 then words else c) words
                    in b\<lparr>bdata := bdata b @ replicate (words - length (bdata b)) 0,
                         spare := replicate (newCap - words) 0\<rparr>
                  else if words > length (bdata b) then
                    b\<lparr>bdata := bdata b @ take (words - length (bdata b)) (spare b),
                      spare := drop (words - length (bdata b)) (spare b)\<rparr>
                  else b)
        in b1\<lparr>bdata := fold set_bit_at [blen b..<n] (bdata b1), blen := n\<rparr>)"

definition word_null :: "u64 list \<Rightarrow> nat \<Rightarrow> bool" where
  "word_null d i = (d ! (i div 64) AND push_bit (i mod 64) 1 = 0)"

definition IsNull :: "int \<Rightarrow> bitmap \<Rightarrow> bool" where
  "IsNull i b = (if i < 0 \<or> int (blen b) \<le> i then True else word_null (bdata b) (nat i))"

definition IsNullFast :: "nat \<Rightarrow> bitmap \<Rightarrow> bool option" where
  "IsNullFast i b = (if i div 64 < length (bdata b) then Some (word_null (bdata b) i) else None)"

definition SetNull :: "int \<Rightarrow> bitmap \<Rightarrow> bitmap" where
  "SetNull i b =
     (if i < 0 \<or> int (blen b) \<le> i then b
      else b\<lparr>bdata := clear_mask (nat i div 64) (push_bit (nat i mod 64) 1) (bdata b), hasNulls := 1\<rparr>)"

definition range_mask :: "nat \<Rightarrow> nat \<Rightarrow> u64" where
  "range_mask startBit endBit = fold (\<lambda>i m. m OR push_bit i 1) [startBit..<Suc endBit] 0"

text \<open>Go's \<^verbatim>\<open>/\<close> and \<^verbatim>\<open>%\<close> truncate towards zero; a write to \<^verbatim>\<open>b.data[w]\<close> panics out of range. The loop over the
  middle words panics at the first word past the end.\<close>

definition clear_at :: "int \<Rightarrow> u64 \<Rightarrow> u64 list \<Rightarrow> u64 list option" where
  "clear_at w m d = (if 0 \<le> w \<and> w < int (length d) then Some (clear_mask (nat w) m d) else None)"

definition zero_words :: "int \<Rightarrow> int \<Rightarrow> u64 list \<Rightarrow> u64 list option" where
  "zero_words w e d =
     (if w < e \<and> (w < 0 \<or> int (length d) < e) then None else Some (fold (\<lambda>w d. d[w := 0]) [nat w..<nat e] d))"

definition SetNullRange :: "int \<Rightarrow> int \<Rightarrow> bitmap \<Rightarrow> bitmap option" where
  "SetNullRange start count b =
     (if count \<le> 0 \<or> start < 0 \<or> int (blen b) \<le> start then Some b
      else
        let e = wrap64 (start + count); e = (if e > int (blen b) then int (blen b) else e);
            startWord = start sdiv 64; endWord = wrap64 (e - 1) sdiv 64;
            startBit = nat (start smod 64); endBit = nat ((wrap64 (e - 1) smod 64) mod 2 ^ 64);
            d = bdata b
        in if startWord = endWord
           then map_option (\<lambda>d. b\<lparr>hasNulls := 1, bdata := d\<rparr>) (clear_at startWord (range_mask startBit endBit) d)
           else
             case (if startBit > 0
                   then map_option (\<lambda>d. (d, startWord + 1)) (clear_at startWord (NOT (low_mask startBit)) d)
                   else Some (d, startWord)) of
               None \<Rightarrow> None
             | Some (d, startWord) \<Rightarrow>
                 case zero_words startWord endWord d of
                   None \<Rightarrow> None
                 | Some d \<Rightarrow>
                     map_option (\<lambda>d. b\<lparr>hasNulls := 1, bdata := d\<rparr>)
                       (clear_at endWord (low_mask ((endBit + 1) mod 2 ^ 64)) d))"

definition SetValid :: "int \<Rightarrow> bitmap \<Rightarrow> bitmap" where
  "SetValid i b =
     (if i < 0 \<or> int (blen b) \<le> i then b
      else b\<lparr>bdata := set_bit_at (nat i) (bdata b), hasNulls := (if hasNulls b = 1 then - 1 else hasNulls b)\<rparr>)"

definition scan_nulls :: "bitmap \<Rightarrow> bool" where
  "scan_nulls b =
     (let d = bdata b; n = length d in
      if n = 0 then False
      else if \<exists>w \<in> set (butlast d). w \<noteq> NOT 0 then True
      else if blen b mod 64 = 0 then last d \<noteq> NOT 0
      else last d \<noteq> low_mask (blen b mod 64))"

definition HasNulls :: "bitmap \<Rightarrow> bool \<times> bitmap" where
  "HasNulls b =
     (if 0 \<le> hasNulls b then (hasNulls b = 1, b)
      else (scan_nulls b, b\<lparr>hasNulls := (if scan_nulls b then 1 else 0)\<rparr>))"

definition OnesCount64 :: "u64 \<Rightarrow> nat" where
  "OnesCount64 w = length (filter (bit w) [0..<64])"

definition NullCount :: "bitmap \<Rightarrow> int" where
  "NullCount b = int (blen b) - int (sum_list (map OnesCount64 (bdata b)))"

definition bm_Len :: "bitmap \<Rightarrow> nat" where "bm_Len b = blen b"
definition bm_Words :: "bitmap \<Rightarrow> u64 list" where "bm_Words b = bdata b"
definition InvalidateCache :: "bitmap \<Rightarrow> bitmap" where "InvalidateCache b = b\<lparr>hasNulls := - 1\<rparr>"

text \<open>\<^verbatim>\<open>b.data[:words]\<close> reaches into the spare capacity and panics past it.\<close>

definition CopyFrom :: "bitmap \<Rightarrow> nat \<Rightarrow> bitmap \<Rightarrow> bitmap option" where
  "CopyFrom src n b =
     (let words = words_for n; full = bdata b @ spare b; sfull = bdata src @ spare src in
      if words > length full \<or> words > length sfull then None
      else
        let full = take words sfull @ drop words full;
            d = take (length (bdata b)) full; sp = drop (length (bdata b)) full
        in if 0 < n mod 64 \<and> length d \<le> words - 1 then None
           else Some (b\<lparr>bdata := (if 0 < n mod 64 then d[words - 1 := d ! (words - 1) AND low_mask (n mod 64)] else d),
                        spare := sp, blen := n, hasNulls := hasNulls src\<rparr>))"

definition ResetNonNull :: "nat \<Rightarrow> bitmap \<Rightarrow> bitmap" where
  "ResetNonNull n b =
     (let words = words_for n; full = bdata b @ spare b;
          sp = (if words \<le> length full then drop words full else [])
      in b\<lparr>bdata := trim_last n (replicate words (NOT 0)), spare := sp, blen := n, hasNulls := 0\<rparr>)"

definition cut_last :: "nat \<Rightarrow> u64 list \<Rightarrow> u64 list" where
  "cut_last n d =
     (if 0 < n mod 64 then d[words_for n - 1 := d ! (words_for n - 1) AND low_mask (n mod 64)] else d)"

definition Grow :: "nat \<Rightarrow> bitmap \<Rightarrow> bitmap" where
  "Grow newLen b =
     (if newLen \<le> blen b then b
      else
        let newWords = words_for newLen; d = bdata b; oldWords = length d
        in if newWords \<le> oldWords
           then b\<lparr>bdata := fold set_bit_at [blen b..<newLen] d, blen := newLen\<rparr>
           else if newWords \<le> oldWords + length (spare b)
           then b\<lparr>bdata := cut_last newLen (fold set_bit_at [blen b..<min (oldWords * 64) newLen]
                              (d @ replicate (newWords - oldWords) (NOT 0))),
                  spare := drop (newWords - oldWords) (spare b), blen := newLen\<rparr>
           else \<lparr>bdata = cut_last newLen (fold set_bit_at [blen b..<min (oldWords * 64) newLen] d @
                              replicate (newWords - oldWords) (NOT 0)),
                 spare = replicate (max newWords (2 * (oldWords + length (spare b))) - newWords) 0,
                 blen = newLen, hasNulls = - 1\<rparr>)"

section \<open>Bits of the word list\<close>

definition vb :: "u64 list \<Rightarrow> nat \<Rightarrow> bool" where
  "vb d i = bit (d ! (i div 64)) (i mod 64)"

lemma bit_two_pow [simp]: "bit (2 ^ i :: u64) j \<longleftrightarrow> i = j \<and> j < 64"
  by (auto simp: bit_exp_iff possible_bit_def)

lemma bit_low_mask: "bit (low_mask r) j \<longleftrightarrow> j < r \<and> j < 64"
  unfolding low_mask_def push_bit_of_1 mask_eq_exp_minus_1 [symmetric] by (auto simp: bit_simps)

lemma word_null_vb: "word_null d i \<longleftrightarrow> \<not> vb d i"
proof -
  have "(w AND push_bit k 1 = 0) \<longleftrightarrow> \<not> bit w k" if "k < 64" for w :: u64 and k
  proof -
    have b: "bit (w AND push_bit k 1) n \<longleftrightarrow> n = k \<and> bit w k" for n using that by (auto simp: bit_and_iff)
    show ?thesis
    proof
      assume "w AND push_bit k 1 = 0"
      then show "\<not> bit w k" using b [of k] by simp
    next
      assume "\<not> bit w k"
      then show "w AND push_bit k 1 = 0" using b by (intro bit_word_eqI) simp
    qed
  qed
  then show ?thesis by (simp add: word_null_def vb_def)
qed

lemma div_mod_eq_iff: "i = j \<longleftrightarrow> i div 64 = j div 64 \<and> i mod 64 = j mod 64" for i j :: nat
  by (metis div_mult_mod_eq)

lemma le_div_mod: "i \<le> j \<longleftrightarrow> i div 64 < j div 64 \<or> (i div 64 = j div 64 \<and> i mod 64 \<le> j mod 64)" for i j :: nat
proof (cases "i div 64" "j div 64" rule: linorder_cases)
  case less
  then show ?thesis using div_le_mono [of j i 64] by linarith
next
  case equal
  then show ?thesis using div_mult_mod_eq [of i 64] div_mult_mod_eq [of j 64] by linarith
next
  case greater
  then show ?thesis using div_le_mono [of i j 64] by linarith
qed

lemma vb_set [simp]: "i div 64 < length d \<Longrightarrow> vb (set_bit_at i d) j \<longleftrightarrow> j = i \<or> vb d j"
  by (auto simp: vb_def set_bit_at_def nth_list_update bit_or_iff div_mod_eq_iff [of j i])

lemma vb_clear: "w < length d \<Longrightarrow> vb (clear_mask w m d) j \<longleftrightarrow> vb d j \<and> \<not> (j div 64 = w \<and> bit m (j mod 64))"
  by (auto simp: vb_def clear_mask_def nth_list_update bit_and_iff bit_not_iff)

lemma length_set_bit [simp]: "length (set_bit_at i d) = length d" "length (clear_mask w m d) = length d"
  by (simp_all add: set_bit_at_def clear_mask_def)

lemma length_fold_set [simp]: "length (fold set_bit_at is d) = length d"
  by (induction "is" arbitrary: d) simp_all

lemma vb_fold_set:
  "n \<le> 64 * length d \<Longrightarrow> vb (fold set_bit_at [a..<n] d) j \<longleftrightarrow> vb d j \<or> (a \<le> j \<and> j < n)"
proof (induction n arbitrary: j)
  case (Suc n)
  show ?case
  proof (cases "a \<le> n")
    case True
    have "n < length d * 64" using Suc.prems by simp
    then have "n div 64 < length (fold set_bit_at [a..<n] d)" by (simp only: length_fold_set less_mult_imp_div_less)
    moreover have "fold set_bit_at [a..<Suc n] d = set_bit_at n (fold set_bit_at [a..<n] d)" using True by simp
    ultimately have "vb (fold set_bit_at [a..<Suc n] d) j \<longleftrightarrow> j = n \<or> vb (fold set_bit_at [a..<n] d) j"
      by (simp only: vb_set)
    then show ?thesis using True Suc.IH [of j] Suc.prems by (auto simp only: less_Suc_eq Suc_le_eq less_imp_le)
  qed auto
qed simp

lemma bit_range_mask: "endBit < 64 \<Longrightarrow> bit (range_mask a endBit) j \<longleftrightarrow> a \<le> j \<and> j \<le> endBit"
proof -
  have "bit (fold (\<lambda>i m. m OR push_bit i 1) [a..<n] (0 :: u64)) j \<longleftrightarrow> a \<le> j \<and> j < n" if "n \<le> 64" for n
    using that by (induction n) (auto simp: bit_simps)
  from this [of "Suc endBit"] show "endBit < 64 \<Longrightarrow> ?thesis" unfolding range_mask_def less_Suc_eq_le by (simp only:)
qed

lemma vb_fold_zero:
  "(\<And>w. w \<in> set ws \<Longrightarrow> w < length d) \<Longrightarrow> vb (fold (\<lambda>w d. d[w := 0]) ws d) j \<longleftrightarrow> vb d j \<and> j div 64 \<notin> set ws"
  "length (fold (\<lambda>w d. d[w := (0 :: u64)]) ws d) = length d"
  by (induction ws arbitrary: d) (auto simp: vb_def nth_list_update)

lemma words_for_div: "words_for n = n div 64 + (if n mod 64 = 0 then 0 else 1)"
proof -
  obtain q r where q: "n = 64 * q + r" "r < 64" "n div 64 = q" "n mod 64 = r"
    by (metis div_mult_mod_eq mod_less_divisor mult.commute zero_less_numeral)
  have "(64 * q + r + 63) div 64 = q + (if r = 0 then 0 else 1)"
    by (rule div_nat_eqI) (use q(2) in \<open>simp_all split: if_split\<close>)
  then show ?thesis using q by (simp add: words_for_def)
qed

lemma vb_trim_last:
  assumes "j < 64 * words_for n"
  shows "vb (trim_last n (replicate (words_for n) (NOT 0))) j \<longleftrightarrow> j < n"
proof -
  have j: "j div 64 < words_for n" using assms by (simp add: less_mult_imp_div_less)
  show ?thesis
  proof (cases "n mod 64 = 0")
    case True
    then have "j < n" using assms words_for_div [of n] by auto
    then show ?thesis using j True by (simp add: trim_last_def vb_def bit_simps)
  next
    case False
    have "j < n \<longleftrightarrow> j div 64 < n div 64 \<or> (j div 64 = n div 64 \<and> j mod 64 < n mod 64)"
      using le_div_mod [of n j] by auto
    moreover have "words_for n - 1 = n div 64" "words_for n = Suc (n div 64)" using words_for_div [of n] False by auto
    moreover have "trim_last n (replicate (words_for n) (NOT 0)) ! (j div 64) =
        (if j div 64 = words_for n - 1 then low_mask (n mod 64) else NOT 0)"
      using False j by (simp add: trim_last_def nth_list_update del: replicate.simps)
    ultimately show ?thesis using j by (auto simp: vb_def bit_low_mask bit_simps)
  qed
qed

lemma length_trim_last [simp]: "length (trim_last n d) = length d"
  by (simp add: trim_last_def)

section \<open>Invariant and abstraction\<close>

text \<open>A bitmap stands for the list of its rows' validity. Well-formed: the words the length needs, zero padding
  after the last row, and a cache that is unknown (-1) or right.\<close>

definition bm_valid :: "bitmap \<Rightarrow> nat \<Rightarrow> bool" where "bm_valid b i = vb (bdata b) i"

definition bm_abs :: "bitmap \<Rightarrow> bool list" where "bm_abs b = map (bm_valid b) [0..<blen b]"

definition no_nulls :: "bitmap \<Rightarrow> bool" where "no_nulls b = (False \<notin> set (bm_abs b))"

definition shape_ok :: "nat \<Rightarrow> u64 list \<Rightarrow> bool" where
  "shape_ok n d = (length d = words_for n \<and> (\<forall>j \<in> {n..<64 * length d}. \<not> vb d j))"

definition bm_ok :: "bitmap \<Rightarrow> bool" where
  "bm_ok b = (shape_ok (blen b) (bdata b) \<and> hasNulls b \<in> {- 1, 0, 1} \<and>
     (hasNulls b = 0 \<longrightarrow> no_nulls b) \<and> (hasNulls b = 1 \<longrightarrow> \<not> no_nulls b))"

lemma bm_abs_nth [simp]: "length (bm_abs b) = blen b" "i < blen b \<Longrightarrow> bm_abs b ! i = vb (bdata b) i"
  by (simp_all add: bm_abs_def bm_valid_def)

lemma all_valid_iff: "no_nulls b \<longleftrightarrow> (\<forall>i < blen b. vb (bdata b) i)"
  by (auto simp: no_nulls_def in_set_conv_nth)

lemma words_for_le: "n \<le> 64 * words_for n"
proof -
  have m: "n mod 64 < 64" and d: "n div 64 * 64 + n mod 64 = n" by simp_all
  have "n mod 64 \<le> 64 * (if n mod 64 = 0 then 0 else 1)" using m by simp
  with d show ?thesis unfolding words_for_div add_mult_distrib2 by linarith
qed

lemma shape_okD:
  assumes "shape_ok n d"
  shows "length d = words_for n" "n \<le> 64 * length d" "i < n \<Longrightarrow> i div 64 < length d"
    "n \<le> j \<Longrightarrow> j < 64 * length d \<Longrightarrow> \<not> vb d j"
proof -
  show l: "length d = words_for n" using assms by (simp add: shape_ok_def)
  then show le: "n \<le> 64 * length d" using words_for_le [of n] by simp
  show "i div 64 < length d" if "i < n"
  proof -
    have "i < length d * 64" using that le by simp
    then show ?thesis by (rule less_mult_imp_div_less)
  qed
  show "n \<le> j \<Longrightarrow> j < 64 * length d \<Longrightarrow> \<not> vb d j" using assms by (simp add: shape_ok_def)
qed

lemma fresh_shape: "shape_ok n (trim_last n (replicate (words_for n) (NOT 0)))"
  using vb_trim_last [of _ n] by (auto simp: shape_ok_def)

lemma fresh_valid: "i < n \<Longrightarrow> vb (trim_last n (replicate (words_for n) (NOT 0))) i"
  using vb_trim_last [of i n] words_for_le [of n] by simp

lemma NewBitmap_ok: "bm_ok (NewBitmap n)" "bm_abs (NewBitmap n) = replicate n True"
proof -
  show "bm_abs (NewBitmap n) = replicate n True"
    by (rule nth_equalityI) (simp_all add: NewBitmap_def fresh_valid [simplified])
  then have "no_nulls (NewBitmap n)" by (simp add: no_nulls_def)
  then show "bm_ok (NewBitmap n)"
    unfolding bm_ok_def by (simp add: NewBitmap_def fresh_shape [simplified])
qed

lemma ResetNonNull_ok: "bm_ok (ResetNonNull n b)" "bm_abs (ResetNonNull n b) = replicate n True"
proof -
  show "bm_abs (ResetNonNull n b) = replicate n True"
    by (rule nth_equalityI) (simp_all add: ResetNonNull_def Let_def fresh_valid [simplified])
  then have "no_nulls (ResetNonNull n b)" by (simp add: no_nulls_def)
  then show "bm_ok (ResetNonNull n b)"
    unfolding bm_ok_def by (simp add: ResetNonNull_def Let_def fresh_shape [simplified])
qed

lemma NewBitmapAllNull_ok: "bm_ok (NewBitmapAllNull n)" "bm_abs (NewBitmapAllNull n) = replicate n False"
proof -
  have v: "\<not> vb (replicate (words_for n) 0) j" if "j < 64 * words_for n" for j
  proof -
    have "j div 64 < words_for n" using that by (simp add: less_mult_imp_div_less)
    then show ?thesis by (simp add: vb_def)
  qed
  show a: "bm_abs (NewBitmapAllNull n) = replicate n False"
    by (rule nth_equalityI) (use v words_for_le [of n] in \<open>simp_all add: NewBitmapAllNull_def\<close>)
  have "shape_ok n (replicate (words_for n) 0)" using v by (simp add: shape_ok_def)
  moreover have "no_nulls (NewBitmapAllNull n) \<longleftrightarrow> n = 0" by (simp add: no_nulls_def a)
  ultimately show "bm_ok (NewBitmapAllNull n)"
    unfolding bm_ok_def by (cases "n = 0") (simp_all add: NewBitmapAllNull_def)
qed

section \<open>Reading\<close>

lemma IsNull_ok: "IsNull i b \<longleftrightarrow> i < 0 \<or> int (blen b) \<le> i \<or> \<not> bm_abs b ! nat i"
  by (auto simp: IsNull_def word_null_vb)

lemma IsNullFast_ok: "bm_ok b \<Longrightarrow> i < blen b \<Longrightarrow> IsNullFast i b = Some (\<not> bm_abs b ! i)"
  using shape_okD(3) [of "blen b" "bdata b" i] by (simp add: IsNullFast_def bm_ok_def word_null_vb)

lemma full_word_iff: "w = NOT 0 \<longleftrightarrow> (\<forall>k < 64. bit w k)" for w :: u64
proof
  assume "\<forall>k < 64. bit w k"
  then show "w = NOT 0" by (intro bit_word_eqI) simp
qed (simp add: bit_simps)

lemma low_word_iff:
  assumes "r < 64" and "\<forall>k \<in> {r..<64}. \<not> bit w k"
  shows "w = low_mask r \<longleftrightarrow> (\<forall>k < r. bit w k)"
proof
  assume a: "\<forall>k < r. bit w k"
  show "w = low_mask r"
  proof (rule bit_word_eqI)
    fix k assume "k < LENGTH(64)"
    then show "bit w k = bit (low_mask r) k" using a assms by (cases "k < r") (auto simp: bit_low_mask)
  qed
qed (use assms(1) in \<open>simp add: bit_low_mask\<close>)

lemma vb_word: "k < 64 \<Longrightarrow> vb d (64 * w + k) \<longleftrightarrow> bit (d ! w) k"
  by (simp add: vb_def)

lemma all_vb_words:
  "(\<forall>i < 64 * m. vb d i) \<longleftrightarrow> (\<forall>w < m. d ! w = NOT 0)"
proof
  assume a: "\<forall>i < 64 * m. vb d i"
  show "\<forall>w < m. d ! w = NOT 0"
  proof (intro allI impI)
    fix w assume w: "w < m"
    have "bit (d ! w) k" if "k < 64" for k
    proof -
      have "64 * w + k < 64 * Suc w" using that by simp
      also have "\<dots> \<le> 64 * m" using w by (intro mult_le_mono2) simp
      finally show ?thesis using a vb_word [OF that] by blast
    qed
    then show "d ! w = NOT 0" unfolding full_word_iff by blast
  qed
next
  assume a: "\<forall>w < m. d ! w = NOT 0"
  show "\<forall>i < 64 * m. vb d i"
  proof (intro allI impI)
    fix i assume "i < 64 * m"
    then have "i div 64 < m" by (simp add: less_mult_imp_div_less)
    then show "vb d i" using a by (simp add: vb_def bit_simps)
  qed
qed

lemma all_less_add: "(\<forall>i < x + y. P i) \<longleftrightarrow> (\<forall>i < x. P i) \<and> (\<forall>k < y. P (x + k))" for x y :: nat
proof (intro iffI conjI allI impI)
  fix i assume a: "(\<forall>i < x. P i) \<and> (\<forall>k < y. P (x + k))" and i: "i < x + y"
  show "P i"
  proof (cases "i < x")
    case False
    then have "P (x + (i - x))" using a i by (intro a [THEN conjunct2, rule_format]) simp
    then show ?thesis using False by simp
  qed (use a in blast)
qed simp_all

lemma scan_nulls_ok:
  assumes s: "shape_ok (blen b) (bdata b)"
  shows "scan_nulls b \<longleftrightarrow> \<not> no_nulls b"
proof -
  let ?d = "bdata b" and ?n = "blen b"
  note t = shape_okD [OF s]
  have bl: "(\<exists>w \<in> set (butlast ?d). w \<noteq> NOT 0) \<longleftrightarrow> \<not> (\<forall>i < 64 * (length ?d - 1). vb ?d i)"
  proof -
    have "(\<forall>w \<in> set (butlast ?d). w = NOT 0) \<longleftrightarrow> (\<forall>w < length ?d - 1. ?d ! w = NOT 0)"
      unfolding all_set_conv_all_nth length_butlast using nth_butlast [of _ ?d] by auto
    then show ?thesis unfolding all_vb_words by blast
  qed
  show ?thesis
  proof (cases "?n mod 64 = 0")
    case True
    then have n: "?n = 64 * length ?d" using t(1) words_for_div [of ?n] div_mult_mod_eq [of ?n 64] by simp
    have "no_nulls b \<longleftrightarrow> (\<forall>w < length ?d. ?d ! w = NOT 0)"
      unfolding all_valid_iff n all_vb_words ..
    also have "\<dots> \<longleftrightarrow> (\<forall>w \<in> set ?d. w = NOT 0)" by (auto simp: all_set_conv_all_nth)
    also have "\<dots> \<longleftrightarrow> \<not> scan_nulls b"
      using True by (cases ?d rule: rev_cases) (auto simp: scan_nulls_def Let_def)
    finally show ?thesis by blast
  next
    case False
    let ?q = "?n div 64" and ?r = "?n mod 64"
    have len: "length ?d = Suc ?q" using t(1) words_for_div [of ?n] False by simp
    then have la: "last ?d = ?d ! ?q" by (cases ?d rule: rev_cases) (auto simp: nth_append)
    have n: "?n = 64 * ?q + ?r" "?r < 64" by simp_all
    have pad: "\<not> bit (?d ! ?q) k" if "k \<in> {?r..<64}" for k
    proof -
      have "?n \<le> 64 * ?q + k" "64 * ?q + k < 64 * length ?d" using that n len by (simp_all, linarith)
      then show ?thesis using t(4) vb_word [of k ?d ?q] that by simp
    qed
    have "no_nulls b \<longleftrightarrow> (\<forall>i < 64 * ?q. vb ?d i) \<and> (\<forall>k < ?r. vb ?d (64 * ?q + k))"
    proof -
      have "no_nulls b \<longleftrightarrow> (\<forall>i < 64 * ?q + ?r. vb ?d i)" unfolding all_valid_iff by simp
      then show ?thesis unfolding all_less_add .
    qed
    also have "(\<forall>k < ?r. vb ?d (64 * ?q + k)) \<longleftrightarrow> last ?d = low_mask ?r"
      using low_word_iff [OF n(2), of "?d ! ?q"] pad vb_word [of _ ?d ?q] n(2) unfolding la by auto
    finally show ?thesis
      using bl len False by (auto simp: scan_nulls_def Let_def)
  qed
qed

lemma HasNulls_ok:
  assumes "bm_ok b"
  shows "fst (HasNulls b) \<longleftrightarrow> \<not> no_nulls b" "bm_ok (snd (HasNulls b))" "bm_abs (snd (HasNulls b)) = bm_abs b"
proof -
  have s: "scan_nulls b \<longleftrightarrow> \<not> no_nulls b" using assms by (intro scan_nulls_ok) (simp add: bm_ok_def)
  show "fst (HasNulls b) \<longleftrightarrow> \<not> no_nulls b" using s assms by (auto simp: HasNulls_def bm_ok_def)
  have a: "bm_abs (b\<lparr>hasNulls := x\<rparr>) = bm_abs b" for x by (simp add: bm_abs_def bm_valid_def)
  show "bm_abs (snd (HasNulls b)) = bm_abs b" by (simp add: HasNulls_def a)
  show "bm_ok (snd (HasNulls b))" using s assms by (auto simp: HasNulls_def bm_ok_def no_nulls_def a)
qed

lemma ones_vb: "sum_list (map OnesCount64 d) = length (filter (vb d) [0..<64 * length d])"
proof (induction d rule: rev_induct)
  case Nil
  then show ?case by simp
next
  case (snoc w d)
  have r: "[0..<64 * length (d @ [w])] = [0..<64 * length d] @ map (\<lambda>k. 64 * length d + k) [0..<64]"
    using upt_add_eq_append [of 0 "64 * length d" 64] map_add_upt [of "64 * length d" 64] by (simp add: add.commute)
  have "vb (d @ [w]) j = vb d j" if "j < 64 * length d" for j
  proof -
    have "j div 64 < length d" using that by (simp add: less_mult_imp_div_less)
    then show ?thesis by (simp add: vb_def nth_append)
  qed
  then have a: "filter (vb (d @ [w])) [0..<64 * length d] = filter (vb d) [0..<64 * length d]"
    by (intro filter_cong) auto
  have "vb (d @ [w]) (64 * length d + k) = bit w k" if "k < 64" for k using vb_word [OF that, of "d @ [w]" "length d"] by simp
  then have "filter (\<lambda>k. vb (d @ [w]) (64 * length d + k)) [0..<64] = filter (bit w) [0..<64]"
    by (intro filter_cong) auto
  then show ?case unfolding r using snoc a by (simp add: filter_map comp_def OnesCount64_def)
qed

lemma NullCount_ok:
  assumes "shape_ok (blen b) (bdata b)"
  shows "NullCount b = int (length (filter Not (bm_abs b)))"
proof -
  let ?d = "bdata b" and ?n = "blen b"
  note t = shape_okD [OF assms]
  have "[0..<64 * length ?d] = [0..<?n] @ [?n..<64 * length ?d]"
    using upt_add_eq_append [of 0 ?n "64 * length ?d - ?n"] t(2) by simp
  moreover have "filter (vb ?d) [?n..<64 * length ?d] = []" using t(4) by (auto simp: filter_empty_conv)
  ultimately have "sum_list (map OnesCount64 ?d) = length (filter (vb ?d) [0..<?n])" by (simp add: ones_vb)
  moreover have "filter Not (bm_abs b) = map (vb ?d) (filter (\<lambda>i. \<not> vb ?d i) [0..<?n])"
    by (simp add: bm_abs_def bm_valid_def filter_map comp_def)
  moreover have "length (filter (vb ?d) [0..<?n]) + length (filter (\<lambda>i. \<not> vb ?d i) [0..<?n]) = ?n"
    using sum_length_filter_compl [of "vb ?d" "[0..<?n]"] by simp
  ultimately show ?thesis by (simp add: NullCount_def)
qed

section \<open>Writing\<close>

lemma shape_update:
  assumes "shape_ok n d" and "length d' = length d" and "\<And>j. n \<le> j \<Longrightarrow> vb d' j \<Longrightarrow> vb d j"
  shows "shape_ok n d'"
  using assms unfolding shape_ok_def Ball_def atLeastLessThan_iff by metis

lemma bm_abs_upd:
  assumes "\<And>i. i < blen b \<Longrightarrow> vb d i = f i"
  shows "bm_abs (b\<lparr>hasNulls := h, bdata := d\<rparr>) = map f [0..<blen b]"
  using assms by (simp add: bm_abs_def bm_valid_def)

lemma SetNull_ok:
  assumes ok: "bm_ok b" and i: "0 \<le> i" "i < int (blen b)"
  shows "bm_ok (SetNull i b)" "bm_abs (SetNull i b) = (bm_abs b)[nat i := False]"
proof -
  let ?d = "clear_mask (nat i div 64) (push_bit (nat i mod 64) 1) (bdata b)"
  have s: "shape_ok (blen b) (bdata b)" using ok by (simp add: bm_ok_def)
  have n: "nat i < blen b" using i by linarith
  have v: "vb ?d j \<longleftrightarrow> vb (bdata b) j \<and> j \<noteq> nat i" for j
    using vb_clear [OF shape_okD(3) [OF s n], of "push_bit (nat i mod 64) 1" j] by (auto simp: div_mod_eq_iff [of j "nat i"])
  have e: "SetNull i b = b\<lparr>bdata := ?d, hasNulls := 1\<rparr>" using i by (simp add: SetNull_def)
  show a: "bm_abs (SetNull i b) = (bm_abs b)[nat i := False]"
    using n v by (intro nth_equalityI) (simp_all add: e nth_list_update)
  have "shape_ok (blen b) ?d" by (rule shape_update [OF s]) (use v in auto)
  then show "bm_ok (SetNull i b)" using n v by (auto simp: bm_ok_def e all_valid_iff)
qed

lemma SetValid_ok:
  assumes ok: "bm_ok b" and i: "0 \<le> i" "i < int (blen b)"
  shows "bm_ok (SetValid i b)" "bm_abs (SetValid i b) = (bm_abs b)[nat i := True]"
proof -
  let ?d = "set_bit_at (nat i) (bdata b)"
  have s: "shape_ok (blen b) (bdata b)" using ok by (simp add: bm_ok_def)
  have n: "nat i < blen b" using i by linarith
  have v: "vb ?d j \<longleftrightarrow> j = nat i \<or> vb (bdata b) j" for j by (rule vb_set [OF shape_okD(3) [OF s n]])
  have e: "SetValid i b = b\<lparr>bdata := ?d, hasNulls := (if hasNulls b = 1 then - 1 else hasNulls b)\<rparr>"
    using i by (simp add: SetValid_def)
  show a: "bm_abs (SetValid i b) = (bm_abs b)[nat i := True]"
    using n v by (intro nth_equalityI) (simp_all add: e nth_list_update)
  have "shape_ok (blen b) ?d" by (rule shape_update [OF s]) (use v n in auto)
  then show "bm_ok (SetValid i b)" using ok v by (auto simp: bm_ok_def e all_valid_iff)
qed

lemma set_null_words:
  assumes d: "e \<le> 64 * length d" and "start < e"
  defines "sw \<equiv> start div 64" and "ew \<equiv> (e - 1) div 64" and "sb \<equiv> start mod 64" and "eb \<equiv> (e - 1) mod 64"
  assumes ne: "sw \<noteq> ew"
  defines "p \<equiv> (if sb > 0 then (clear_mask sw (NOT (low_mask sb)) d, sw + 1) else (d, sw))"
  defines "r \<equiv> clear_mask ew (low_mask (eb + 1)) (fold (\<lambda>w d. d[w := 0]) [snd p..<ew] (fst p))"
  shows "length r = length d" "vb r j \<longleftrightarrow> vb d j \<and> \<not> (start \<le> j \<and> j < e)"
proof -
  have e1: "e - 1 < length d * 64" using d assms(2) by simp
  have ew: "ew < length d" unfolding ew_def by (rule less_mult_imp_div_less [OF e1])
  have "sw \<le> ew" unfolding sw_def ew_def using assms(2) by (intro div_le_mono) simp
  then have sw: "sw < ew" using ne by simp
  have lp: "length (fst p) = length d" by (simp add: p_def)
  have ws: "w < length (fst p)" if "w \<in> set [snd p..<ew]" for w using that ew lp by simp
  show "length r = length d" by (simp add: r_def vb_fold_zero(2) lp)
  have "vb (fst p) j \<longleftrightarrow> vb d j \<and> \<not> (0 < sb \<and> j div 64 = sw \<and> sb \<le> j mod 64)"
    using vb_clear [of sw d "NOT (low_mask sb)" j] sw ew
    by (auto simp: p_def bit_not_iff bit_low_mask)
  then have "vb r j \<longleftrightarrow> (vb d j \<and> \<not> (0 < sb \<and> j div 64 = sw \<and> sb \<le> j mod 64)) \<and>
      \<not> (snd p \<le> j div 64 \<and> j div 64 < ew) \<and> \<not> (j div 64 = ew \<and> j mod 64 \<le> eb)"
    unfolding r_def using vb_fold_zero(1) [OF ws, of "[snd p..<ew]" j] ew
    by (subst vb_clear) (auto simp: vb_fold_zero(2) lp bit_low_mask)
  moreover have "snd p = (if 0 < sb then sw + 1 else sw)" by (simp add: p_def)
  moreover have "start \<le> j \<longleftrightarrow> sw < j div 64 \<or> (sw = j div 64 \<and> sb \<le> j mod 64)"
    unfolding sw_def sb_def by (rule le_div_mod)
  moreover have "j \<le> e - 1 \<longleftrightarrow> j div 64 < ew \<or> (j div 64 = ew \<and> j mod 64 \<le> eb)"
    unfolding ew_def eb_def by (rule le_div_mod)
  moreover have "j < e \<longleftrightarrow> j \<le> e - 1" using assms(2) by auto
  ultimately show "vb r j \<longleftrightarrow> vb d j \<and> \<not> (start \<le> j \<and> j < e)" using sw by (auto split: if_splits)
qed

definition range_end :: "int \<Rightarrow> int \<Rightarrow> bitmap \<Rightarrow> nat" where
  "range_end start count b = (if start + count > int (blen b) then blen b else nat (start + count))"

lemma sdiv64_nat: "int n sdiv 64 = int (n div 64)" "int n smod 64 = int (n mod 64)"
  by (cases "n = 0"; simp add: signed_divide_int_def signed_modulo_int_def sgn_if zdiv_int zmod_int)+

lemma sdiv64_neg: "x \<le> - 64 \<Longrightarrow> x sdiv 64 < 0" for x :: int
proof -
  assume x: "x \<le> - 64"
  then have "1 \<le> \<bar>x\<bar> div 64" using zdiv_mono1 [of 64 "\<bar>x\<bar>" 64] by simp
  then show ?thesis using x by (simp add: signed_divide_int_def sgn_if)
qed

lemma clear_at_nat: "w < length d \<Longrightarrow> clear_at (int w) m d = Some (clear_mask w m d)"
  by (simp add: clear_at_def)

lemma zero_words_nat: "e \<le> length d \<Longrightarrow> zero_words (int w) (int e) d = Some (fold (\<lambda>w d. d[w := 0]) [w..<e] d)"
  by (simp add: zero_words_def)

text \<open>A range whose end does not wrap, over row numbers.\<close>

lemma SetNullRange_words:
  assumes s: "shape_ok (blen b) (bdata b)" and b: "int (blen b) \<le> 2 ^ 62"
    and r: "0 < count" "0 \<le> start" "start < int (blen b)" "start + count < 2 ^ 63"
  defines "e \<equiv> range_end start count b"
  shows "\<exists>d. SetNullRange start count b = Some (b\<lparr>hasNulls := 1, bdata := d\<rparr>) \<and> length d = length (bdata b) \<and>
      (\<forall>j. vb d j \<longleftrightarrow> vb (bdata b) j \<and> \<not> (nat start \<le> j \<and> j < e))"
proof -
  let ?s = "nat start"
  have e: "e \<le> blen b" "?s < e" using r by (auto simp: e_def range_end_def)
  have sl: "?s div 64 < length (bdata b)" using shape_okD(3) [OF s, of ?s] r by simp
  have el: "(e - 1) div 64 < length (bdata b)" using shape_okD(3) [OF s, of "e - 1"] e by simp
  have w: "(if int (blen b) < wrap64 (start + count) then int (blen b) else wrap64 (start + count)) = int e"
    "wrap64 (int e - 1) = int (e - 1)"
    using r b e by (simp_all add: e_def range_end_def of_nat_diff)
  have sb: "nat (int ((e - 1) mod 64) mod 2 ^ 64) = (e - 1) mod 64" "((e - 1) mod 64 + 1) mod 2 ^ 64 = (e - 1) mod 64 + 1"
    by (simp_all add: zmod_int [symmetric])
  have st: "start sdiv 64 = int (?s div 64)" "nat (start smod 64) = ?s mod 64"
    using sdiv64_nat [of ?s] r by simp_all
  note unf = SetNullRange_def Let_def w st sdiv64_nat sb nat_int int_int_eq
  have g: "\<not> (count \<le> 0 \<or> start < 0 \<or> int (blen b) \<le> start)" using r by simp
  show ?thesis
  proof (cases "?s div 64 = (e - 1) div 64")
    case True
    let ?d = "clear_mask (?s div 64) (range_mask (?s mod 64) ((e - 1) mod 64)) (bdata b)"
    have "vb ?d j \<longleftrightarrow> vb (bdata b) j \<and> \<not> (?s \<le> j \<and> j < e)" for j
    proof -
      have "j < e \<longleftrightarrow> j \<le> e - 1" using e(2) by auto
      then have "?s \<le> j \<and> j < e \<longleftrightarrow> j div 64 = ?s div 64 \<and> ?s mod 64 \<le> j mod 64 \<and> j mod 64 \<le> (e - 1) mod 64"
        using le_div_mod [of ?s j] le_div_mod [of j "e - 1"] True by auto
      then show ?thesis using vb_clear [OF sl, of "range_mask (?s mod 64) ((e - 1) mod 64)" j] by (auto simp: bit_range_mask)
    qed
    moreover have "SetNullRange start count b = Some (b\<lparr>hasNulls := 1, bdata := ?d\<rparr>)"
      using g True by (simp only: unf clear_at_nat [OF el] if_False if_True option.map refl)
    ultimately show ?thesis by (intro exI [of _ ?d]) simp
  next
    case False
    have le: "e \<le> 64 * length (bdata b)" using e(1) shape_okD(2) [OF s] by simp
    let ?p = "if ?s mod 64 > 0 then (clear_mask (?s div 64) (NOT (low_mask (?s mod 64))) (bdata b), ?s div 64 + 1)
      else (bdata b, ?s div 64)"
    let ?d = "clear_mask ((e - 1) div 64) (low_mask ((e - 1) mod 64 + 1))
      (fold (\<lambda>w d. d[w := 0]) [snd ?p..<(e - 1) div 64] (fst ?p))"
    have zs: "int (?s div 64) + 1 = int (?s div 64 + 1)" by simp
    note w' = set_null_words [OF le e(2) False]
    have "SetNullRange start count b = Some (b\<lparr>hasNulls := 1, bdata := ?d\<rparr>)"
    proof (cases "0 < ?s mod 64")
      case True
      then show ?thesis using g False el
        by (simp only: unf clear_at_nat [OF sl] zs zero_words_nat clear_at_nat if_False if_True option.map option.case
          prod.case fst_conv snd_conv length_set_bit vb_fold_zero(2) less_imp_le)
    next
      case sb0: False
      then show ?thesis using g False el
        by (simp only: unf zero_words_nat clear_at_nat if_False if_True option.map option.case
          prod.case fst_conv snd_conv length_set_bit vb_fold_zero(2) less_imp_le)
    qed
    then show ?thesis using w' by (intro exI [of _ ?d]) blast
  qed
qed

lemma SetNullRange_ok:
  assumes ok: "bm_ok b" and b: "int (blen b) \<le> 2 ^ 62"
    and r: "0 < count" "0 \<le> start" "start < int (blen b)" "start + count < 2 ^ 63"
  shows "\<exists>b'. SetNullRange start count b = Some b' \<and> bm_ok b' \<and>
    bm_abs b' = map (\<lambda>i. bm_abs b ! i \<and> \<not> (nat start \<le> i \<and> i < range_end start count b)) [0..<blen b]"
proof -
  let ?e = "range_end start count b" and ?s = "nat start"
  have s: "shape_ok (blen b) (bdata b)" using ok by (simp add: bm_ok_def)
  obtain d where d: "SetNullRange start count b = Some (b\<lparr>hasNulls := 1, bdata := d\<rparr>)" "length d = length (bdata b)"
    "\<And>j. vb d j \<longleftrightarrow> vb (bdata b) j \<and> \<not> (?s \<le> j \<and> j < ?e)"
    using SetNullRange_words [OF s b r] by blast
  let ?b = "b\<lparr>hasNulls := 1, bdata := d\<rparr>"
  have e: "?e \<le> blen b" "?s < ?e" using r by (auto simp: range_end_def)
  have "bm_abs ?b = map (\<lambda>i. bm_abs b ! i \<and> \<not> (?s \<le> i \<and> i < ?e)) [0..<blen b]"
    by (rule nth_equalityI) (simp_all add: d(3))
  moreover have "shape_ok (blen b) d" by (rule shape_update [OF s]) (use d in auto)
  moreover have "\<not> vb d ?s" using d(3) e(2) by simp
  ultimately show ?thesis
    using r d(1) by (auto simp: bm_ok_def all_valid_iff intro!: exI [of _ ?s])
qed

text \<open>A sum that wraps is negative, or 2^63 - 1 after the decrement: the last word has no valid index.\<close>

lemma SetNullRange_overflow:
  assumes s: "shape_ok (blen b) (bdata b)" and b: "int (blen b) \<le> 2 ^ 62"
    and r: "0 \<le> start" "start < int (blen b)" "2 ^ 63 \<le> start + count" "count < 2 ^ 63"
  shows "SetNullRange start count b = None"
proof -
  let ?e = "wrap64 (start + count)"
  have e: "?e = start + count - 2 ^ 64"
  proof -
    have "(start + count + 2 ^ 63) mod 2 ^ 64 = (start + count - 2 ^ 63 + 1 * 2 ^ 64) mod 2 ^ 64" by (simp add: add.commute)
    also have "\<dots> = start + count - 2 ^ 63" unfolding mod_mult_self1 using b r by simp
    finally show ?thesis by (simp add: wrap64_def)
  qed
  have sl: "nat start div 64 < length (bdata b)" using shape_okD(3) [OF s, of "nat start"] r by simp
  have st: "start sdiv 64 = int (nat start div 64)" using sdiv64_nat [of "nat start"] r by simp
  have len: "int (length (bdata b)) \<le> 2 ^ 57 - 2"
  proof -
    have "words_for (blen b) \<le> words_for (2 ^ 62)" unfolding words_for_def using b by (intro div_le_mono) simp
    then show ?thesis using shape_okD(1) [OF s] by (simp add: words_for_def)
  qed
  have ne: "\<not> int (blen b) < ?e" using e b r by simp
  have g: "\<not> (count \<le> 0 \<or> start < 0 \<or> int (blen b) \<le> start)" using r b by simp
  let ?E = "wrap64 (?e - 1) sdiv 64"
  have E: "?E = 2 ^ 57 - 1 \<or> ?E < 0"
  proof (cases "start + count = 2 ^ 63")
    case True
    then show ?thesis unfolding e by (simp add: wrap64_def signed_divide_int_def)
  next
    case False
    then have "wrap64 (?e - 1) = start + count - 2 ^ 64 - 1" unfolding e using r b by (simp add: wrap64_def)
    then have "wrap64 (?e - 1) \<le> - 64" using r b by simp
    then show ?thesis using sdiv64_neg by blast
  qed
  then have "int (nat start div 64) \<noteq> ?E" using sl len by auto
  moreover have "zero_words w ?E d = None" if "?E = 2 ^ 57 - 1" "w \<le> int (length d)" "length d = length (bdata b)" for w d
    using that len by (simp add: zero_words_def)
  moreover have "clear_at ?E m d = None" if "?E < 0" for m d using that by (simp add: clear_at_def)
  ultimately show ?thesis using E g sl
    by (auto simp: SetNullRange_def Let_def ne st clear_at_nat split: option.splits)
qed

section \<open>Growing\<close>

lemma words_for_mono: "m \<le> n \<Longrightarrow> words_for m \<le> words_for n"
  unfolding words_for_def by (rule div_le_mono) simp

lemma fold_set_append: "b \<le> 64 * length d \<Longrightarrow> fold set_bit_at [a..<b] (d @ r) = fold set_bit_at [a..<b] d @ r"
proof (induction b)
  case (Suc b)
  have "b < length d * 64" using Suc.prems by simp
  then have "b div 64 < length d" by (rule less_mult_imp_div_less)
  then have "set_bit_at b (fold set_bit_at [a..<b] d @ r) = set_bit_at b (fold set_bit_at [a..<b] d) @ r"
    by (simp add: set_bit_at_def nth_append list_update_append)
  then show ?case using Suc by simp
qed simp

lemma vb_append:
  "vb (d @ replicate m (NOT 0)) j \<longleftrightarrow> (if j < 64 * length d then vb d j else True)" if "j < 64 * (length d + m)"
proof (cases "j < 64 * length d")
  case True
  then have "j div 64 < length d" by (simp add: less_mult_imp_div_less)
  then show ?thesis using True by (simp add: vb_def nth_append)
next
  case False
  have "length d \<le> j div 64" using div_le_mono [of "64 * length d" j 64] False by simp
  moreover have "j div 64 < length d + m" using that by (simp add: less_mult_imp_div_less)
  ultimately show ?thesis using False by (simp add: vb_def nth_append bit_simps)
qed

lemma vb_cut_last:
  assumes l: "length d = words_for n" and j: "j < 64 * words_for n"
  shows "vb (cut_last n d) j \<longleftrightarrow> vb d j \<and> j < n"
proof (cases "n mod 64 = 0")
  case True
  then have "j < n" using j words_for_div [of n] div_mult_mod_eq [of n 64] by simp
  then show ?thesis using True by (simp add: cut_last_def)
next
  case False
  have jl: "j div 64 < words_for n" using j by (simp add: less_mult_imp_div_less)
  have w: "words_for n - 1 = n div 64" "words_for n = Suc (n div 64)" using words_for_div [of n] False by auto
  have "j < n \<longleftrightarrow> j div 64 < n div 64 \<or> (j div 64 = n div 64 \<and> j mod 64 < n mod 64)"
    using le_div_mod [of n j] by auto
  moreover have "cut_last n d ! (j div 64) =
      (if j div 64 = n div 64 then d ! (n div 64) AND low_mask (n mod 64) else d ! (j div 64))"
    using False l w by (simp add: cut_last_def nth_list_update)
  ultimately show ?thesis using jl w by (auto simp: vb_def bit_and_iff bit_low_mask)
qed

lemma Grow_words:
  assumes s: "shape_ok (blen b) (bdata b)" and n: "blen b < n"
  shows "length (bdata (Grow n b)) = words_for n"
    "j < 64 * words_for n \<Longrightarrow> vb (bdata (Grow n b)) j \<longleftrightarrow> (j < blen b \<and> vb (bdata b) j) \<or> (blen b \<le> j \<and> j < n)"
proof -
  let ?d = "bdata b"
  note t = shape_okD [OF s]
  have mono: "length ?d \<le> words_for n" using words_for_mono [of "blen b" n] n t(1) by simp
  let ?g = "cut_last n (fold set_bit_at [blen b..<min (length ?d * 64) n] ?d @ replicate (words_for n - length ?d) (NOT 0))"
  have "length (bdata (Grow n b)) = words_for n \<and>
    (\<forall>j < 64 * words_for n. vb (bdata (Grow n b)) j \<longleftrightarrow> (j < blen b \<and> vb ?d j) \<or> (blen b \<le> j \<and> j < n))"
  proof (cases "words_for n \<le> length ?d")
    case True
    then have eq: "length ?d = words_for n" using mono by simp
    have "bdata (Grow n b) = fold set_bit_at [blen b..<n] ?d" using n True by (simp add: Grow_def Let_def)
    moreover have "n \<le> 64 * length ?d" using words_for_le [of n] eq by simp
    ultimately have "vb (bdata (Grow n b)) j \<longleftrightarrow> (j < blen b \<and> vb ?d j) \<or> (blen b \<le> j \<and> j < n)"
      if "j < 64 * words_for n" for j
      using eq t(4) [of j] vb_fold_set [of n ?d "blen b" j] n that by (cases "j < blen b") (simp_all add: not_less)
    then show ?thesis using eq \<open>bdata (Grow n b) = _\<close> by simp
  next
    case False
    have le: "min (length ?d * 64) n \<le> 64 * length ?d" by simp
    have g: "bdata (Grow n b) = ?g"
      using n False fold_set_append [OF le, of "blen b" "replicate (words_for n - length ?d) (NOT 0)"]
      by (auto simp: Grow_def Let_def)
    have l: "length (fold set_bit_at [blen b..<min (length ?d * 64) n] ?d @ replicate (words_for n - length ?d) (NOT 0)) = words_for n"
      using mono by simp
    have "vb ?g j \<longleftrightarrow> (j < blen b \<and> vb ?d j) \<or> (blen b \<le> j \<and> j < n)" if j: "j < 64 * words_for n" for j
    proof -
      have "j < 64 * (length (fold set_bit_at [blen b..<min (length ?d * 64) n] ?d) + (words_for n - length ?d))"
        using j mono by simp
      note v = vb_cut_last [OF l j] vb_append [OF this] vb_fold_set [OF le, of "blen b" j]
      show ?thesis unfolding v using t(2) t(4) [of j] n by (auto simp: not_less)
    qed
    moreover have "length ?g = words_for n" using l by (simp add: cut_last_def)
    ultimately show ?thesis unfolding g by blast
  qed
  then show "length (bdata (Grow n b)) = words_for n"
    "j < 64 * words_for n \<Longrightarrow> vb (bdata (Grow n b)) j \<longleftrightarrow> (j < blen b \<and> vb ?d j) \<or> (blen b \<le> j \<and> j < n)" by blast+
qed

lemma Grow_ok:
  assumes ok: "bm_ok b"
  shows "bm_ok (Grow n b)" "bm_abs (Grow n b) = bm_abs b @ replicate (n - blen b) True"
proof -
  have "bm_ok (Grow n b) \<and> bm_abs (Grow n b) = bm_abs b @ replicate (n - blen b) True"
  proof (cases "blen b < n")
    case False
    then show ?thesis using ok by (simp add: Grow_def)
  next
    case True
    have s: "shape_ok (blen b) (bdata b)" using ok by (simp add: bm_ok_def)
    note w = Grow_words [OF s True]
    have l: "blen (Grow n b) = n" using True by (simp add: Grow_def Let_def)
    have h: "hasNulls (Grow n b) \<in> {hasNulls b, - 1}" using True by (simp add: Grow_def Let_def)
    have v: "vb (bdata (Grow n b)) i \<longleftrightarrow> (i < blen b \<and> vb (bdata b) i) \<or> blen b \<le> i" if "i < n" for i
      using w(2) [of i] that words_for_le [of n] by auto
    have a: "bm_abs (Grow n b) = bm_abs b @ replicate (n - blen b) True"
      using True v by (intro nth_equalityI) (auto simp: l nth_append)
    then have "no_nulls (Grow n b) = no_nulls b" by (simp add: no_nulls_def)
    moreover have "shape_ok n (bdata (Grow n b))" using w True by (auto simp: shape_ok_def)
    ultimately show ?thesis using ok h a l by (auto simp: bm_ok_def)
  qed
  then show "bm_ok (Grow n b)" "bm_abs (Grow n b) = bm_abs b @ replicate (n - blen b) True" by blast+
qed

section \<open>Stale words\<close>

lemma scan_nulls_padding:
  assumes l: "length (bdata b) = words_for (blen b)" and m: "blen b mod 64 \<noteq> 0" and v: "vb (bdata b) (blen b)"
  shows "scan_nulls b"
proof -
  let ?n = "blen b"
  have q: "length (bdata b) = Suc (?n div 64)" using l words_for_div [of ?n] m by simp
  then have "last (bdata b) = bdata b ! (?n div 64)" by (cases "bdata b" rule: rev_cases) (auto simp: nth_append)
  then have "bit (last (bdata b)) (?n mod 64)" using v by (simp add: vb_def)
  then have "last (bdata b) \<noteq> low_mask (?n mod 64)" by (auto simp: bit_low_mask)
  then show ?thesis using q m by (auto simp: scan_nulls_def Let_def)
qed

lemma filter_below: "length (filter (\<lambda>j. j < k) [0..<n]) = min k n" for k n :: nat
  by (induction n) auto

text \<open>The words that EnsureLen exposes after a bitmap of k valid rows was reset to m rows: the bits below k.\<close>

lemma stale_words:
  assumes mn: "words_for m < words_for n" and nk: "n < k"
  defines "b \<equiv> EnsureLen n (ResetNonNull m (NewBitmap k))"
  shows "blen b = n" "length (bdata b) = words_for n"
    "j < 64 * words_for n \<Longrightarrow> vb (bdata b) j \<longleftrightarrow> j < k" "hasNulls b = 0"
proof -
  let ?f = "\<lambda>n. trim_last n (replicate (words_for n) (NOT 0))" and ?r = "ResetNonNull m (NewBitmap k)"
  have m: "m < n" using words_for_mono [of n m] mn by linarith
  have k: "words_for n \<le> words_for k" using words_for_mono [of n k] nk by simp
  let ?d = "?f m @ take (words_for n - words_for m) (drop (words_for m) (?f k))"
  have r: "bdata ?r = ?f m" "spare ?r = drop (words_for m) (?f k)" "blen ?r = m" "hasNulls ?r = 0"
    using mn k by (simp_all add: ResetNonNull_def NewBitmap_def Let_def)
  have e: "b = ?r\<lparr>bdata := fold set_bit_at [m..<n] ?d, spare := drop (words_for n - words_for m) (spare ?r), blen := n\<rparr>"
    using m mn k unfolding b_def EnsureLen_def Let_def r by (simp add: r)
  have l: "length ?d = words_for n" using mn k by simp
  show "blen b = n" "length (bdata b) = words_for n" "hasNulls b = 0" using l r by (simp_all add: e)
  show "vb (bdata b) j \<longleftrightarrow> j < k" if j: "j < 64 * words_for n"
  proof -
    have n: "n \<le> 64 * length ?d" using words_for_le [of n] l by simp
    have m2: "64 * words_for m < n"
    proof (rule ccontr)
      assume "\<not> 64 * words_for m < n"
      then have "words_for n \<le> words_for (64 * words_for m)" by (intro words_for_mono) simp
      then show False using mn by (simp add: words_for_div)
    qed
    have jd: "j div 64 < words_for n" using j by (simp add: less_mult_imp_div_less)
    have "vb ?d j \<longleftrightarrow> (if j < 64 * words_for m then j < m else j < k)"
    proof (cases "j < 64 * words_for m")
      case True
      then have "j div 64 < words_for m" by (simp add: less_mult_imp_div_less)
      then have "vb ?d j = vb (?f m) j" by (simp add: vb_def nth_append)
      then show ?thesis using True vb_trim_last [of j m] by simp
    next
      case False
      then have ge: "words_for m \<le> j div 64" using div_le_mono [of "64 * words_for m" j 64] by simp
      then have "vb ?d j = vb (?f k) j" using jd k by (simp add: vb_def nth_append)
      then show ?thesis using False vb_trim_last [of j k] j k by simp
    qed
    then have "vb (bdata b) j \<longleftrightarrow> (if j < 64 * words_for m then j < m else j < k) \<or> (m \<le> j \<and> j < n)"
      using vb_fold_set [OF n, of m j] by (simp add: e)
    then show ?thesis using m2 nk by auto
  qed
qed

section \<open>Properties\<close>

text \<open>
  C20: The word-level range clear agrees with clearing the rows one by one. On a well-formed bitmap SetNullRange
  makes exactly the rows of the range that exist NULL, whatever words the range starts in, spans and ends in,
  and ignores an empty request and one that starts before the first or after the last row; the bitmap stays
  well-formed and its cache right. The one exception is a range that starts at an existing row and whose end
  overflows int64: there the code panics on its last word. The arguments are any int64 values and the
  bitmap has at most 2^62 rows.
\<close>

theorem set_null_range_equiv:
  assumes "bm_ok b" and "int (blen b) \<le> 2 ^ 62" and "count < 2 ^ 63"
  shows "if 0 \<le> start \<and> start < int (blen b) \<and> 2 ^ 63 \<le> start + count
    then SetNullRange start count b = None
    else \<exists>b'. SetNullRange start count b = Some b' \<and> bm_ok b' \<and>
      bm_abs b' = map (\<lambda>i. bm_abs b ! i \<and> \<not> (0 \<le> start \<and> start \<le> int i \<and> int i < start + count)) [0..<blen b]"
proof (cases "0 < count \<and> 0 \<le> start \<and> start < int (blen b)")
  case True
  have "bm_abs b ! i \<and> \<not> (nat start \<le> i \<and> i < range_end start count b) \<longleftrightarrow>
      bm_abs b ! i \<and> \<not> (0 \<le> start \<and> start \<le> int i \<and> int i < start + count)" if "i < blen b" for i
    using that True by (auto simp: range_end_def)
  then show ?thesis
    using SetNullRange_ok [OF assms(1,2), of count start] SetNullRange_overflow [OF _ assms(2), of start count] assms True
    by (auto simp: bm_ok_def not_le)
next
  case False
  then have "SetNullRange start count b = Some b" by (auto simp: SetNullRange_def)
  moreover have "bm_abs b = map (\<lambda>i. bm_abs b ! i \<and> \<not> (0 \<le> start \<and> start \<le> int i \<and> int i < start + count)) [0..<blen b]"
    using False by (intro nth_equalityI) auto
  moreover have "\<not> (0 \<le> start \<and> start < int (blen b) \<and> 2 ^ 63 \<le> start + count)" using False assms(2) by auto
  ultimately show ?thesis using assms(1) by (simp only: if_False) blast
qed

theorem set_null_range_equiv_witness:
  "(\<exists>b'. SetNullRange 60 70 (NewBitmap 200) = Some b' \<and> bm_ok b' \<and> bm_abs b' ! 129 = False) \<and>
   SetNullRange 1 (2 ^ 63 - 1) (NewBitmap 200) = None"
proof
  have l: "blen (NewBitmap 200) = 200" by (simp add: NewBitmap_def)
  show "\<exists>b'. SetNullRange 60 70 (NewBitmap 200) = Some b' \<and> bm_ok b' \<and> bm_abs b' ! 129 = False"
    using set_null_range_equiv [of "NewBitmap 200" 70 60] NewBitmap_ok [of 200] l by auto
  show "SetNullRange 1 (2 ^ 63 - 1) (NewBitmap 200) = None"
    using set_null_range_equiv [of "NewBitmap 200" "2 ^ 63 - 1" 1] NewBitmap_ok [of 200] l by simp
qed

text \<open>
  C29: The answers of a well-formed bitmap are exact. IsNull answers true for a row outside the bitmap and
  otherwise whether that row is NULL, and IsNullFast gives the same answer on every row that exists; HasNulls
  answers whether a row is NULL, from its cache or by scanning the words, and leaves the rows alone; NullCount is
  the number of NULL rows.
\<close>

theorem null_summaries_exact:
  assumes "bm_ok b"
  shows "(fst (HasNulls b) \<longleftrightarrow> False \<in> set (bm_abs b)) \<and> bm_ok (snd (HasNulls b)) \<and>
    bm_abs (snd (HasNulls b)) = bm_abs b \<and> NullCount b = int (length (filter Not (bm_abs b))) \<and>
    (\<forall>i. IsNull i b \<longleftrightarrow> i < 0 \<or> int (blen b) \<le> i \<or> \<not> bm_abs b ! nat i) \<and>
    (\<forall>i < blen b. IsNullFast i b = Some (\<not> bm_abs b ! i) \<and> IsNullFast i b = Some (IsNull (int i) b))"
  using HasNulls_ok [OF assms] NullCount_ok [of b] IsNullFast_ok [OF assms] assms
  by (simp add: no_nulls_def IsNull_ok bm_ok_def)

theorem null_summaries_exact_witness: "NullCount (NewBitmapAllNull 70) = 70 \<and> fst (HasNulls (NewBitmapAllNull 70)) \<and> IsNull 69 (NewBitmapAllNull 70)"
  using null_summaries_exact [OF NewBitmapAllNull_ok(1), of 70] NewBitmapAllNull_ok(2) [of 70]
  by (simp add: NewBitmapAllNull_def)

text \<open>
  C30: Growing appends valid rows. Whatever the spare capacity of the slice and the stale words in it, Grow keeps
  every row, makes each new row valid (the old padding included) and stays well-formed.
\<close>

theorem grow_appends_valid:
  assumes "bm_ok b"
  shows "bm_ok (Grow n b) \<and> bm_abs (Grow n b) = bm_abs b @ replicate (n - blen b) True"
  using Grow_ok [OF assms] by blast

theorem grow_appends_valid_witness:
  "bm_abs (Grow 130 (NewBitmapAllNull 3)) = replicate 3 False @ replicate 127 True"
  using grow_appends_valid [OF NewBitmapAllNull_ok(1), of 130 3] NewBitmapAllNull_ok(2) [of 3]
  by (simp add: NewBitmapAllNull_def)

text \<open>
  C39: EnsureLen after a shrinking reset breaks the padding. Take a bitmap of k valid rows, reset it to m rows and
  grow it by EnsureLen to n rows, where n needs more words than m, is below k and is not a multiple of 64. Then
  EnsureLen exposes the words the reset left behind: every row is valid, yet NullCount is negative (n minus the
  ones of the exposed words), and HasNulls reports a NULL once its cached answer is dropped, which InvalidateCache
  does, or a SetNull and SetValid of any one row.
\<close>

theorem ensure_len_stale_padding:
  assumes "words_for m < words_for n" and "n < k" and "n mod 64 \<noteq> 0"
  defines "b \<equiv> EnsureLen n (ResetNonNull m (NewBitmap k))"
  shows "bm_abs b = replicate n True \<and> NullCount b = int n - int (min k (64 * words_for n)) \<and> NullCount b < 0 \<and>
    fst (HasNulls (InvalidateCache b)) \<and>
    (\<forall>i < n. fst (HasNulls (SetValid (int i) (SetNull (int i) b))))"
proof -
  note w = stale_words [OF assms(1,2), folded b_def]
  have n: "n < 64 * words_for n" using words_for_le [of n] assms(3) mod_mult_self1_is_0 [of 64 "words_for n"]
    by (metis le_neq_implies_less)
  have vn: "vb (bdata b) n" using w(3) n assms(2) by simp
  have ab: "bm_abs b = replicate n True"
    by (rule nth_equalityI) (use w n assms(2) in auto)
  have "filter (vb (bdata b)) [0..<64 * words_for n] = filter (\<lambda>j. j < k) [0..<64 * words_for n]"
    by (rule filter_cong) (use w(3) in auto)
  then have nc: "NullCount b = int n - int (min k (64 * words_for n))"
    using w(1,2) by (simp add: NullCount_def ones_vb filter_below)
  have "scan_nulls (InvalidateCache b)"
    by (rule scan_nulls_padding) (use w vn assms(3) in \<open>simp_all add: InvalidateCache_def\<close>)
  then have hn: "fst (HasNulls (InvalidateCache b))" by (simp add: HasNulls_def InvalidateCache_def)
  have "fst (HasNulls (SetValid (int i) (SetNull (int i) b)))" if i: "i < n" for i
  proof -
    let ?b = "SetValid (int i) (SetNull (int i) b)"
    have il: "i div 64 < length (bdata b)" using i n w(2) by (simp add: less_mult_imp_div_less)
    have "scan_nulls ?b"
      by (rule scan_nulls_padding) (use w vn i il assms(3) in \<open>auto simp: SetValid_def SetNull_def vb_clear div_mod_eq_iff [of n i]\<close>)
    then show ?thesis using i w(1) by (simp add: HasNulls_def SetValid_def SetNull_def)
  qed
  then show ?thesis using ab nc hn n assms(2) by simp
qed

theorem ensure_len_stale_padding_witness:
  "NullCount (EnsureLen 70 (ResetNonNull 64 (NewBitmap 128))) = - 58 \<and>
   fst (HasNulls (InvalidateCache (EnsureLen 70 (ResetNonNull 64 (NewBitmap 128)))))"
  using ensure_len_stale_padding [of 64 70 128] by (simp add: words_for_def)

end
