(* ===== verification/Dec128.thy ===== *)
theory Dec128
  imports Wadjet_Base
begin

text \<open>
  The 128-bit integers that carry DECIMAL values and exact sums (\<^verbatim>\<open>internal/engine/batch/decimal.go\<close>):
  construction, negation, addition with and without overflow report, comparison, multiplication by a power of
  ten, and the canonical GROUP BY and join key of a decimal. \<open>val128\<close> reads the integer a pair of words stands
  for; \<^verbatim>\<open>bits.Mul64\<close>, \<^verbatim>\<open>bits.Add64\<close> and \<^verbatim>\<open>bits.Div64\<close> are modelled from their documentation.
\<close>

section \<open>Definitions\<close>

record int128 =
  Hi :: i64
  Lo :: u64

definition Int128From :: "i64 \<Rightarrow> int128" where
  "Int128From v = \<lparr>Hi = (if sint v < 0 then - 1 else 0), Lo = v\<rparr>"

definition ToInt64 :: "int128 \<Rightarrow> i64" where "ToInt64 d = Lo d"

definition FitsInt64 :: "int128 \<Rightarrow> bool" where
  "FitsInt64 d = ((Hi d = 0 \<and> Lo d \<le> 0x7FFFFFFFFFFFFFFF) \<or> (Hi d = - 1 \<and> 0x7FFFFFFFFFFFFFFF < Lo d))"

definition IsZero :: "int128 \<Rightarrow> bool" where "IsZero d = (Hi d = 0 \<and> Lo d = 0)"

definition Neg :: "int128 \<Rightarrow> int128" where
  "Neg d = (let lo = NOT (Lo d) + 1; hi = NOT (Hi d) in \<lparr>Hi = (if lo = 0 then hi + 1 else hi), Lo = lo\<rparr>)"

definition IsNegative :: "int128 \<Rightarrow> bool" where "IsNegative d = (sint (Hi d) < 0)"

definition Add :: "int128 \<Rightarrow> int128 \<Rightarrow> int128" where
  "Add d e = (let lo = Lo d + Lo e; hi = Hi d + Hi e in \<lparr>Hi = (if lo < Lo d then hi + 1 else hi), Lo = lo\<rparr>)"

definition AddChecked :: "int128 \<Rightarrow> int128 \<Rightarrow> int128 \<times> bool" where
  "AddChecked d e =
     (let s = Add d e in
      if (sint (Hi d) < 0) = (sint (Hi e) < 0) \<and> (sint (Hi s) < 0) \<noteq> (sint (Hi d) < 0)
      then (s, False) else (s, True))"

definition Sub :: "int128 \<Rightarrow> int128 \<Rightarrow> int128" where "Sub d e = Add d (Neg e)"

definition Less :: "int128 \<Rightarrow> int128 \<Rightarrow> bool" where
  "Less d e = (if Hi d \<noteq> Hi e then sint (Hi d) < sint (Hi e) else Lo d < Lo e)"

definition Equal :: "int128 \<Rightarrow> int128 \<Rightarrow> bool" where "Equal d e = (Hi d = Hi e \<and> Lo d = Lo e)"

definition Cmp :: "int128 \<Rightarrow> int128 \<Rightarrow> int" where
  "Cmp d e = (if Less d e then - 1 else if Less e d then 1 else 0)"

definition Int128Max :: int128 where "Int128Max = \<lparr>Hi = 0x7FFFFFFFFFFFFFFF, Lo = - 1\<rparr>"
definition Int128Min :: int128 where "Int128Min = \<lparr>Hi = 0x8000000000000000, Lo = 0\<rparr>"

definition mul64 :: "u64 \<Rightarrow> u64 \<Rightarrow> u64 \<times> u64" where
  "mul64 x y = (let p = unat x * unat y in (of_nat (p div 2 ^ 64), of_nat (p mod 2 ^ 64)))"

definition add64 :: "u64 \<Rightarrow> u64 \<Rightarrow> u64 \<times> u64" where
  "add64 x y = (x + y, if 2 ^ 64 \<le> unat x + unat y then 1 else 0)"

definition div64 :: "u64 \<Rightarrow> u64 \<Rightarrow> u64 \<Rightarrow> u64 \<times> u64" where
  "div64 hi lo y = (let n = unat hi * 2 ^ 64 + unat lo in (of_nat (n div unat y), of_nat (n mod unat y)))"

definition pow10u64 :: "nat \<Rightarrow> u64" where "pow10u64 k = of_nat (10 ^ k)"

text \<open>One turn of the loop multiplies by at most 10^19; \<open>None\<close> is the early false return.\<close>

function mul_loop :: "nat \<Rightarrow> u64 \<Rightarrow> u64 \<Rightarrow> (u64 \<times> u64) option" where
  "mul_loop n hi lo =
     (if n = 0 then Some (hi, lo)
      else
        let k = (if n > 19 then 19 else n); m = pow10u64 k;
            (carryHi, newLo) = mul64 lo m; (topHi, midHi) = mul64 hi m
        in if topHi \<noteq> 0 then None
           else let (newHi, carry) = add64 carryHi midHi
                in if carry \<noteq> 0 then None else mul_loop (n - k) newHi newLo)"
  by pat_completeness auto
termination by (relation "measure (\<lambda>(n, _). n)") (auto split: if_splits)

declare mul_loop.simps [simp del]

definition MulPow10 :: "int \<Rightarrow> int128 \<Rightarrow> int128 \<times> bool" where
  "MulPow10 n d =
     (let zero = \<lparr>Hi = 0, Lo = 0\<rparr> in
      if n < 0 then (zero, False)
      else if n = 0 \<or> IsZero d then (d, True)
      else
        let neg = IsNegative d; mag = (if neg then Neg d else d) in
        if neg \<and> IsNegative mag then (zero, False)
        else case mul_loop (nat n) (Hi mag) (Lo mag) of
               None \<Rightarrow> (zero, False)
             | Some (hi, lo) \<Rightarrow>
                 if hi AND push_bit 63 1 \<noteq> 0 then (zero, False)
                 else let res = \<lparr>Hi = hi, Lo = lo\<rparr> in (if neg then Neg res else res, True))"

definition magnitude :: "int128 \<Rightarrow> u64 \<times> u64 \<times> bool" where
  "magnitude d = (if sint (Hi d) < 0 then let n = Neg d in (Hi n, Lo n, True) else (Hi d, Lo d, False))"

text \<open>The two loops that strip trailing zero digits.\<close>

fun strip_narrow :: "nat \<Rightarrow> u64 \<Rightarrow> nat \<times> u64" where
  "strip_narrow 0 lo = (0, lo)"
| "strip_narrow (Suc s) lo = (if lo mod 10 = 0 then strip_narrow s (lo div 10) else (Suc s, lo))"

fun strip_wide :: "nat \<Rightarrow> u64 \<Rightarrow> u64 \<Rightarrow> nat \<times> u64 \<times> u64" where
  "strip_wide 0 hi lo = (0, hi, lo)"
| "strip_wide (Suc s) hi lo =
     (let qhi = hi div 10; (qlo, r) = div64 (hi mod 10) lo 10
      in if r \<noteq> 0 then (Suc s, hi, lo) else strip_wide s qhi qlo)"

definition PutUint64 :: "u64 \<Rightarrow> byte list" where
  "PutUint64 w = map (\<lambda>i. ucast (drop_bit (56 - 8 * i) w)) [0..<8]"

definition decimalKeyNegative :: byte where "decimalKeyNegative = 0x80"

definition AppendDecimalKey :: "byte list \<Rightarrow> int128 \<Rightarrow> int \<Rightarrow> byte list" where
  "AppendDecimalKey buf d scale =
     (let scale = nat (if scale < 0 then 0 else scale); (hi, lo, neg) = magnitude d in
      if hi = 0 \<and> lo = 0 then buf @ [0, 0]
      else
        let (scale, hi, lo) = (if hi = 0 then let (s, l) = strip_narrow scale lo in (s, hi, l)
                               else strip_wide scale hi lo);
            mag = PutUint64 hi @ PutUint64 lo;
            body = dropWhile (\<lambda>x. x = 0) mag;
            sl = (of_nat (length body) :: byte);
            sl = (if neg then sl OR decimalKeyNegative else sl)
        in buf @ [of_nat scale, sl] @ body)"

section \<open>The integer a value stands for\<close>

definition val128 :: "int128 \<Rightarrow> int" where "val128 d = sint (Hi d) * 2 ^ 64 + uint (Lo d)"

lemma pow_num:
  "(2 :: int) ^ 63 = 9223372036854775808" "(2 :: int) ^ 64 = 18446744073709551616"
  "(2 :: int) ^ 127 = 170141183460469231731687303715884105728" "(2 :: int) ^ 128 = 340282366920938463463374607431768211456"
  by simp_all

lemma uint_range64: "0 \<le> uint (x :: u64)" "uint (x :: u64) < 2 ^ 64"
  using uint_lt2p [of x] by simp_all

lemma wrap64_cases:
  assumes "- (2 ^ 64) \<le> k" and "k < 2 ^ 64"
  shows "wrap64 k = (if k < - (2 ^ 63) then k + 2 ^ 64 else if k < 2 ^ 63 then k else k - 2 ^ 64)"
proof -
  have "(k + 2 ^ 63 + 2 ^ 64) mod 2 ^ 64 = (k + 2 ^ 63) mod 2 ^ 64" "(k + 2 ^ 63 - 2 ^ 64) mod 2 ^ 64 = (k + 2 ^ 63) mod 2 ^ 64"
    by (rule mod_add_self2, rule minus_mod_self2)
  then show ?thesis
    using assms mod_pos_pos_trivial [of "k + 2 ^ 63 + 2 ^ 64" "2 ^ 64"] mod_pos_pos_trivial [of "k + 2 ^ 63" "2 ^ 64"]
      mod_pos_pos_trivial [of "k + 2 ^ 63 - 2 ^ 64" "2 ^ 64"]
    by (auto simp: wrap64_def)
qed

lemma sint_eq_iff: "sint x = sint y \<longleftrightarrow> x = y" for x y :: i64
  by (metis uint_sint word_uint_eq_iff)

lemma val128_range: "- (2 ^ 127) \<le> val128 d" "val128 d < 2 ^ 127"
  using sint_range64 [of "Hi d"] uint_range64 [of "Lo d"] unfolding val128_def pow_num by linarith+

lemma val128_inject: "val128 d = val128 e \<longleftrightarrow> d = e"
proof
  assume a: "val128 d = val128 e"
  have h: "sint (Hi d) = sint (Hi e)"
    using a uint_range64 [of "Lo d"] uint_range64 [of "Lo e"] unfolding val128_def pow_num by linarith+
  then have "uint (Lo d) = uint (Lo e)" using a by (simp add: val128_def)
  with h show "d = e" by (cases d; cases e) (simp add: sint_eq_iff word_uint_eq_iff)
qed simp

lemma Int128From_val: "val128 (Int128From v) = sint v"
proof -
  have "uint v = (if sint v < 0 then sint v + 2 ^ 64 else sint v)"
  proof -
    have "uint v = sint v mod 2 ^ 64" by (simp add: uint_sint take_bit_eq_mod)
    moreover have "(sint v + 2 ^ 64) mod 2 ^ 64 = sint v mod 2 ^ 64" by (rule mod_add_self2)
    ultimately show ?thesis
      using sint_range64 [of v] mod_pos_pos_trivial [of "sint v" "2 ^ 64"] mod_pos_pos_trivial [of "sint v + 2 ^ 64" "2 ^ 64"]
      by auto
  qed
  then show ?thesis by (simp add: val128_def Int128From_def)
qed

lemma uint_add_carry:
  fixes x y :: u64
  shows "x + y < x \<longleftrightarrow> 2 ^ 64 \<le> uint x + uint y" "uint (x + y) = uint x + uint y - (if x + y < x then 2 ^ 64 else 0)"
proof -
  have m: "uint (x + y) = (uint x + uint y) mod 2 ^ 64" by (simp add: uint_word_arith_bintrs take_bit_eq_mod)
  have r: "(uint x + uint y - 2 ^ 64) mod 2 ^ 64 = (uint x + uint y) mod 2 ^ 64" by (rule minus_mod_self2)
  have c: "uint (x + y) = (if 2 ^ 64 \<le> uint x + uint y then uint x + uint y - 2 ^ 64 else uint x + uint y)"
    unfolding m using uint_range64 [of x] uint_range64 [of y] r mod_pos_pos_trivial [of "uint x + uint y" "2 ^ 64"]
      mod_pos_pos_trivial [of "uint x + uint y - 2 ^ 64" "2 ^ 64"] by auto
  show i: "x + y < x \<longleftrightarrow> 2 ^ 64 \<le> uint x + uint y"
    unfolding word_less_def c using uint_range64 [of x] uint_range64 [of y] by auto
  show "uint (x + y) = uint x + uint y - (if x + y < x then 2 ^ 64 else 0)" unfolding i c by simp
qed

lemma Add_high:
  "sint (Hi (Add d e)) = wrap64 (sint (Hi d) + sint (Hi e) + (if Lo d + Lo e < Lo d then 1 else 0))"
proof -
  have "sint (Hi d + Hi e + 1) = wrap64 (sint (Hi d) + sint (Hi e) + 1)"
    using sint_wrap [of "sint (Hi d) + sint (Hi e) + 1"] by simp
  then show ?thesis by (simp add: Add_def Let_def sint_add_wrap)
qed

lemma Add_val:
  "val128 (Add d e) =
     (let x = val128 d + val128 e in if x < - (2 ^ 127) then x + 2 ^ 128 else if x < 2 ^ 127 then x else x - 2 ^ 128)"
proof -
  define c :: int where "c = (if Lo d + Lo e < Lo d then 1 else 0)"
  define S where "S = sint (Hi d) + sint (Hi e) + c"
  define L where "L = uint (Lo d) + uint (Lo e) - c * 2 ^ 64"
  have lo: "uint (Lo (Add d e)) = L" using uint_add_carry(2) [of "Lo d" "Lo e"] by (simp add: Add_def Let_def L_def c_def)
  have hi: "sint (Hi (Add d e)) = wrap64 S" unfolding Add_high S_def c_def ..
  have L: "0 \<le> L" "L < 2 ^ 64" using uint_range64 [of "Lo (Add d e)"] unfolding lo by simp_all
  have c01: "c = 0 \<or> c = 1" by (simp add: c_def)
  have S: "- (2 ^ 64) \<le> S" "S < 2 ^ 64"
    using sint_range64 [of "Hi d"] sint_range64 [of "Hi e"] c01 unfolding S_def pow_num by linarith+
  have x: "val128 d + val128 e = S * 2 ^ 64 + L" unfolding val128_def S_def L_def by (simp add: algebra_simps)
  have v: "val128 (Add d e) = wrap64 S * 2 ^ 64 + L" unfolding val128_def hi lo ..
  have "S * 2 ^ 64 + L < - (2 ^ 127) \<longleftrightarrow> S < - (2 ^ 63)" "S * 2 ^ 64 + L < 2 ^ 127 \<longleftrightarrow> S < 2 ^ 63"
    using L unfolding pow_num by linarith+
  then show ?thesis unfolding v x Let_def wrap64_cases [OF S] by (simp add: algebra_simps)
qed

lemma Neg_high_low: "Neg d = Add \<lparr>Hi = NOT (Hi d), Lo = NOT (Lo d)\<rparr> \<lparr>Hi = 0, Lo = 1\<rparr>"
proof -
  have "x + 1 < x \<longleftrightarrow> x + 1 = 0" for x :: u64
  proof -
    have z: "x + 1 = 0 \<longleftrightarrow> uint (x + 1) = 0" by (metis uint_0_iff)
    show ?thesis
    proof (cases "x + 1 < x")
      case True
      then have "uint (x + 1) = uint x + 1 - 2 ^ 64" using uint_add_carry(2) [of x 1] by simp
      then have "uint (x + 1) = 0" using uint_range64(2) [of x] uint_range64(1) [of "x + 1"] by linarith
      then show ?thesis using True z by simp
    next
      case False
      then have "uint (x + 1) = uint x + 1" using uint_add_carry(2) [of x 1] by simp
      then have "uint (x + 1) \<noteq> 0" using uint_range64(1) [of x] by linarith
      then show ?thesis using False z by simp
    qed
  qed
  then show ?thesis by (simp add: Neg_def Add_def Let_def)
qed

lemma Neg_val: "val128 (Neg d) = (if val128 d = - (2 ^ 127) then - (2 ^ 127) else - val128 d)"
proof -
  have "sint (NOT (Hi d)) = - sint (Hi d) - 1"
    using sint_range64 [of "Hi d"] sint_wrap [of "- sint (Hi d) - 1"] by (simp add: not_eq_complement)
  moreover have "uint (NOT (Lo d)) = 2 ^ 64 - 1 - uint (Lo d)"
    using uint_range64 [of "Lo d"]
    by (simp add: unsigned_not_eq take_bit_not_eq_mask_diff mask_eq_exp_minus_1 take_bit_int_eq_self)
  ultimately have n: "val128 \<lparr>Hi = NOT (Hi d), Lo = NOT (Lo d)\<rparr> = - val128 d - 1"
    by (simp add: val128_def algebra_simps)
  have o: "val128 \<lparr>Hi = 0, Lo = 1\<rparr> = 1" by (simp add: val128_def)
  show ?thesis unfolding Neg_high_low Add_val n o Let_def
    using val128_range [of d] unfolding pow_num by auto
qed

lemma sign_val: "sint (Hi d) < 0 \<longleftrightarrow> val128 d < 0"
  using uint_range64 [of "Lo d"] unfolding val128_def pow_num by linarith

lemma IsNegative_val: "IsNegative d \<longleftrightarrow> val128 d < 0"
  by (simp add: IsNegative_def sign_val)

lemma IsZero_val: "IsZero d \<longleftrightarrow> val128 d = 0"
proof -
  have "IsZero d \<longleftrightarrow> d = \<lparr>Hi = 0, Lo = 0\<rparr>" by (cases d) (simp add: IsZero_def)
  also have "\<dots> \<longleftrightarrow> val128 d = val128 \<lparr>Hi = 0, Lo = 0\<rparr>" by (simp only: val128_inject)
  finally show ?thesis by (simp add: val128_def)
qed

lemma AddChecked_val:
  "snd (AddChecked d e) \<longleftrightarrow> - (2 ^ 127) \<le> val128 d + val128 e \<and> val128 d + val128 e < 2 ^ 127"
  "snd (AddChecked d e) \<Longrightarrow> val128 (fst (AddChecked d e)) = val128 d + val128 e"
  "fst (AddChecked d e) = Add d e"
proof -
  show f: "fst (AddChecked d e) = Add d e" by (simp add: AddChecked_def Let_def)
  show s: "snd (AddChecked d e) \<longleftrightarrow> - (2 ^ 127) \<le> val128 d + val128 e \<and> val128 d + val128 e < 2 ^ 127"
    using val128_range [of d] val128_range [of e] unfolding AddChecked_def Let_def sign_val Add_val pow_num by auto
  show "snd (AddChecked d e) \<Longrightarrow> val128 (fst (AddChecked d e)) = val128 d + val128 e"
    unfolding f s Add_val Let_def by auto
qed

lemma Less_val: "Less d e \<longleftrightarrow> val128 d < val128 e"
proof (cases "Hi d = Hi e")
  case True
  then show ?thesis by (simp add: Less_def val128_def word_less_def)
next
  case False
  then have "sint (Hi d) \<noteq> sint (Hi e)" by (simp add: sint_eq_iff)
  moreover have "h * 2 ^ 64 + l < k * 2 ^ 64 + m \<longleftrightarrow> h < k"
    if "0 \<le> l" "l < 2 ^ 64" "0 \<le> m" "m < 2 ^ 64" "h \<noteq> k" for h k l m :: int
    using that unfolding pow_num by (cases h k rule: linorder_cases) linarith+
  ultimately show ?thesis using False uint_range64 [of "Lo d"] uint_range64 [of "Lo e"]
    unfolding Less_def val128_def by simp
qed

lemma Cmp_val: "Cmp d e = (if val128 d < val128 e then - 1 else if val128 e < val128 d then 1 else 0)"
  by (simp add: Cmp_def Less_val)

lemma FitsInt64_val: "FitsInt64 d \<longleftrightarrow> - (2 ^ 63) \<le> val128 d \<and> val128 d < 2 ^ 63"
proof -
  have h: "Hi d = 0 \<longleftrightarrow> sint (Hi d) = 0" "Hi d = - 1 \<longleftrightarrow> sint (Hi d) = - 1"
    using sint_eq_iff [of "Hi d" 0] sint_eq_iff [of "Hi d" "- 1"] by simp_all
  have l: "Lo d \<le> 0x7FFFFFFFFFFFFFFF \<longleftrightarrow> uint (Lo d) < 2 ^ 63" "0x7FFFFFFFFFFFFFFF < Lo d \<longleftrightarrow> 2 ^ 63 \<le> uint (Lo d)"
    by (simp_all add: word_le_def word_less_def) linarith+
  have "(k = 0 \<and> m < 2 ^ 63) \<or> (k = - 1 \<and> 2 ^ 63 \<le> m) \<longleftrightarrow> - (2 ^ 63) \<le> k * 2 ^ 64 + m \<and> k * 2 ^ 64 + m < 2 ^ 63"
    if "0 \<le> m" "m < 2 ^ 64" for k m :: int
  proof -
    consider "k \<le> - 2" | "k = - 1" | "k = 0" | "1 \<le> k" by linarith
    then show ?thesis
    proof cases
      case 1
      then have "\<not> - (2 ^ 63) \<le> k * 2 ^ 64 + m" using that unfolding pow_num by linarith
      then show ?thesis using 1 by auto
    next
      case 4
      then have "\<not> k * 2 ^ 64 + m < 2 ^ 63" using that unfolding pow_num by linarith
      then show ?thesis using 4 by auto
    qed (use that in auto)
  qed
  from this [OF uint_range64] show ?thesis unfolding FitsInt64_def h l val128_def .
qed

lemma uint_of_sint: "uint x = (if sint x < 0 then sint x + 2 ^ 64 else sint x)" for x :: u64
proof -
  have "uint x = sint x mod 2 ^ 64" by (simp add: uint_sint take_bit_eq_mod)
  moreover have "a mod 2 ^ 64 = (if a < 0 then a + 2 ^ 64 else a)" if "- (2 ^ 63) \<le> a" "a < 2 ^ 63" for a :: int
  proof (cases "a < 0")
    case True
    then have "(a + 2 ^ 64) mod 2 ^ 64 = a + 2 ^ 64" using that by (intro mod_pos_pos_trivial) (simp_all add: pow_num)
    then show ?thesis using True by simp
  next
    case False
    then have "a mod 2 ^ 64 = a" using that by (intro mod_pos_pos_trivial) (simp_all add: pow_num)
    then show ?thesis using False by simp
  qed
  ultimately show ?thesis using sint_range64 [of x] by simp
qed

lemma sint_of_top: "sint x < 0 \<longleftrightarrow> 0x7FFFFFFFFFFFFFFF < x" for x :: u64
proof -
  have "0x7FFFFFFFFFFFFFFF < x \<longleftrightarrow> 2 ^ 63 \<le> uint x" by (simp add: word_less_def) linarith
  then show ?thesis using uint_of_sint [of x] sint_range64 [of x] by (simp add: pow_num split: if_splits)
qed

section \<open>Multiplication by a power of ten\<close>

definition V128 :: "u64 \<Rightarrow> u64 \<Rightarrow> nat" where "V128 hi lo = unat hi * 2 ^ 64 + unat lo"

lemma unat_less64: "unat (x :: u64) < 2 ^ 64"
  using unsigned_less [of x] by simp

lemma unat_of_nat64: "n < 2 ^ 64 \<Longrightarrow> unat (of_nat n :: u64) = n"
  by (simp add: unat_of_nat take_bit_nat_eq_self)

lemma mul64_val:
  assumes "mul64 x y = (h, l)"
  shows "unat h * 2 ^ 64 + unat l = unat x * unat y"
proof -
  let ?p = "unat x * unat y"
  have "?p < 2 ^ 64 * 2 ^ 64" using unat_less64 [of x] unat_less64 [of y] by (intro mult_strict_mono) simp_all
  then have "?p div 2 ^ 64 < 2 ^ 64" by (rule less_mult_imp_div_less)
  moreover have "?p mod 2 ^ 64 < 2 ^ 64" by simp
  moreover have "h = of_nat (?p div 2 ^ 64)" "l = of_nat (?p mod 2 ^ 64)" using assms by (simp_all add: mul64_def Let_def)
  ultimately have "unat h = ?p div 2 ^ 64" "unat l = ?p mod 2 ^ 64" by (simp_all only: unat_of_nat64)
  then show ?thesis by (simp only: div_mult_mod_eq)
qed

lemma add64_val:
  assumes "add64 x y = (s, c)"
  shows "c \<noteq> 0 \<longleftrightarrow> 2 ^ 64 \<le> unat x + unat y" "c = 0 \<Longrightarrow> unat s = unat x + unat y"
proof -
  show i: "c \<noteq> 0 \<longleftrightarrow> 2 ^ 64 \<le> unat x + unat y" using assms by (auto simp: add64_def split: if_splits)
  show "unat s = unat x + unat y" if "c = 0"
  proof -
    have "unat x + unat y < 2 ^ 64" using i that by simp
    then have "unat (x + y) = unat x + unat y" by (simp add: unat_word_ariths)
    then show ?thesis using assms by (simp add: add64_def)
  qed
qed

lemma pow10_val: "k \<le> 19 \<Longrightarrow> unat (pow10u64 k) = 10 ^ k"
proof -
  assume "k \<le> 19"
  then have "(10 :: nat) ^ k \<le> 10 ^ 19" by (intro power_increasing) simp_all
  also have "\<dots> < 2 ^ 64" by simp
  finally show "unat (pow10u64 k) = 10 ^ k" unfolding pow10u64_def by (rule unat_of_nat64)
qed

lemma mul_loop_val:
  "case mul_loop n hi lo of
     Some (h, l) \<Rightarrow> V128 h l = V128 hi lo * 10 ^ n
   | None \<Rightarrow> 2 ^ 128 \<le> V128 hi lo * 10 ^ n"
proof (induction n hi lo rule: mul_loop.induct)
  case (1 n hi lo)
  show ?case
  proof (cases "n = 0")
    case True
    then show ?thesis by (subst mul_loop.simps) simp
  next
    case n0: False
    define k where "k = (if n > 19 then 19 else n)"
    obtain c nl where cl: "mul64 lo (pow10u64 k) = (c, nl)" by fastforce
    obtain t mid where tm: "mul64 hi (pow10u64 k) = (t, mid)" by fastforce
    obtain nh cy where nc: "add64 c mid = (nh, cy)" by fastforce
    have k: "k \<le> 19" "k \<le> n" "0 < k" using n0 by (auto simp: k_def)
    have lo: "unat c * 2 ^ 64 + unat nl = unat lo * 10 ^ k" using mul64_val [OF cl] pow10_val [OF k(1)] by simp
    have hi: "unat t * 2 ^ 64 + unat mid = unat hi * 10 ^ k" using mul64_val [OF tm] pow10_val [OF k(1)] by simp
    have V: "V128 hi lo * 10 ^ k = unat t * 2 ^ 128 + (unat c + unat mid) * 2 ^ 64 + unat nl"
    proof -
      have "V128 hi lo * 10 ^ k = (unat hi * 10 ^ k) * 2 ^ 64 + unat lo * 10 ^ k" by (simp add: V128_def algebra_simps)
      also have "\<dots> = (unat t * 2 ^ 64 + unat mid) * 2 ^ 64 + (unat c * 2 ^ 64 + unat nl)" by (simp only: lo hi)
      finally show ?thesis by (simp add: algebra_simps)
    qed
    have split: "V128 hi lo * 10 ^ n = V128 hi lo * 10 ^ k * 10 ^ (n - k)"
      using k(2) by (simp add: mult.assoc power_add [symmetric])
    have big: "2 ^ 128 \<le> V128 hi lo * 10 ^ n" if "2 ^ 128 \<le> V128 hi lo * 10 ^ k"
      unfolding split using that by (metis one_le_numeral one_le_power mult.right_neutral mult_le_mono)
    have step: "mul_loop n hi lo = (if t \<noteq> 0 then None else if cy \<noteq> 0 then None else mul_loop (n - k) nh nl)"
      using n0 cl tm nc by (subst mul_loop.simps) (simp add: k_def [symmetric] Let_def)
    show ?thesis
    proof (cases "t = 0 \<and> cy = 0")
      case False
      have "2 ^ 128 \<le> V128 hi lo * 10 ^ k"
      proof (cases "t = 0")
        case True
        then have "2 ^ 64 \<le> unat c + unat mid" using False add64_val(1) [OF nc] by simp
        then have "2 ^ 64 * 2 ^ 64 \<le> (unat c + unat mid) * 2 ^ 64" by (intro mult_le_mono1)
        then show ?thesis unfolding V by simp
      next
        case t: False
        then have "1 \<le> unat t" by (simp add: unat_gt_0 Suc_leI)
        then have "1 * 2 ^ 128 \<le> unat t * 2 ^ 128" by (intro mult_le_mono1)
        then show ?thesis unfolding V by linarith
      qed
      then show ?thesis using big step False by auto
    next
      case True
      then have "V128 nh nl = V128 hi lo * 10 ^ k" using V add64_val(2) [OF nc] by (simp add: V128_def)
      moreover have "case mul_loop (n - k) nh nl of Some (h, l) \<Rightarrow> V128 h l = V128 nh nl * 10 ^ (n - k)
          | None \<Rightarrow> 2 ^ 128 \<le> V128 nh nl * 10 ^ (n - k)"
        using 1 [OF n0 k_def refl cl [symmetric] refl tm [symmetric] refl _ nc [symmetric] refl] True by simp
      ultimately show ?thesis using True by (auto simp: step split split: option.splits)
    qed
  qed
qed

lemma top_bit64: "x AND push_bit 63 1 \<noteq> 0 \<longleftrightarrow> sint x < 0" for x :: u64
proof -
  have "x AND push_bit 63 1 \<noteq> 0 \<longleftrightarrow> bit x 63" by (simp add: bit_iff_and_push_bit_not_eq_0)
  then show ?thesis by (simp add: sint_uint bit_uint_iff)
qed

lemma V128_int: "int (V128 (Hi d) (Lo d)) = (if val128 d < 0 then val128 d + 2 ^ 128 else val128 d)"
  using uint_of_sint [of "Hi d"] sign_val [of d] by (simp add: V128_def val128_def algebra_simps)

lemma MulPow10_val:
  assumes n: "0 \<le> n" and r: "MulPow10 n d = (r, ok)"
  shows "ok \<longleftrightarrow> n = 0 \<or> \<bar>val128 d\<bar> * 10 ^ nat n < 2 ^ 127" (is ?ok)
    and "ok \<Longrightarrow> val128 r = val128 d * 10 ^ nat n" (is "_ \<Longrightarrow> ?val")
proof -
  have "?ok \<and> (ok \<longrightarrow> ?val)"
  proof (cases "n = 0 \<or> val128 d = 0")
    case True
    then have "r = d" "ok" using n r by (auto simp: MulPow10_def IsZero_val Let_def)
    then show ?thesis using True by auto
  next
    case False
    define mag where "mag = (if IsNegative d then Neg d else d)"
    define p where "p = \<bar>val128 d\<bar> * 10 ^ nat n"
    have n0: "0 < nat n" using n False by simp
    show ?thesis
    proof (cases "IsNegative d \<and> IsNegative mag")
      case True
      then have v: "val128 d = - (2 ^ 127)" by (auto simp: mag_def IsNegative_val Neg_val split: if_splits)
      have "\<not> (10 :: int) ^ nat n < 1" by (simp only: not_less) (rule one_le_power, simp)
      then show ?thesis using True False n r v by (auto simp: MulPow10_def IsZero_val Let_def mag_def)
    next
      case c: False
      have mv: "int (V128 (Hi mag) (Lo mag)) = \<bar>val128 d\<bar>"
        using c V128_int [of mag] by (auto simp: mag_def IsNegative_val Neg_val split: if_splits)
      have step: "MulPow10 n d = (case mul_loop (nat n) (Hi mag) (Lo mag) of None \<Rightarrow> (\<lparr>Hi = 0, Lo = 0\<rparr>, False)
          | Some (hi, lo) \<Rightarrow> if sint hi < 0 then (\<lparr>Hi = 0, Lo = 0\<rparr>, False)
              else (if IsNegative d then Neg \<lparr>Hi = hi, Lo = lo\<rparr> else \<lparr>Hi = hi, Lo = lo\<rparr>, True))"
        using n False c unfolding MulPow10_def Let_def mag_def [symmetric] IsZero_val top_bit64 by auto
      show ?thesis
      proof (cases "mul_loop (nat n) (Hi mag) (Lo mag)")
        case None
        then have "2 ^ 128 \<le> V128 (Hi mag) (Lo mag) * 10 ^ nat n" using mul_loop_val [of "Hi mag" "Lo mag" "nat n"] by simp
        then have "int (2 ^ 128) \<le> int (V128 (Hi mag) (Lo mag) * 10 ^ nat n)" by (simp only: of_nat_le_iff)
        then have "2 ^ 128 \<le> p" by (simp add: mv p_def)
        then show ?thesis using None r step False by (simp add: p_def [symmetric] pow_num)
      next
        case (Some hl)
        obtain h l where hl: "hl = (h, l)" by fastforce
        let ?m = "\<lparr>Hi = h, Lo = l\<rparr>"
        have "V128 h l = V128 (Hi mag) (Lo mag) * 10 ^ nat n" using mul_loop_val [of "Hi mag" "Lo mag" "nat n"] Some hl by simp
        then have "int (V128 h l) = p" by (simp add: mv p_def)
        then have p: "p = (if val128 ?m < 0 then val128 ?m + 2 ^ 128 else val128 ?m)" using V128_int [of ?m] by simp
        have s: "sint h < 0 \<longleftrightarrow> val128 ?m < 0" using sign_val [of ?m] by simp
        have bd: "- (2 ^ 127) \<le> val128 ?m" "val128 ?m < 2 ^ 127" by (rule val128_range)+
        show ?thesis
        proof (cases "sint h < 0")
          case True
          then have "2 ^ 127 \<le> p" using p s bd by (simp add: pow_num)
          then show ?thesis using True r step Some hl False by (simp add: p_def [symmetric])
        next
          case h0: False
          then have pm: "val128 ?m = p" "0 \<le> p" using p s by simp_all
          have "val128 r = (if val128 d < 0 then - p else p)" "ok"
            using h0 r step Some hl pm by (auto simp: IsNegative_val Neg_val)
          then show ?thesis using pm bd by (simp add: p_def [symmetric]) (simp add: p_def)
        qed
      qed
    qed
  qed
  then show ?ok and "ok \<Longrightarrow> ?val" by auto
qed

section \<open>The canonical key\<close>

lemma magnitude_val:
  assumes "magnitude d = (hi, lo, neg)"
  shows "int (V128 hi lo) = \<bar>val128 d\<bar>" "neg \<longleftrightarrow> val128 d < 0"
  using assms V128_int [of d] V128_int [of "Neg d"] Neg_val [of d] val128_range [of d]
  by (auto simp: magnitude_def sign_val Let_def pow_num split: if_splits)

definition stripped :: "nat \<Rightarrow> nat \<Rightarrow> nat \<Rightarrow> nat \<Rightarrow> bool" where
  "stripped s v s' v' = (s' \<le> s \<and> v = v' * 10 ^ (s - s') \<and> (s' = 0 \<or> v' mod 10 \<noteq> 0))"

lemma stripped_step: "stripped s (v div 10) s' v' \<Longrightarrow> v mod 10 = 0 \<Longrightarrow> stripped (Suc s) v s' v'"
  by (auto simp: stripped_def Suc_diff_le)

lemma stripped_stop: "s = 0 \<or> v mod 10 \<noteq> 0 \<Longrightarrow> stripped s v s v"
  by (auto simp: stripped_def)

lemma strip_narrow_val: "strip_narrow s lo = (s', lo') \<Longrightarrow> stripped s (unat lo) s' (unat lo')"
proof (induction s lo arbitrary: s' lo' rule: strip_narrow.induct)
  case (2 s lo)
  have z: "lo mod 10 = 0 \<longleftrightarrow> unat lo mod 10 = 0" by (simp add: word_unat_eq_iff unat_mod_distrib)
  show ?case
  proof (cases "lo mod 10 = 0")
    case True
    then have "stripped s (unat (lo div 10)) s' (unat lo')" using 2 by simp
    then show ?thesis using True z by (auto intro: stripped_step simp: unat_div_distrib)
  next
    case False
    then show ?thesis using 2(2) z by (auto intro!: stripped_stop)
  qed
qed (auto intro: stripped_stop)

lemma div64_ten:
  assumes "div64 (hi mod 10) lo 10 = (q, r)"
  shows "V128 (hi div 10) q = V128 hi lo div 10" "r = 0 \<longleftrightarrow> V128 hi lo mod 10 = 0"
proof -
  let ?n = "unat hi mod 10 * 2 ^ 64 + unat lo"
  have q: "q = of_nat (?n div 10)" and r: "r = of_nat (?n mod 10)"
    using assms by (simp_all add: div64_def unat_mod_distrib Let_def)
  have regroup: "(a * 10 + b) * c + e = b * c + e + 10 * (a * c)" for a b c e :: nat by (simp add: algebra_simps)
  have "V128 hi lo = (unat hi div 10 * 10 + unat hi mod 10) * 2 ^ 64 + unat lo" by (simp only: V128_def div_mult_mod_eq)
  then have V: "V128 hi lo = ?n + 10 * (unat hi div 10 * 2 ^ 64)" by (simp only: regroup)
  have "unat hi mod 10 < 10" by simp
  then have "?n < 10 * 2 ^ 64" using unat_less64 [of lo] by simp
  then have "?n div 10 < 2 ^ 64" by (simp add: div_less_iff_less_mult)
  then have "unat q = ?n div 10" unfolding q by (rule unat_of_nat64)
  then show "V128 (hi div 10) q = V128 hi lo div 10" unfolding V by (simp add: V128_def unat_div_distrib)
  have "?n mod 10 < 2 ^ 64" by (rule less_trans [of _ 10]) simp_all
  then have "unat r = ?n mod 10" unfolding r by (rule unat_of_nat64)
  then show "r = 0 \<longleftrightarrow> V128 hi lo mod 10 = 0" unfolding V mod_mult_self2 by (simp add: word_unat_eq_iff)
qed

lemma strip_wide_val: "strip_wide s hi lo = (s', hi', lo') \<Longrightarrow> stripped s (V128 hi lo) s' (V128 hi' lo')"
proof (induction s hi lo arbitrary: s' hi' lo' rule: strip_wide.induct)
  case (2 s hi lo)
  obtain q r where qr: "div64 (hi mod 10) lo 10 = (q, r)" by fastforce
  show ?case
  proof (cases "r = 0")
    case True
    then have "stripped s (V128 (hi div 10) q) s' (V128 hi' lo')" using 2 qr by simp
    then show ?thesis using True div64_ten [OF qr] by (auto intro: stripped_step)
  next
    case False
    then show ?thesis using 2(2) qr div64_ten(2) [OF qr] by (auto intro!: stripped_stop)
  qed
qed (auto intro: stripped_stop)

lemma stripped_unique:
  assumes "stripped s v s1 v1" "stripped t w t1 w1" "v \<noteq> 0" "w \<noteq> 0"
  shows "s1 = t1 \<and> v1 = w1 \<longleftrightarrow> v * 10 ^ t = w * 10 ^ s"
proof -
  have v: "v = v1 * 10 ^ (s - s1)" and s: "s1 \<le> s" and w: "w = w1 * 10 ^ (t - t1)" and t: "t1 \<le> t"
    using assms(1,2) by (auto simp: stripped_def)
  have "v * 10 ^ t * 10 ^ (s1 + t1) = v1 * 10 ^ (s - s1 + s1) * 10 ^ (t + t1)" unfolding v by (simp add: power_add)
  then have L: "v * 10 ^ t * 10 ^ (s1 + t1) = v1 * 10 ^ t1 * 10 ^ (s + t)" using s by (simp add: power_add)
  have "w * 10 ^ s * 10 ^ (s1 + t1) = w1 * 10 ^ (t - t1 + t1) * 10 ^ (s + s1)" unfolding w by (simp add: power_add)
  then have R: "w * 10 ^ s * 10 ^ (s1 + t1) = w1 * 10 ^ s1 * 10 ^ (s + t)" using t by (simp add: power_add)
  have eq: "v * 10 ^ t = w * 10 ^ s \<longleftrightarrow> v1 * 10 ^ t1 = w1 * 10 ^ s1"
  proof -
    have "v * 10 ^ t = w * 10 ^ s \<longleftrightarrow> v * 10 ^ t * 10 ^ (s1 + t1) = w * 10 ^ s * 10 ^ (s1 + t1)" by simp
    then show ?thesis unfolding L R by simp
  qed
  have last: "x mod 10 = 0" if h: "x * 10 ^ a = y * 10 ^ b" "a < b" for x y a b :: nat
  proof -
    obtain c where "b = Suc (a + c)" using less_imp_Suc_add [OF h(2)] by auto
    then have "x * 10 ^ a = (10 * (y * 10 ^ c)) * 10 ^ a" using h(1) by (simp add: power_add mult_ac)
    then have "x = 10 * (y * 10 ^ c)" by (simp only: mult_cancel2) simp
    then show ?thesis by simp
  qed
  show ?thesis unfolding eq
  proof
    assume h: "v1 * 10 ^ t1 = w1 * 10 ^ s1"
    have "\<not> t1 < s1" using last [OF h] assms(1) by (auto simp: stripped_def)
    moreover have "\<not> s1 < t1" using last [OF h [symmetric]] assms(2) by (auto simp: stripped_def)
    ultimately show "s1 = t1 \<and> v1 = w1" using h by simp
  qed simp
qed

lemma PutUint64_length [simp]: "length (PutUint64 w) = 8"
  by (simp add: PutUint64_def)

lemma PutUint64_inject: "PutUint64 a = PutUint64 b \<longleftrightarrow> a = b"
proof
  assume h: "PutUint64 a = PutUint64 b"
  show "a = b"
  proof (rule bit_word_eqI)
    fix n assume "n < LENGTH(64)"
    then have n: "n < 64" by simp
    define i where "i = 7 - n div 8"
    have i: "i < 8" "56 - 8 * i = 8 * (n div 8)" using n by (simp_all add: i_def)
    have "PutUint64 a ! i = PutUint64 b ! i" using h by simp
    then have "(ucast (drop_bit (8 * (n div 8)) a) :: byte) = ucast (drop_bit (8 * (n div 8)) b)"
      using i by (simp add: PutUint64_def)
    then have "bit (ucast (drop_bit (8 * (n div 8)) a) :: byte) (n mod 8) = bit (ucast (drop_bit (8 * (n div 8)) b) :: byte) (n mod 8)"
      by simp
    then show "bit a n = bit b n" by (simp add: bit_simps)
  qed
qed simp

lemma dropWhile_zero_inject:
  assumes "length xs = length ys" "dropWhile (\<lambda>x. x = 0) xs = dropWhile (\<lambda>x. x = (0 :: byte)) ys"
  shows "xs = ys"
proof -
  have r: "xs = replicate (length xs - length (dropWhile (\<lambda>x. x = 0) xs)) 0 @ dropWhile (\<lambda>x. x = 0) xs" for xs :: "byte list"
  proof -
    have "takeWhile (\<lambda>x. x = 0) xs = replicate (length (takeWhile (\<lambda>x. x = 0) xs)) 0"
      by (rule replicate_eqI) (auto dest: set_takeWhileD)
    moreover have "length (takeWhile (\<lambda>x. x = 0) xs) = length xs - length (dropWhile (\<lambda>x. x = 0) xs)"
      by (simp add: dropWhile_eq_drop length_takeWhile_le)
    ultimately have "takeWhile (\<lambda>x. x = 0) xs = replicate (length xs - length (dropWhile (\<lambda>x. x = 0) xs)) 0"
      by simp
    then show ?thesis using takeWhile_dropWhile_id [of "\<lambda>x. x = 0" xs] by simp
  qed
  have "xs = replicate (length xs - length (dropWhile (\<lambda>x. x = 0) xs)) 0 @ dropWhile (\<lambda>x. x = 0) xs" by (rule r)
  also have "\<dots> = replicate (length ys - length (dropWhile (\<lambda>x. x = 0) ys)) 0 @ dropWhile (\<lambda>x. x = 0) ys"
    using assms by simp
  also have "\<dots> = ys" by (rule r [symmetric])
  finally show ?thesis .
qed

lemma V128_inject: "V128 h l = V128 h' l' \<longleftrightarrow> h = h' \<and> l = l'"
proof
  assume a: "V128 h l = V128 h' l'"
  have "V128 h l div 2 ^ 64 = unat h" "V128 h l mod 2 ^ 64 = unat l" for h l
    unfolding V128_def using unat_less64 [of l] by simp_all
  then show "h = h' \<and> l = l'" using a by (metis word_unat_eq_iff)
qed simp

text \<open>The bytes after the header of a key, and the key of a value that is not zero.\<close>

definition key_body :: "u64 \<Rightarrow> u64 \<Rightarrow> byte list" where
  "key_body hi lo = dropWhile (\<lambda>x. x = 0) (PutUint64 hi @ PutUint64 lo)"

lemma key_body_inject: "key_body hi lo = key_body hi' lo' \<longleftrightarrow> hi = hi' \<and> lo = lo'"
proof
  assume "key_body hi lo = key_body hi' lo'"
  then have "PutUint64 hi @ PutUint64 lo = PutUint64 hi' @ PutUint64 lo'"
    unfolding key_body_def by (rule dropWhile_zero_inject [rotated]) simp
  then show "hi = hi' \<and> lo = lo'" by (simp add: PutUint64_inject)
qed simp

lemma key_body_nonempty: "V128 hi lo \<noteq> 0 \<Longrightarrow> key_body hi lo \<noteq> []"
proof -
  have "key_body 0 0 = []" by (simp add: key_body_def PutUint64_def upt_rec)
  then show "V128 hi lo \<noteq> 0 \<Longrightarrow> key_body hi lo \<noteq> []"
    using key_body_inject [of hi lo 0 0] by (auto simp: V128_def)
qed

lemma key_body_length: "length (key_body hi lo) \<le> 16"
  using length_dropWhile_le [of "\<lambda>x. x = 0" "PutUint64 hi @ PutUint64 lo"] by (simp add: key_body_def)

lemma AppendDecimalKey_zero: "val128 d = 0 \<Longrightarrow> AppendDecimalKey buf d s = buf @ [0, 0]"
proof -
  assume z: "val128 d = 0"
  obtain hi lo neg where m: "magnitude d = (hi, lo, neg)" by (cases "magnitude d")
  have "int (V128 hi lo) = 0" using magnitude_val(1) [OF m] z by simp
  then have "V128 hi lo = 0" by (simp only: of_nat_eq_0_iff)
  then have "hi = 0 \<and> lo = 0" by (simp add: V128_def unat_eq_zero)
  then show "AppendDecimalKey buf d s = buf @ [0, 0]" by (simp add: AppendDecimalKey_def m)
qed

lemma AppendDecimalKey_form:
  assumes "val128 d \<noteq> 0"
  obtains s' hi lo where "stripped (nat s) (nat \<bar>val128 d\<bar>) s' (V128 hi lo)"
    "AppendDecimalKey buf d s = buf @ [of_nat s', (if val128 d < 0 then of_nat (length (key_body hi lo)) OR decimalKeyNegative
                                                   else of_nat (length (key_body hi lo)))] @ key_body hi lo"
proof -
  obtain hi0 lo0 neg where m: "magnitude d = (hi0, lo0, neg)" by (cases "magnitude d")
  have v: "nat \<bar>val128 d\<bar> = V128 hi0 lo0" and neg: "neg = (val128 d < 0)" using magnitude_val [OF m] by linarith+
  have nz: "\<not> (hi0 = 0 \<and> lo0 = 0)" using assms magnitude_val(1) [OF m] by (auto simp: V128_def)
  obtain s' hi lo where st: "(if hi0 = 0 then let (s, l) = strip_narrow (nat s) lo0 in (s, hi0, l)
                              else strip_wide (nat s) hi0 lo0) = (s', hi, lo)" by (metis prod_cases3)
  have n: "nat (if s < 0 then 0 else s) = nat s" by simp
  have "stripped (nat s) (V128 hi0 lo0) s' (V128 hi lo) \<and>
    AppendDecimalKey buf d s = buf @ [of_nat s', (if val128 d < 0 then of_nat (length (key_body hi lo)) OR decimalKeyNegative
                                                   else of_nat (length (key_body hi lo)))] @ key_body hi lo"
  proof (cases "hi0 = 0")
    case True
    then have sn: "strip_narrow (nat s) lo0 = (s', lo)" "hi = 0" using st by (auto split: prod.splits)
    then show ?thesis using True nz neg strip_narrow_val [OF sn(1)]
      by (simp add: AppendDecimalKey_def m n key_body_def Let_def) (simp add: V128_def)
  next
    case False
    then have sw: "strip_wide (nat s) hi0 lo0 = (s', hi, lo)" using st by simp
    then show ?thesis using False neg strip_wide_val [OF sw]
      by (simp add: AppendDecimalKey_def m n key_body_def Let_def)
  qed
  then show ?thesis using that [of s' hi lo] unfolding v by blast
qed

lemma sign_byte:
  assumes "m \<le> 16"
  shows "(if a then of_nat m OR decimalKeyNegative else (of_nat m :: byte)) =
         (if b then of_nat m OR decimalKeyNegative else of_nat m) \<longleftrightarrow> a = b"
proof -
  have "\<not> bit m 7" using assms by (simp add: bit_iff_odd)
  then have "\<not> bit (of_nat m :: byte) 7" by (simp add: bit_simps)
  moreover have "bit ((of_nat m :: byte) OR decimalKeyNegative) 7" by (simp add: decimalKeyNegative_def bit_or_iff)
  ultimately have "(of_nat m :: byte) OR decimalKeyNegative \<noteq> of_nat m" by metis
  then show ?thesis by auto
qed

lemma of_nat_byte_inject: "a \<le> 255 \<Longrightarrow> b \<le> 255 \<Longrightarrow> (of_nat a :: byte) = of_nat b \<longleftrightarrow> a = b"
  by (simp add: word_of_nat_eq_iff take_bit_nat_eq_self)

lemma AppendDecimalKey_eq_nonzero:
  assumes "val128 d \<noteq> 0" "val128 e \<noteq> 0" "0 \<le> s" "s \<le> 255" "0 \<le> t" "t \<le> 255"
  shows "AppendDecimalKey buf d s = AppendDecimalKey buf e t \<longleftrightarrow> val128 d * 10 ^ nat t = val128 e * 10 ^ nat s"
proof -
  obtain s' h l where D: "stripped (nat s) (nat \<bar>val128 d\<bar>) s' (V128 h l)" and
    kd: "AppendDecimalKey buf d s = buf @ [of_nat s', (if val128 d < 0 then of_nat (length (key_body h l)) OR decimalKeyNegative
                                                   else of_nat (length (key_body h l)))] @ key_body h l"
    by (rule AppendDecimalKey_form [OF assms(1)])
  obtain t' h' l' where E: "stripped (nat t) (nat \<bar>val128 e\<bar>) t' (V128 h' l')" and
    ke: "AppendDecimalKey buf e t = buf @ [of_nat t', (if val128 e < 0 then of_nat (length (key_body h' l')) OR decimalKeyNegative
                                                   else of_nat (length (key_body h' l')))] @ key_body h' l'"
    by (rule AppendDecimalKey_form [OF assms(2)])
  have "s' \<le> nat s" "t' \<le> nat t" using D E by (simp_all add: stripped_def)
  then have "s' \<le> 255" "t' \<le> 255" using assms(4,6) by linarith+
  then have "AppendDecimalKey buf d s = AppendDecimalKey buf e t \<longleftrightarrow>
      (val128 d < 0 \<longleftrightarrow> val128 e < 0) \<and> s' = t' \<and> V128 h l = V128 h' l'"
    unfolding kd ke using sign_byte [OF key_body_length [of h' l'], of "val128 d < 0" "val128 e < 0"]
    by (auto simp: of_nat_byte_inject key_body_inject V128_inject)
  also have "\<dots> \<longleftrightarrow> (val128 d < 0 \<longleftrightarrow> val128 e < 0) \<and> nat \<bar>val128 d\<bar> * 10 ^ nat t = nat \<bar>val128 e\<bar> * 10 ^ nat s"
    using stripped_unique [OF D E] assms(1,2) by simp
  also have "\<dots> \<longleftrightarrow> (val128 d < 0 \<longleftrightarrow> val128 e < 0) \<and> \<bar>val128 d * 10 ^ nat t\<bar> = \<bar>val128 e * 10 ^ nat s\<bar>"
    unfolding int_int_eq [symmetric] by (simp add: abs_mult)
  also have "\<dots> \<longleftrightarrow> val128 d * 10 ^ nat t = val128 e * 10 ^ nat s"
  proof -
    have neg: "a * 10 ^ k < 0 \<longleftrightarrow> a < 0" for a :: int and k by (simp add: mult_less_0_iff)
    show ?thesis using neg [of "val128 d" "nat t"] neg [of "val128 e" "nat s"] by linarith
  qed
  finally show ?thesis .
qed

lemma AppendDecimalKey_nonzero_long: "val128 d \<noteq> 0 \<Longrightarrow> AppendDecimalKey buf d s \<noteq> buf @ [0, 0]"
proof -
  assume nz: "val128 d \<noteq> 0"
  obtain s' h l where D: "stripped (nat s) (nat \<bar>val128 d\<bar>) s' (V128 h l)" and
    kd: "AppendDecimalKey buf d s = buf @ [of_nat s', (if val128 d < 0 then of_nat (length (key_body h l)) OR decimalKeyNegative
                                                   else of_nat (length (key_body h l)))] @ key_body h l"
    by (rule AppendDecimalKey_form [OF nz])
  have "nat \<bar>val128 d\<bar> \<noteq> 0" using nz by simp
  then have "V128 h l \<noteq> 0" using D unfolding stripped_def by (metis mult_is_0)
  then show "AppendDecimalKey buf d s \<noteq> buf @ [0, 0]" unfolding kd using key_body_nonempty by simp
qed

section \<open>Properties\<close>

text \<open>C10: \<^verbatim>\<open>AddChecked\<close> always returns the wrapped 128-bit sum, and its flag is true exactly when the mathematical sum
  lies within the bounds of a signed 128-bit integer; then the returned value is that sum. No overflow passes
  unreported and no representable sum is refused.\<close>

theorem add_checked_bounds:
  "fst (AddChecked d e) = Add d e \<and>
   (snd (AddChecked d e) = (- (2 ^ 127) \<le> val128 d + val128 e \<and> val128 d + val128 e < 2 ^ 127)) \<and>
   (val128 (fst (AddChecked d e)) = val128 d + val128 e) = snd (AddChecked d e)"
  using AddChecked_val [of d e] val128_range [of "Add d e"] by auto

text \<open>C11: \<^verbatim>\<open>MulPow10\<close> reports success exactly when the product with 10^n has a magnitude below 2^127 (or n is zero),
  and then the result is the exact product; it never returns an approximation.\<close>

theorem mul_pow10_exact:
  assumes "0 \<le> n"
  shows "snd (MulPow10 n d) = (n = 0 \<or> \<bar>val128 d\<bar> * 10 ^ nat n < 2 ^ 127) \<and>
         val128 (fst (MulPow10 n d)) = (if snd (MulPow10 n d) then val128 d * 10 ^ nat n else 0)"
proof -
  have "fst (MulPow10 n d) = \<lparr>Hi = 0, Lo = 0\<rparr>" if "\<not> snd (MulPow10 n d)"
    using that by (auto simp: MulPow10_def Let_def split: if_splits option.splits prod.splits)
  moreover have "val128 \<lparr>Hi = 0, Lo = 0\<rparr> = 0" by (simp add: val128_def)
  ultimately have z: "val128 (fst (MulPow10 n d)) = 0" if "\<not> snd (MulPow10 n d)" using that by simp
  have "MulPow10 n d = (fst (MulPow10 n d), snd (MulPow10 n d))" by simp
  note v = MulPow10_val [OF assms this]
  show ?thesis
  proof
    show "snd (MulPow10 n d) = (n = 0 \<or> \<bar>val128 d\<bar> * 10 ^ nat n < 2 ^ 127)" by (rule v(1))
    show "val128 (fst (MulPow10 n d)) = (if snd (MulPow10 n d) then val128 d * 10 ^ nat n else 0)"
      by (cases "snd (MulPow10 n d)") (simp_all only: v(2) z if_True if_False simp_thms)
  qed
qed

theorem mul_pow10_exact_witness:
  "snd (MulPow10 3 \<lparr>Hi = 0, Lo = 5\<rparr>) = True \<and> val128 (fst (MulPow10 3 \<lparr>Hi = 0, Lo = 5\<rparr>)) = 5000"
  using mul_pow10_exact [of 3 "\<lparr>Hi = 0, Lo = 5\<rparr>"] by (simp add: val128_def)

text \<open>C12: The canonical key of a decimal is a complete invariant of the number it stands for: two carriers at scales
  up to 255 append the same key bytes exactly when they denote the same rational, whatever their scales
  (1.50 and 1.5 group together, 15 and 1.5 do not); this includes zero at every scale and the most negative carrier.\<close>

theorem decimal_key_canonical:
  assumes "0 \<le> s" "s \<le> 255" "0 \<le> t" "t \<le> 255"
  shows "AppendDecimalKey buf d s = AppendDecimalKey buf e t \<longleftrightarrow> val128 d * 10 ^ nat t = val128 e * 10 ^ nat s"
proof (cases "val128 d = 0 \<or> val128 e = 0")
  case True
  have "AppendDecimalKey buf d s = AppendDecimalKey buf e t \<longleftrightarrow> val128 d = 0 \<and> val128 e = 0"
    using True AppendDecimalKey_nonzero_long [of d buf s] AppendDecimalKey_nonzero_long [of e buf t]
      AppendDecimalKey_zero [of d buf s] AppendDecimalKey_zero [of e buf t] by metis
  then show ?thesis using True by auto
next
  case False
  then show ?thesis using AppendDecimalKey_eq_nonzero [OF _ _ assms] by blast
qed

theorem decimal_key_canonical_witness:
  "AppendDecimalKey [] \<lparr>Hi = 0, Lo = 150\<rparr> 2 = AppendDecimalKey [] \<lparr>Hi = 0, Lo = 15\<rparr> 1 \<and>
   AppendDecimalKey [] \<lparr>Hi = 0, Lo = 15\<rparr> 0 \<noteq> AppendDecimalKey [] \<lparr>Hi = 0, Lo = 15\<rparr> 1"
  using decimal_key_canonical [of 2 1 "[]" "\<lparr>Hi = 0, Lo = 150\<rparr>" "\<lparr>Hi = 0, Lo = 15\<rparr>"]
    decimal_key_canonical [of 0 1 "[]" "\<lparr>Hi = 0, Lo = 15\<rparr>" "\<lparr>Hi = 0, Lo = 15\<rparr>"]
  by (simp add: val128_def)

text \<open>C40: \<^verbatim>\<open>Less\<close>, \<^verbatim>\<open>Equal\<close> and \<^verbatim>\<open>Cmp\<close> decide the order of the integers the carriers stand for, and the 64-bit
  image taken by \<^verbatim>\<open>ToInt64\<close> widens back to the carrier exactly when \<^verbatim>\<open>FitsInt64\<close> says so, which is when the value lies
  in the 64-bit range.\<close>

theorem decimal_order:
  "Less d e = (val128 d < val128 e) \<and> Equal d e = (val128 d = val128 e) \<and> Cmp d e = sgn (val128 d - val128 e) \<and>
   FitsInt64 d = (- (2 ^ 63) \<le> val128 d \<and> val128 d < 2 ^ 63) \<and> (Int128From (ToInt64 d) = d) = FitsInt64 d"
proof -
  have "Equal d e = (val128 d = val128 e)" unfolding val128_inject by (auto simp: Equal_def)
  moreover have "(Int128From (ToInt64 d) = d) = FitsInt64 d"
    by (cases d) (auto simp: Int128From_def ToInt64_def FitsInt64_def sint_of_top)
  ultimately show ?thesis using Less_val Cmp_val [of d e] FitsInt64_val [of d] by (simp add: sgn_if)
qed

end
