(* ===== verification/Dec_Wide.thy ===== *)
theory Dec_Wide
  imports Dec128 "HOL-Library.Log_Nat" "HOL-Library.Signed_Division"
begin

text \<open>
  Multiplication and division of the 128-bit carrier (\<^verbatim>\<open>internal/engine/batch/decimal_arith.go\<close>): the 256-bit
  product from four partial products, Knuth's normalized division of one 128-bit magnitude by another with its
  correction loops, and the signed operations over them. \<open>None\<close> is a panic of \<^verbatim>\<open>bits.Div64\<close> or a correction
  loop that never returns; both are proved impossible.
\<close>

section \<open>Definitions\<close>

text \<open>\<^verbatim>\<open>bits.Add64\<close> and \<^verbatim>\<open>bits.Sub64\<close> with their carry and borrow inputs; \<^verbatim>\<open>bits.Div64\<close> panics on a zero
  divisor and when the quotient does not fit a word; \<^verbatim>\<open>bits.LeadingZeros64\<close>.\<close>

definition add64c :: "u64 \<Rightarrow> u64 \<Rightarrow> u64 \<Rightarrow> u64 \<times> u64" where
  "add64c x y c = (x + y + c, if 2 ^ 64 \<le> unat x + unat y + unat c then 1 else 0)"

definition sub64 :: "u64 \<Rightarrow> u64 \<Rightarrow> u64 \<Rightarrow> u64 \<times> u64" where
  "sub64 x y b = (x - y - b, if unat x < unat y + unat b then 1 else 0)"

definition Div64 :: "u64 \<Rightarrow> u64 \<Rightarrow> u64 \<Rightarrow> (u64 \<times> u64) option" where
  "Div64 hi lo y = (if y = 0 \<or> y \<le> hi then None else Some (div64 hi lo y))"

definition LeadingZeros64 :: "u64 \<Rightarrow> nat" where
  "LeadingZeros64 x = nat (64 - bitlen (uint x))"

text \<open>The 256-bit product, most significant word first.\<close>

definition mulMag256 :: "u64 \<Rightarrow> u64 \<Rightarrow> u64 \<Rightarrow> u64 \<Rightarrow> u64 \<times> u64 \<times> u64 \<times> u64" where
  "mulMag256 aHi aLo bHi bLo =
     (let (h00, l00) = mul64 aLo bLo;
          (h01, l01) = mul64 aLo bHi;
          (h10, l10) = mul64 aHi bLo;
          (h11, l11) = mul64 aHi bHi;
          r0 = l00;
          (r1, c1) = add64c h00 l01 0;
          (r1, c2) = add64c r1 l10 0;
          (r2, c) = add64c h01 h10 0;
          carry = c;
          (r2, c) = add64c r2 l11 0;
          carry = carry + c;
          (r2, c) = add64c r2 (c1 + c2) 0;
          carry = carry + c;
          r3 = h11 + carry
      in (r3, r2, r1, r0))"

definition Mul :: "int128 \<Rightarrow> int128 \<Rightarrow> int128 \<times> bool" where
  "Mul d other =
     (let (aHi, aLo, aNeg) = magnitude d; (bHi, bLo, bNeg) = magnitude other;
          neg = (aNeg \<noteq> bNeg); (r3, r2, r1, r0) = mulMag256 aHi aLo bHi bLo
      in if r3 \<noteq> 0 \<or> r2 \<noteq> 0 then (\<lparr>Hi = 0, Lo = 0\<rparr>, False)
         else if r1 AND push_bit 63 1 \<noteq> 0 then
           (if \<not> neg \<or> r1 \<noteq> push_bit 63 1 \<or> r0 \<noteq> 0 then (\<lparr>Hi = 0, Lo = 0\<rparr>, False) else (Int128Min, True))
         else let res = \<lparr>Hi = r1, Lo = r0\<rparr> in (if neg then Neg res else res, True))"

definition SubChecked :: "int128 \<Rightarrow> int128 \<Rightarrow> int128 \<times> bool" where
  "SubChecked d other =
     (let diff = Sub d other in
      if (sint (Hi d) < 0) \<noteq> (sint (Hi other) < 0) \<and> (sint (Hi diff) < 0) \<noteq> (sint (Hi d) < 0)
      then (diff, False) else (diff, True))"

definition cmpMag :: "u64 \<Rightarrow> u64 \<Rightarrow> u64 \<Rightarrow> u64 \<Rightarrow> int" where
  "cmpMag aHi aLo bHi bLo =
     (if aHi \<noteq> bHi then (if aHi < bHi then - 1 else 1)
      else if aLo \<noteq> bLo then (if aLo < bLo then - 1 else 1) else 0)"

definition subMag :: "u64 \<Rightarrow> u64 \<Rightarrow> u64 \<Rightarrow> u64 \<Rightarrow> u64 \<times> u64" where
  "subMag aHi aLo bHi bLo =
     (let (lo, borrow) = sub64 aLo bLo 0; (hi, _) = sub64 aHi bHi borrow in (hi, lo))"

definition mulU64Mag :: "u64 \<Rightarrow> u64 \<Rightarrow> u64 \<Rightarrow> u64 \<times> u64 \<times> bool" where
  "mulU64Mag m dHi dLo =
     (let (h0, l0) = mul64 m dLo; (h1, l1) = mul64 m dHi in
      if h1 \<noteq> 0 then (0, 0, False)
      else let (hi, carry) = add64c h0 l1 0 in
           if carry \<noteq> 0 then (0, 0, False) else (hi, l0, True))"

text \<open>The guard loop that raises the quotient while the remainder is not below the divisor, and the loop that
  lowers an estimate that is too large.\<close>

partial_function (option) guard_loop :: "u64 \<Rightarrow> u64 \<Rightarrow> u64 \<Rightarrow> u64 \<Rightarrow> u64 \<Rightarrow> (u64 \<times> u64 \<times> u64) option" where
  [code]: "guard_loop qhat hi lo dHi dLo =
     (if cmpMag hi lo dHi dLo \<ge> 0
      then case subMag hi lo dHi dLo of (hi', lo') \<Rightarrow> guard_loop (qhat + 1) hi' lo' dHi dLo
      else Some (qhat, hi, lo))"

partial_function (option) correct_loop ::
  "u64 \<Rightarrow> u64 \<Rightarrow> u64 \<Rightarrow> u64 \<Rightarrow> u64 \<Rightarrow> (u64 \<times> u64 \<times> u64) option" where
  [code]: "correct_loop qhat nHi nLo dHi dLo =
     (case mulU64Mag qhat dHi dLo of (pHi, pLo, fits) \<Rightarrow>
        if fits \<and> cmpMag pHi pLo nHi nLo \<le> 0
        then (case subMag nHi nLo pHi pLo of (hi, lo) \<Rightarrow> guard_loop qhat hi lo dHi dLo)
        else correct_loop (qhat - 1) nHi nLo dHi dLo)"

definition divMag :: "u64 \<Rightarrow> u64 \<Rightarrow> u64 \<Rightarrow> u64 \<Rightarrow> (u64 \<times> u64 \<times> u64 \<times> u64) option" where
  "divMag nHi nLo dHi dLo =
     (if dHi = 0 then
        if nHi < dLo then (case Div64 nHi nLo dLo of None \<Rightarrow> None | Some (q, rem) \<Rightarrow> Some (0, q, 0, rem))
        else (case Div64 0 nHi dLo of
                None \<Rightarrow> None
              | Some (hi, rem) \<Rightarrow>
                  (case Div64 rem nLo dLo of None \<Rightarrow> None | Some (lo, rem2) \<Rightarrow> Some (hi, lo, 0, rem2)))
      else if cmpMag nHi nLo dHi dLo < 0 then Some (0, 0, nHi, nLo)
      else let sh = LeadingZeros64 dHi in
        if sh = 0 then let (hi, lo) = subMag nHi nLo dHi dLo in Some (0, 1, hi, lo)
        else let vHi = push_bit sh dHi OR drop_bit (64 - sh) dLo;
                 uHi = drop_bit (64 - sh) nHi;
                 uMid = push_bit sh nHi OR drop_bit (64 - sh) nLo
             in case Div64 uHi uMid vHi of
                  None \<Rightarrow> None
                | Some (qhat, _) \<Rightarrow>
                    (case correct_loop qhat nHi nLo dHi dLo of
                       None \<Rightarrow> None | Some (q, hi, lo) \<Rightarrow> Some (0, q, hi, lo)))"

definition QuoRem :: "int128 \<Rightarrow> int128 \<Rightarrow> (int128 \<times> int128 \<times> bool) option" where
  "QuoRem d other =
     (if IsZero other then Some (\<lparr>Hi = 0, Lo = 0\<rparr>, \<lparr>Hi = 0, Lo = 0\<rparr>, False)
      else if Equal d Int128Min \<and> Equal other (Int128From (- 1)) then Some (\<lparr>Hi = 0, Lo = 0\<rparr>, \<lparr>Hi = 0, Lo = 0\<rparr>, False)
      else let (aHi, aLo, aNeg) = magnitude d; (bHi, bLo, bNeg) = magnitude other in
        case divMag aHi aLo bHi bLo of
          None \<Rightarrow> None
        | Some (qHi, qLo, rHi, rLo) \<Rightarrow>
            let q = \<lparr>Hi = qHi, Lo = qLo\<rparr>; r = \<lparr>Hi = rHi, Lo = rLo\<rparr>
            in Some (if aNeg \<noteq> bNeg then Neg q else q, if aNeg then Neg r else r, True))"

section \<open>Words and magnitudes\<close>

lemma pow_num_nat:
  "(2 :: nat) ^ 63 = 9223372036854775808" "(2 :: nat) ^ 64 = 18446744073709551616"
  "(2 :: nat) ^ 127 = 170141183460469231731687303715884105728" "(2 :: nat) ^ 128 = 340282366920938463463374607431768211456"
  by simp_all

lemmas unat_less64_num = unat_less64 [unfolded pow_num_nat]
lemmas V128_num = V128_def [unfolded pow_num_nat]

lemma V128_less: "V128 h l < 2 ^ 128"
  unfolding V128_num pow_num_nat using unat_less64_num [of h] unat_less64_num [of l] by linarith

lemmas V128_less_num = V128_less [unfolded pow_num_nat]

lemma add64c_val:
  assumes "add64c x y c = (s, k)" "unat c \<le> 1"
  shows "unat s + unat k * 2 ^ 64 = unat x + unat y + unat c" "unat k \<le> 1"
proof -
  let ?t = "unat x + unat y + unat c"
  have t: "?t < 2 * 2 ^ 64"
    using unat_less64_num [of x] unat_less64_num [of y] assms(2) unfolding pow_num_nat by linarith
  have s: "unat s = ?t mod 2 ^ 64"
    using assms(1) by (auto simp: add64c_def unat_word_ariths mod_simps)
  show "unat s + unat k * 2 ^ 64 = ?t"
  proof (cases "2 ^ 64 \<le> ?t")
    case True
    then have "?t mod 2 ^ 64 = ?t - 2 ^ 64" using t by (simp add: le_mod_geq)
    moreover have "unat k = 1" using True assms(1) by (auto simp: add64c_def)
    ultimately show ?thesis using True s by simp
  next
    case False
    then have "unat k = 0" using assms(1) by (auto simp: add64c_def)
    then show ?thesis using False s by simp
  qed
  show "unat k \<le> 1" using assms(1) by (auto simp: add64c_def split: if_splits)
qed

lemmas add64c_num = add64c_val [unfolded pow_num_nat]

lemma sub64_val:
  assumes "sub64 x y b = (s, k)" "unat b \<le> 1"
  shows "unat s + unat y + unat b = unat x + unat k * 2 ^ 64" "unat k \<le> 1"
proof -
  define t where "t = int (unat x) - int (unat y) - int (unat b)"
  have bd: "- (2 ^ 64) \<le> t" "t < 2 ^ 64"
    using unat_less64_num [of x] unat_less64_num [of y] assms(2) unfolding t_def pow_num by linarith+
  have "uint s = t mod 2 ^ 64" using assms(1) by (auto simp: sub64_def t_def uint_word_ariths mod_simps)
  then have s: "int (unat s) = t mod 2 ^ 64" by simp
  have "unat x < unat y + unat b \<longleftrightarrow> t < 0" unfolding t_def by linarith
  then have k: "unat k = (if t < 0 then 1 else 0)" using assms(1) by (auto simp: sub64_def)
  have "t mod 2 ^ 64 = (if t < 0 then t + 2 ^ 64 else t)"
  proof (cases "t < 0")
    case True
    then have "(t + 2 ^ 64) mod 2 ^ 64 = t + 2 ^ 64" using bd by (intro mod_pos_pos_trivial) simp_all
    then show ?thesis using True by simp
  qed (use bd in simp)
  then have "int (unat s + unat y + unat b) = int (unat x + unat k * 2 ^ 64)"
    using s k unfolding t_def by (simp split: if_splits)
  then show "unat s + unat y + unat b = unat x + unat k * 2 ^ 64" by (simp only: of_nat_eq_iff)
  show "unat k \<le> 1" using k by simp
qed

lemmas sub64_num = sub64_val [unfolded pow_num_nat]

lemma cmpMag_val: "cmpMag a b c d = (if V128 a b < V128 c d then - 1 else if V128 c d < V128 a b then 1 else 0)"
proof -
  have high: "V128 a b < V128 c d" if "unat a < unat c" for a b c d
    unfolding V128_num using unat_less64_num [of b] that by linarith
  consider "unat a < unat c" | "unat c < unat a" | "a = c" by (metis linorder_neqE_nat word_unat_eq_iff)
  then show ?thesis
  proof cases
    case 3
    consider "unat b < unat d" | "unat d < unat b" | "b = d" by (metis linorder_neqE_nat word_unat_eq_iff)
    then show ?thesis using 3 by cases (auto simp: cmpMag_def V128_def word_less_nat_alt)
  qed (use high [of a c b d] high [of c a d b] in \<open>auto simp: cmpMag_def word_less_nat_alt\<close>)
qed

lemma subMag_val:
  assumes "subMag a b c d = (hi, lo)" "V128 c d \<le> V128 a b"
  shows "V128 hi lo = V128 a b - V128 c d"
proof -
  obtain k where k: "sub64 b d 0 = (lo, k)" using assms(1) by (auto simp: subMag_def Let_def split: prod.splits)
  then obtain k2 where k2: "sub64 a c k = (hi, k2)" using assms(1) by (auto simp: subMag_def Let_def split: prod.splits)
  have 1: "unat lo + unat d = unat b + unat k * 18446744073709551616" and kb: "unat k \<le> 1" using sub64_num [OF k] by simp_all
  have 2: "unat hi + unat c + unat k = unat a + unat k2 * 18446744073709551616" and k2b: "unat k2 \<le> 1"
    using sub64_num [OF k2 kb] by simp_all
  have "V128 hi lo + V128 c d = V128 a b + unat k2 * 340282366920938463463374607431768211456"
    unfolding V128_num using 1 2 by linarith
  moreover have "unat k2 = 0" using calculation k2b assms(2) V128_less_num [of hi lo] by linarith
  ultimately show ?thesis by simp
qed

lemma mulU64Mag_val:
  assumes "mulU64Mag m dHi dLo = (hi, lo, ok)"
  shows "ok \<longleftrightarrow> unat m * V128 dHi dLo < 2 ^ 128" "ok \<Longrightarrow> V128 hi lo = unat m * V128 dHi dLo"
proof -
  obtain h0 l0 where 0: "mul64 m dLo = (h0, l0)" by fastforce
  obtain h1 l1 where 1: "mul64 m dHi = (h1, l1)" by fastforce
  obtain h k where k: "add64c h0 l1 0 = (h, k)" by fastforce
  have v0: "unat h0 * 18446744073709551616 + unat l0 = unat m * unat dLo" using mul64_val [OF 0] by simp
  have v1: "unat h1 * 18446744073709551616 + unat l1 = unat m * unat dHi" using mul64_val [OF 1] by simp
  have vk: "unat h + unat k * 18446744073709551616 = unat h0 + unat l1" using add64c_num [OF k] by simp
  have "unat m * V128 dHi dLo = unat m * unat dHi * 18446744073709551616 + unat m * unat dLo"
    by (simp add: V128_def algebra_simps)
  then have p: "unat m * V128 dHi dLo = unat h1 * 340282366920938463463374607431768211456 +
      unat k * 340282366920938463463374607431768211456 + V128 h l0"
    using v0 v1 vk V128_num [of h l0] by linarith
  have r: "(hi, lo, ok) = (if h1 \<noteq> 0 \<or> k \<noteq> 0 then (0, 0, False) else (h, l0, True))"
    using assms 0 1 k by (simp add: mulU64Mag_def split: if_splits)
  have nz: "h1 \<noteq> 0 \<or> k \<noteq> 0 \<longleftrightarrow> 1 \<le> unat h1 + unat k"
    using unat_eq_zero [of h1] unat_eq_zero [of k] by linarith
  show "ok \<longleftrightarrow> unat m * V128 dHi dLo < 2 ^ 128"
  proof (cases "h1 \<noteq> 0 \<or> k \<noteq> 0")
    case True
    then have "2 ^ 128 \<le> unat m * V128 dHi dLo" using nz p unfolding pow_num_nat by linarith
    then show ?thesis using True r by simp
  next
    case False
    then show ?thesis using p r V128_less [of h l0] by simp
  qed
  show "ok \<Longrightarrow> V128 hi lo = unat m * V128 dHi dLo" using r p by (auto split: if_splits)
qed

lemma guard_loop_val:
  assumes "0 < V128 dHi dLo"
  shows "\<exists>rh rl. guard_loop qhat hi lo dHi dLo = Some (qhat + of_nat (V128 hi lo div V128 dHi dLo), rh, rl) \<and>
           V128 rh rl = V128 hi lo mod V128 dHi dLo"
proof (induction "V128 hi lo" arbitrary: qhat hi lo rule: less_induct)
  case less
  show ?case
  proof (cases "V128 dHi dLo \<le> V128 hi lo")
    case True
    obtain h l where s: "subMag hi lo dHi dLo = (h, l)" by fastforce
    then have v: "V128 h l = V128 hi lo - V128 dHi dLo" by (rule subMag_val [OF _ True])
    obtain rh rl where ih: "guard_loop (qhat + 1) h l dHi dLo = Some (qhat + 1 + of_nat (V128 h l div V128 dHi dLo), rh, rl)"
      "V128 rh rl = V128 h l mod V128 dHi dLo"
      using less [of h l "qhat + 1"] v True assms by auto
    have "guard_loop qhat hi lo dHi dLo = guard_loop (qhat + 1) h l dHi dLo"
      using True s by (subst guard_loop.simps) (simp add: cmpMag_val)
    moreover have "V128 hi lo div V128 dHi dLo = Suc (V128 h l div V128 dHi dLo)"
      unfolding v using True assms by (simp add: le_div_geq)
    moreover have "V128 h l mod V128 dHi dLo = V128 hi lo mod V128 dHi dLo"
      unfolding v using True by (simp add: le_mod_geq [symmetric])
    ultimately show ?thesis using ih by simp
  next
    case False
    then show ?thesis by (subst guard_loop.simps) (simp add: cmpMag_val)
  qed
qed

lemma correct_loop_val:
  assumes "0 < V128 dHi dLo"
  shows "\<exists>rh rl. correct_loop qhat nHi nLo dHi dLo = Some (of_nat (V128 nHi nLo div V128 dHi dLo), rh, rl) \<and>
           V128 rh rl = V128 nHi nLo mod V128 dHi dLo"
proof (induction "unat qhat" arbitrary: qhat rule: less_induct)
  case less
  let ?N = "V128 nHi nLo" and ?D = "V128 dHi dLo"
  obtain pHi pLo fits where m: "mulU64Mag qhat dHi dLo = (pHi, pLo, fits)" using prod_cases3 by blast
  show ?case
  proof (cases "unat qhat * ?D \<le> ?N")
    case True
    then have f: fits and p: "V128 pHi pLo = unat qhat * ?D"
      using mulU64Mag_val [OF m] V128_less [of nHi nLo] by auto
    obtain h l where s: "subMag nHi nLo pHi pLo = (h, l)" by fastforce
    then have v: "V128 h l = ?N - unat qhat * ?D" using subMag_val [OF s] True p by simp
    have "correct_loop qhat nHi nLo dHi dLo = guard_loop qhat h l dHi dLo"
      using m f s p True by (subst correct_loop.simps) (simp add: cmpMag_val)
    moreover obtain rh rl where "guard_loop qhat h l dHi dLo = Some (qhat + of_nat (V128 h l div ?D), rh, rl)"
      "V128 rh rl = V128 h l mod ?D" using guard_loop_val [OF assms] by blast
    moreover have N: "?N = V128 h l + unat qhat * ?D" using v True by simp
    have "?N div ?D = V128 h l div ?D + unat qhat" "?N mod ?D = V128 h l mod ?D"
      unfolding N using assms by simp_all
    ultimately show ?thesis by (simp add: add.commute)
  next
    case False
    then have "\<not> (fits \<and> cmpMag pHi pLo nHi nLo \<le> 0)" using mulU64Mag_val [OF m] by (auto simp: cmpMag_val)
    then have "correct_loop qhat nHi nLo dHi dLo = correct_loop (qhat - 1) nHi nLo dHi dLo"
      using m by (subst correct_loop.simps) (simp only: prod.case if_False)
    moreover have "unat qhat \<noteq> 0" using False by (metis mult_zero_left zero_le)
    then have "unat (qhat - 1) < unat qhat" by (metis diff_less unat_gt_0 unat_1 unat_eq_zero unat_minus_one zero_less_one)
    ultimately show ?thesis using less [of "qhat - 1"] by simp
  qed
qed

lemma Div64_val:
  assumes "unat hi < unat y"
  obtains q r where "Div64 hi lo y = Some (q, r)" "unat q = V128 hi lo div unat y" "unat r = V128 hi lo mod unat y"
proof -
  have "y \<noteq> 0" using assms by auto
  moreover have "\<not> y \<le> hi" using assms by (simp add: word_le_nat_alt)
  ultimately have "Div64 hi lo y = Some (of_nat (V128 hi lo div unat y), of_nat (V128 hi lo mod unat y))"
    by (simp add: Div64_def div64_def V128_def Let_def)
  moreover have "V128 hi lo div unat y < 2 ^ 64"
  proof -
    have "V128 hi lo < 2 ^ 64 * unat y" unfolding V128_num pow_num_nat using assms unat_less64_num [of lo] by linarith
    then show ?thesis by (rule less_mult_imp_div_less)
  qed
  moreover have "V128 hi lo mod unat y < unat y" using assms by (intro mod_less_divisor) linarith
  then have "V128 hi lo mod unat y < 2 ^ 64" using unat_less64 [of y] by (rule less_trans)
  ultimately show ?thesis using that unat_of_nat64 by metis
qed

lemma LeadingZeros64_val:
  assumes "x \<noteq> 0"
  shows "LeadingZeros64 x \<le> 63" "2 ^ (63 - LeadingZeros64 x) \<le> unat x" "unat x < 2 ^ (64 - LeadingZeros64 x)"
proof -
  define b where "b = bitlen (uint x)"
  have pos: "0 < uint x" using assms uint_0_iff [of x] uint_range64(1) [of x] by linarith
  have b64: "b \<le> 64" unfolding b_def bitlen_le_iff_power using uint_range64 [of x] by simp
  have b1: "1 \<le> b" unfolding b_def bitlen_ge_iff_power using pos by simp
  have bd: "2 ^ nat (b - 1) \<le> uint x" "uint x < 2 ^ nat b" using bitlen_bounds [OF pos] by (simp_all add: b_def)
  have z: "LeadingZeros64 x = nat (64 - b)" by (simp add: LeadingZeros64_def b_def)
  then show "LeadingZeros64 x \<le> 63" using b1 by simp
  have e: "63 - LeadingZeros64 x = nat (b - 1)" "64 - LeadingZeros64 x = nat b" using z b1 b64 by auto
  have "int (2 ^ nat (b - 1)) \<le> int (unat x)" "int (unat x) < int (2 ^ nat b)" using bd by simp_all
  then show "2 ^ (63 - LeadingZeros64 x) \<le> unat x" "unat x < 2 ^ (64 - LeadingZeros64 x)"
    unfolding e by (simp_all only: of_nat_le_iff of_nat_less_iff)
qed

lemma divMag_narrow:
  assumes "dLo \<noteq> 0"
  obtains q h l r where "divMag nHi nLo 0 dLo = Some (q, h, 0, r)"
    "V128 q h = V128 nHi nLo div unat dLo" "unat r = V128 nHi nLo mod unat dLo"
proof (cases "nHi < dLo")
  case True
  then obtain q r where "Div64 nHi nLo dLo = Some (q, r)" "unat q = V128 nHi nLo div unat dLo" "unat r = V128 nHi nLo mod unat dLo"
    using Div64_val [of nHi dLo nLo] by (auto simp: word_less_nat_alt)
  then show ?thesis using that [of 0 q r] True by (simp add: divMag_def V128_def)
next
  case False
  have d: "0 < unat dLo" using assms by (simp add: unat_gt_0)
  obtain h r1 where 1: "Div64 0 nHi dLo = Some (h, r1)" "unat h = unat nHi div unat dLo" "unat r1 = unat nHi mod unat dLo"
    using Div64_val [of 0 dLo nHi] d by (auto simp: V128_def)
  obtain l r2 where 2: "Div64 r1 nLo dLo = Some (l, r2)" "unat l = V128 r1 nLo div unat dLo" "unat r2 = V128 r1 nLo mod unat dLo"
    using Div64_val [of r1 dLo nLo] d 1(3) by auto
  have N: "V128 nHi nLo = V128 r1 nLo + unat dLo * (unat h * 2 ^ 64)"
  proof -
    have "unat nHi = unat h * unat dLo + unat r1" unfolding 1 by simp
    then show ?thesis by (simp add: V128_def algebra_simps)
  qed
  have "V128 h l = V128 nHi nLo div unat dLo" unfolding N using d 2(2) by (simp add: V128_def)
  moreover have "unat r2 = V128 nHi nLo mod unat dLo" unfolding N using 2(3) by simp
  ultimately show ?thesis using that [of h l r2] False 1 2 by (simp add: divMag_def)
qed

lemma unat_or_ge: "unat x \<le> unat (x OR y)" for x y :: u64
proof -
  have "uint x \<le> uint x OR uint y" by (rule or_greater_eq) simp
  then have "uint x \<le> uint (x OR y)" by (simp only: unsigned_or_eq)
  then show ?thesis by (simp add: word_le_nat_alt [symmetric] word_le_def)
qed

lemma normalized_in_range:
  fixes n x y :: u64
  assumes "x \<noteq> 0" "LeadingZeros64 x \<noteq> 0"
  shows "unat (drop_bit (64 - LeadingZeros64 x) n) < unat (push_bit (LeadingZeros64 x) x OR y)"
proof -
  define k where "k = LeadingZeros64 x"
  note z = LeadingZeros64_val [OF assms(1), folded k_def]
  have "unat x * 2 ^ k < 2 ^ (64 - k) * 2 ^ k" using z(3) by (intro mult_strict_right_mono) simp_all
  also have "(2 :: nat) ^ (64 - k) * 2 ^ k = 2 ^ 64" unfolding power_add [symmetric] using z(1) by simp
  finally have "unat x * 2 ^ k < 2 ^ 64" .
  then have p: "unat (push_bit k x) = unat x * 2 ^ k"
    by (simp only: unsigned_push_bit_eq) (simp add: push_bit_eq_mult take_bit_nat_eq_self)
  have "(2 :: nat) ^ (63 - k) * 2 ^ k \<le> unat x * 2 ^ k" using z(2) by (intro mult_le_mono1)
  also have "(2 :: nat) ^ (63 - k) * 2 ^ k = 2 ^ 63" unfolding power_add [symmetric] using z(1) by simp
  finally have v: "2 ^ 63 \<le> unat (push_bit k x OR y)" unfolding p [symmetric] using unat_or_ge le_trans by blast
  have "unat (drop_bit (64 - k) n) = unat n div 2 ^ (64 - k)" 
    by (simp only: unsigned_drop_bit_eq) (simp add: drop_bit_eq_div take_bit_nat_eq_self unat_less64_num)
  moreover have "unat n < 2 ^ k * 2 ^ (64 - k)" unfolding power_add [symmetric] using z(1) unat_less64 [of n] by simp
  then have "unat n div 2 ^ (64 - k) < 2 ^ k" by (rule less_mult_imp_div_less)
  moreover have "(2 :: nat) ^ k \<le> 2 ^ 63" using z(1) by (intro power_increasing) simp_all
  ultimately show ?thesis using v unfolding k_def [symmetric] by linarith
qed

lemma divMag_wide:
  assumes "dHi \<noteq> 0"
  obtains q rHi rLo where "divMag nHi nLo dHi dLo = Some (0, q, rHi, rLo)"
    "unat q = V128 nHi nLo div V128 dHi dLo" "V128 rHi rLo = V128 nHi nLo mod V128 dHi dLo"
proof -
  let ?N = "V128 nHi nLo" and ?D = "V128 dHi dLo" and ?sh = "LeadingZeros64 dHi"
  have d1: "1 \<le> unat dHi" using assms unat_eq_zero [of dHi] by linarith
  then have D64: "2 ^ 64 \<le> ?D" unfolding V128_num pow_num_nat by linarith
  consider "?N < ?D" | "?D \<le> ?N" "?sh = 0" | "?D \<le> ?N" "?sh \<noteq> 0" by linarith
  then show ?thesis
  proof cases
    case 1
    then show ?thesis using that [of 0 nHi nLo] assms by (simp add: divMag_def cmpMag_val)
  next
    case 2
    obtain h l where s: "subMag nHi nLo dHi dLo = (h, l)" by fastforce
    have "2 ^ 63 \<le> unat dHi" using LeadingZeros64_val(2) [OF assms] 2 by simp
    then have "?N < 2 * ?D" unfolding pow_num_nat using V128_less_num [of nHi nLo] V128_num [of dHi dLo] by linarith
    then have "?N div ?D = 1" "?N mod ?D = ?N - ?D" using 2 by (auto simp: le_div_geq le_mod_geq)
    then show ?thesis using that [of 1 h l] 2 assms s subMag_val [OF s] by (simp add: divMag_def cmpMag_val)
  next
    case 3
    have d0: "0 < ?D" using D64 by simp
    obtain qhat r where q: "Div64 (drop_bit (64 - ?sh) nHi) (push_bit ?sh nHi OR drop_bit (64 - ?sh) nLo)
        (push_bit ?sh dHi OR drop_bit (64 - ?sh) dLo) = Some (qhat, r)"
      using Div64_val [OF normalized_in_range [OF assms 3(2)]] by metis
    obtain rh rl where c: "correct_loop qhat nHi nLo dHi dLo = Some (of_nat (?N div ?D), rh, rl)" "V128 rh rl = ?N mod ?D"
      using correct_loop_val [OF d0] by blast
    have "?N < 2 ^ 64 * ?D" using V128_less_num [of nHi nLo] D64 unfolding pow_num_nat by linarith
    then have "?N div ?D < 2 ^ 64" by (rule less_mult_imp_div_less)
    then have "unat (of_nat (?N div ?D) :: u64) = ?N div ?D" by (rule unat_of_nat64)
    moreover have "divMag nHi nLo dHi dLo = Some (0, of_nat (?N div ?D), rh, rl)"
      using 3 assms q c by (simp add: divMag_def cmpMag_val Let_def)
    ultimately show ?thesis using that c(2) by blast
  qed
qed

lemma divMag_val:
  assumes "V128 dHi dLo \<noteq> 0"
  obtains qHi qLo rHi rLo where "divMag nHi nLo dHi dLo = Some (qHi, qLo, rHi, rLo)"
    "V128 qHi qLo = V128 nHi nLo div V128 dHi dLo" "V128 rHi rLo = V128 nHi nLo mod V128 dHi dLo"
proof (cases "dHi = 0")
  case True
  then have "dLo \<noteq> 0" "V128 dHi dLo = unat dLo" using assms by (auto simp: V128_def)
  then show ?thesis using that divMag_narrow [of dLo nHi nLo] True by (metis (no_types) V128_def add_0 mult_0 unat_0)
next
  case False
  have "V128 0 q = unat q" for q by (simp add: V128_def)
  then show ?thesis using that divMag_wide [OF False, of nHi nLo dLo] by metis
qed

lemma sum_no_wrap: "unat x + unat y < 2 ^ 64 \<Longrightarrow> unat (x + y) = unat x + unat y" for x y :: u64
  by (simp add: unat_word_ariths)

lemma mulMag256_val:
  assumes "mulMag256 aHi aLo bHi bLo = (r3, r2, r1, r0)"
  shows "V128 r3 r2 * 2 ^ 128 + V128 r1 r0 = V128 aHi aLo * V128 bHi bLo"
proof -
  obtain h00 l00 where m00: "mul64 aLo bLo = (h00, l00)" by fastforce
  obtain h01 l01 where m01: "mul64 aLo bHi = (h01, l01)" by fastforce
  obtain h10 l10 where m10: "mul64 aHi bLo = (h10, l10)" by fastforce
  obtain h11 l11 where m11: "mul64 aHi bHi = (h11, l11)" by fastforce
  obtain s1 c1 where a1: "add64c h00 l01 0 = (s1, c1)" by fastforce
  obtain t1 c2 where a2: "add64c s1 l10 0 = (t1, c2)" by fastforce
  obtain s2 d1 where a3: "add64c h01 h10 0 = (s2, d1)" by fastforce
  obtain t2 d2 where a4: "add64c s2 l11 0 = (t2, d2)" by fastforce
  obtain u2 d3 where a5: "add64c t2 (c1 + c2) 0 = (u2, d3)" by fastforce
  have r: "r0 = l00" "r1 = t1" "r2 = u2" "r3 = h11 + (d1 + d2 + d3)"
    using assms m00 m01 m10 m11 a1 a2 a3 a4 a5 by (simp_all add: mulMag256_def Let_def)
  note mul = mul64_val [OF m00] mul64_val [OF m01] mul64_val [OF m10] mul64_val [OF m11]
  have z: "unat (0 :: u64) \<le> 1" by simp
  note ad = add64c_num [OF a1 z] add64c_num [OF a2 z] add64c_num [OF a3 z] add64c_num [OF a4 z] add64c_num [OF a5 z]
  have c12: "unat (c1 + c2) = unat c1 + unat c2" by (rule sum_no_wrap) (use ad in \<open>simp add: pow_num_nat\<close>)
  have d12: "unat (d1 + d2) = unat d1 + unat d2" by (rule sum_no_wrap) (use ad in \<open>simp add: pow_num_nat\<close>)
  have d123: "unat (d1 + d2 + d3) = unat d1 + unat d2 + unat d3"
    unfolding d12 [symmetric] by (rule sum_no_wrap) (use ad d12 in \<open>simp add: pow_num_nat\<close>)
  define T where "T = unat h11 + unat (d1 + d2 + d3)"
  have "V128 aHi aLo * V128 bHi bLo = unat aHi * unat bHi * 2 ^ 128 + unat aHi * unat bLo * 2 ^ 64 +
      unat aLo * unat bHi * 2 ^ 64 + unat aLo * unat bLo" by (simp add: V128_def algebra_simps)
  then have P: "V128 aHi aLo * V128 bHi bLo =
      T * 6277101735386680763835789423207666416102355444464034512896 + unat r2 * 340282366920938463463374607431768211456 +
      unat r1 * 18446744073709551616 + unat r0"
    using mul ad T_def unfolding pow_num_nat c12 d123 r unat_0 by linarith
  have "V128 aHi aLo * V128 bHi bLo < 2 ^ 128 * 2 ^ 128" by (intro mult_strict_mono V128_less) simp_all
  then have "T < 2 ^ 64" using P by simp
  then have "unat r3 = T" unfolding r T_def by (rule sum_no_wrap)
  then show ?thesis using P unfolding V128_num pow_num_nat by simp
qed

section \<open>Signed results\<close>

text \<open>The carrier of an integer in range, and the pair the operations report.\<close>

definition fits128 :: "int \<Rightarrow> bool" where "fits128 k = (- (2 ^ 127) \<le> k \<and> k < 2 ^ 127)"

definition int128_of :: "int \<Rightarrow> int128" where
  "int128_of k = \<lparr>Hi = word_of_int (k div 2 ^ 64), Lo = word_of_int k\<rparr>"

definition narrow :: "int \<Rightarrow> int128 \<times> bool" where
  "narrow k = (if fits128 k then (int128_of k, True) else (\<lparr>Hi = 0, Lo = 0\<rparr>, False))"

lemma fits_val [simp]: "fits128 (val128 d)"
  using val128_range [of d] by (simp add: fits128_def)

lemma int128_of_val [simp]: "fits128 k \<Longrightarrow> val128 (int128_of k) = k"
proof -
  assume "fits128 k"
  then have "- (2 ^ 63) \<le> k div 2 ^ 64" "k div 2 ^ 64 < 2 ^ 63"
    using div_mult_mod_eq [of k "2 ^ 64"] pos_mod_sign [of "2 ^ 64" k] pos_mod_bound [of "2 ^ 64" k]
    unfolding fits128_def pow_num by linarith+
  then show "val128 (int128_of k) = k" by (simp add: val128_def int128_of_def sint_wrap uint_word_of_int)
qed

lemma val128_eqI: "val128 d = k \<Longrightarrow> d = int128_of k"
  using int128_of_val [of k] fits_val [of d] val128_inject by metis

lemma int128_of_inverse [simp]: "int128_of (val128 d) = d"
  using val128_eqI by metis

lemma val128_zero [simp]: "val128 \<lparr>Hi = 0, Lo = 0\<rparr> = 0"
  by (simp add: val128_def)

lemma Int128Min_val: "val128 Int128Min = - (2 ^ 127)"
  by (simp add: val128_def Int128Min_def)

lemma Equal_val: "Equal d e \<longleftrightarrow> val128 d = val128 e"
  unfolding val128_inject by (auto simp: Equal_def)

lemma top_bit_V: "sint h < 0 \<longleftrightarrow> 2 ^ 127 \<le> V128 h l"
proof -
  let ?d = "\<lparr>Hi = h, Lo = l\<rparr>"
  have "int (V128 h l) = (if val128 ?d < 0 then val128 ?d + 2 ^ 128 else val128 ?d)" using V128_int [of ?d] by simp
  then have "val128 ?d < 0 \<longleftrightarrow> 2 ^ 127 \<le> int (V128 h l)" using val128_range [of ?d] by (simp add: pow_num split: if_splits)
  then show ?thesis using sign_val [of ?d] by simp
qed

lemma sign_mag:
  assumes "V128 h l < 2 ^ 127 \<or> (neg \<and> V128 h l = 2 ^ 127)"
  shows "(if neg then Neg \<lparr>Hi = h, Lo = l\<rparr> else \<lparr>Hi = h, Lo = l\<rparr>) = int128_of (if neg then - int (V128 h l) else int (V128 h l))"
proof -
  let ?d = "\<lparr>Hi = h, Lo = l\<rparr>"
  have v: "int (V128 h l) = (if val128 ?d < 0 then val128 ?d + 2 ^ 128 else val128 ?d)" using V128_int [of ?d] by simp
  have bd: "- (2 ^ 127) \<le> val128 ?d" "val128 ?d < 2 ^ 127" by (rule val128_range)+
  have "int (V128 h l) < 2 ^ 127 \<or> (neg \<and> int (V128 h l) = 2 ^ 127)" using assms unfolding pow_num pow_num_nat by linarith
  then have "val128 ?d = int (V128 h l) \<or> (neg \<and> val128 ?d = - (2 ^ 127) \<and> int (V128 h l) = 2 ^ 127)"
    using v bd by (simp add: pow_num split: if_splits)
  then have "val128 (if neg then Neg ?d else ?d) = (if neg then - int (V128 h l) else int (V128 h l))"
    by (auto simp: Neg_val)
  then show ?thesis by (rule val128_eqI)
qed

lemma Sub_val: "val128 (Sub d e) = (let x = val128 d - val128 e in if x < - (2 ^ 127) then x + 2 ^ 128 else if x < 2 ^ 127 then x else x - 2 ^ 128)"
  using val128_range [of d] val128_range [of e] unfolding Sub_def Add_val Neg_val Let_def pow_num by (auto split: if_splits)

lemma SubChecked_val:
  "snd (SubChecked d e) = fits128 (val128 d - val128 e)"
  "fits128 (val128 d - val128 e) \<Longrightarrow> fst (SubChecked d e) = int128_of (val128 d - val128 e)"
proof -
  show "snd (SubChecked d e) = fits128 (val128 d - val128 e)"
    using val128_range [of d] val128_range [of e] unfolding SubChecked_def Let_def sign_val Sub_val fits128_def pow_num
    by (auto split: if_splits)
  have "fst (SubChecked d e) = Sub d e" by (simp add: SubChecked_def Let_def)
  then show "fits128 (val128 d - val128 e) \<Longrightarrow> fst (SubChecked d e) = int128_of (val128 d - val128 e)"
    by (auto simp: Sub_val fits128_def Let_def intro: val128_eqI)
qed

lemma AddChecked_fits:
  "snd (AddChecked d e) = fits128 (val128 d + val128 e)"
  "fits128 (val128 d + val128 e) \<Longrightarrow> fst (AddChecked d e) = int128_of (val128 d + val128 e)"
  using AddChecked_val [of d e] by (auto simp: fits128_def intro: val128_eqI)

text \<open>A magnitude below 2^128 and a sign, narrowed the way \<^verbatim>\<open>Mul\<close> and \<^verbatim>\<open>mulRescale256\<close> do.\<close>

lemma sign_narrow:
  "(if h AND push_bit 63 1 \<noteq> 0
    then if \<not> neg \<or> h \<noteq> push_bit 63 1 \<or> l \<noteq> 0 then (\<lparr>Hi = 0, Lo = 0\<rparr>, False) else (Int128Min, True)
    else (if neg then Neg \<lparr>Hi = h, Lo = l\<rparr> else \<lparr>Hi = h, Lo = l\<rparr>, True)) =
   narrow (if neg then - int (V128 h l) else int (V128 h l))"
proof (cases "2 ^ 127 \<le> V128 h l")
  case True
  have "V128 (push_bit 63 1) 0 = 2 ^ 127" by (simp add: V128_def)
  then have m: "h = push_bit 63 1 \<and> l = 0 \<longleftrightarrow> V128 h l = 2 ^ 127" using V128_inject by metis
  have "Int128Min = int128_of (- (2 ^ 127))" by (rule val128_eqI) (rule Int128Min_val)
  moreover have "fits128 (if neg then - int (V128 h l) else int (V128 h l)) \<longleftrightarrow> neg \<and> V128 h l = 2 ^ 127"
    using True unfolding fits128_def pow_num pow_num_nat by auto
  ultimately show ?thesis using True m unfolding top_bit64 top_bit_V [of h l] narrow_def by auto
next
  case False
  then have "fits128 (if neg then - int (V128 h l) else int (V128 h l))" unfolding fits128_def pow_num pow_num_nat by auto
  then show ?thesis using False sign_mag [of h l neg] unfolding top_bit64 top_bit_V [of h l] narrow_def by simp
qed

lemma signed_product: "(if (a < 0) \<noteq> (b < 0) then - (\<bar>a\<bar> * \<bar>b\<bar>) else \<bar>a\<bar> * \<bar>b\<bar>) = a * b" for a b :: int
  by (auto simp: abs_if)

lemma Mul_val: "Mul d e = narrow (val128 d * val128 e)"
proof -
  obtain aHi aLo aNeg where a: "magnitude d = (aHi, aLo, aNeg)" using prod_cases3 by blast
  obtain bHi bLo bNeg where b: "magnitude e = (bHi, bLo, bNeg)" using prod_cases3 by blast
  obtain r3 r2 r1 r0 where r: "mulMag256 aHi aLo bHi bLo = (r3, r2, r1, r0)" using prod_cases4 by blast
  let ?neg = "aNeg \<noteq> bNeg"
  have "int (V128 r3 r2 * 2 ^ 128 + V128 r1 r0) = int (V128 aHi aLo * V128 bHi bLo)" using mulMag256_val [OF r] by (simp only:)
  then have p: "int (V128 r3 r2) * 2 ^ 128 + int (V128 r1 r0) = \<bar>val128 d\<bar> * \<bar>val128 e\<bar>"
    using magnitude_val [OF a] magnitude_val [OF b] by simp
  have neg: "?neg \<longleftrightarrow> (val128 d < 0) \<noteq> (val128 e < 0)" using magnitude_val [OF a] magnitude_val [OF b] by simp
  show ?thesis
  proof (cases "r3 = 0 \<and> r2 = 0")
    case True
    then have "V128 r3 r2 = 0" by (simp add: V128_def)
    then have "int (V128 r1 r0) = \<bar>val128 d\<bar> * \<bar>val128 e\<bar>" using p by simp
    then have "(if ?neg then - int (V128 r1 r0) else int (V128 r1 r0)) = val128 d * val128 e"
      by (simp only: neg signed_product)
    moreover have "Mul d e = narrow (if ?neg then - int (V128 r1 r0) else int (V128 r1 r0))"
      unfolding sign_narrow [symmetric] using True a b r by (simp add: Mul_def Let_def)
    ultimately show ?thesis by simp
  next
    case False
    then have "V128 r3 r2 \<noteq> 0" using V128_inject [of r3 r2 0 0] by (auto simp: V128_def)
    then have "2 ^ 128 \<le> \<bar>val128 d\<bar> * \<bar>val128 e\<bar>" using p unfolding pow_num by linarith
    then have "2 ^ 128 \<le> \<bar>val128 d * val128 e\<bar>" by (simp add: abs_mult)
    then have "\<not> fits128 (val128 d * val128 e)" unfolding fits128_def pow_num by linarith
    then show ?thesis using False a b r by (auto simp: Mul_def narrow_def Let_def)
  qed
qed

lemma QuoRem_val:
  assumes "val128 e \<noteq> 0" "\<not> (val128 d = - (2 ^ 127) \<and> val128 e = - 1)"
  shows "QuoRem d e = Some (int128_of (val128 d sdiv val128 e), int128_of (val128 d smod val128 e), True)"
proof -
  obtain aHi aLo aNeg where a: "magnitude d = (aHi, aLo, aNeg)" using prod_cases3 by blast
  obtain bHi bLo bNeg where b: "magnitude e = (bHi, bLo, bNeg)" using prod_cases3 by blast
  let ?a = "val128 d" and ?b = "val128 e"
  note ma = magnitude_val [OF a] and mb = magnitude_val [OF b]
  have "V128 bHi bLo \<noteq> 0" using mb(1) assms(1) by auto
  then obtain qHi qLo rHi rLo where dm: "divMag aHi aLo bHi bLo = Some (qHi, qLo, rHi, rLo)"
    and q: "V128 qHi qLo = V128 aHi aLo div V128 bHi bLo" and r: "V128 rHi rLo = V128 aHi aLo mod V128 bHi bLo"
    by (rule divMag_val)
  have qi: "int (V128 qHi qLo) = \<bar>?a\<bar> div \<bar>?b\<bar>" unfolding q by (simp add: zdiv_int ma mb)
  have ri: "int (V128 rHi rLo) = \<bar>?a\<bar> mod \<bar>?b\<bar>" unfolding r by (simp add: zmod_int ma mb)
  have bd: "\<bar>?a\<bar> \<le> 2 ^ 127" "\<bar>?b\<bar> \<le> 2 ^ 127" using val128_range [of d] val128_range [of e] unfolding pow_num by linarith+
  have "int (V128 rHi rLo) < \<bar>?b\<bar>" unfolding ri using assms(1) by simp
  then have rb: "V128 rHi rLo < 2 ^ 127" using bd unfolding pow_num pow_num_nat by linarith
  have qb: "V128 qHi qLo < 2 ^ 127 \<or> (aNeg \<noteq> bNeg \<and> V128 qHi qLo = 2 ^ 127)"
  proof (cases "\<bar>?b\<bar> = 1")
    case True
    then have "int (V128 qHi qLo) = \<bar>?a\<bar>" using qi by simp
    then have "V128 qHi qLo < 2 ^ 127 \<or> (V128 qHi qLo = 2 ^ 127 \<and> \<bar>?a\<bar> = 2 ^ 127)"
      using bd unfolding pow_num pow_num_nat by linarith
    moreover have "aNeg \<noteq> bNeg" if "\<bar>?a\<bar> = 2 ^ 127"
      using that True assms(2) val128_range [of d] unfolding ma(2) mb(2) pow_num by linarith
    ultimately show ?thesis by blast
  next
    case False
    then have "2 \<le> \<bar>?b\<bar>" using assms(1) by linarith
    then have "\<bar>?a\<bar> div \<bar>?b\<bar> \<le> \<bar>?a\<bar> div 2" by (intro zdiv_mono2) simp_all
    then have "V128 qHi qLo < 2 ^ 127" using qi bd unfolding pow_num pow_num_nat by linarith
    then show ?thesis ..
  qed
  have z: "\<not> IsZero e" using assms(1) by (simp add: IsZero_val)
  have n: "\<not> (Equal d Int128Min \<and> Equal e (Int128From (- 1)))"
    using assms(2) Int128Min_val Int128From_val [of "- 1"] by (auto simp: Equal_val)
  have "?a sdiv ?b = (if aNeg \<noteq> bNeg then - int (V128 qHi qLo) else int (V128 qHi qLo))"
    unfolding qi ma(2) mb(2) signed_divide_int_def using assms(1) by (auto simp: sgn_if)
  moreover have "?a smod ?b = (if aNeg then - int (V128 rHi rLo) else int (V128 rHi rLo))"
    unfolding ri ma(2) signed_modulo_int_def by (auto simp: sgn_if)
  ultimately show ?thesis
    using z n a b dm sign_mag [OF qb] sign_mag [of rHi rLo aNeg] rb by (simp add: QuoRem_def Let_def)
qed

section \<open>Properties\<close>

text \<open>
  C19: The 128-bit carrier multiplies and divides exactly. For all inputs Mul returns the product when it fits
  and refuses otherwise, and QuoRem returns (neither a 64-bit division panics nor a correction loop runs on) the
  quotient truncated toward zero and the remainder with the dividend's sign, refusing exactly a zero divisor and
  the one quotient, -2^127 by -1, that has no carrier.
\<close>

theorem int128_mul_div_exact:
  "Mul d e = (if - (2 ^ 127) \<le> val128 d * val128 e \<and> val128 d * val128 e < 2 ^ 127
     then (int128_of (val128 d * val128 e), True) else (\<lparr>Hi = 0, Lo = 0\<rparr>, False)) \<and>
   QuoRem d e = Some (if val128 e = 0 \<or> val128 d = - (2 ^ 127) \<and> val128 e = - 1
     then (\<lparr>Hi = 0, Lo = 0\<rparr>, \<lparr>Hi = 0, Lo = 0\<rparr>, False)
     else (int128_of (val128 d sdiv val128 e), int128_of (val128 d smod val128 e), True))"
proof -
  have "QuoRem d e = Some (\<lparr>Hi = 0, Lo = 0\<rparr>, \<lparr>Hi = 0, Lo = 0\<rparr>, False)"
    if "val128 e = 0 \<or> val128 d = - (2 ^ 127) \<and> val128 e = - 1"
    using that Int128Min_val Int128From_val [of "- 1"] by (auto simp: QuoRem_def IsZero_val Equal_val)
  then show ?thesis using Mul_val [of d e] QuoRem_val [of e d] by (auto simp: narrow_def fits128_def)
qed

end
