(* ===== verification/Dec_Arith.thy ===== *)
theory Dec_Arith
  imports Dec_Wide Complex_Main "HOL-Library.Monad_Syntax"
begin

text \<open>
  Exact DECIMAL arithmetic (\<^verbatim>\<open>internal/engine/batch/decimal_arith.go\<close> and the averages of \<^verbatim>\<open>decimal.go\<close>): rescaling,
  addition, subtraction, multiplication, division and remainder of two carriers at their own scales into a result
  scale, each with its 128-bit fast path and its wide fallback, the declared-precision wrappers, and the result type
  rule. \<^verbatim>\<open>big.Int\<close> is \<open>int\<close>. The specification is the rational number a carrier denotes, rounded half away from zero
  once; \<open>None\<close> is a panic or a loop that never returns, as in \<^verbatim>\<open>QuoRem\<close>.
\<close>

section \<open>Definitions\<close>

datatype DecimalStatus = DecimalOK | DecimalOverflow | DecimalDivByZero | DecimalInvalidScale

definition status_String :: "DecimalStatus \<Rightarrow> string" where
  "status_String s = (case s of
     DecimalOK \<Rightarrow> ''ok''
   | DecimalOverflow \<Rightarrow> ''numeric value out of range''
   | DecimalDivByZero \<Rightarrow> ''division by zero''
   | DecimalInvalidScale \<Rightarrow> ''invalid scale'')"

abbreviation Zero128 :: int128 where "Zero128 \<equiv> \<lparr>Hi = 0, Lo = 0\<rparr>"

definition MaxDecimalPrecision :: int where "MaxDecimalPrecision = 38"
definition MaxDecimalScale :: int where "MaxDecimalScale = 38"
definition AvgScaleIncrement :: int where "AvgScaleIncrement = 4"

definition BigInt :: "int128 \<Rightarrow> int" where
  "BigInt d = push_bit 64 (sint (Hi d)) + uint (Lo d)"

definition fitsInt128 :: "int \<Rightarrow> bool" where
  "fitsInt128 b = (bitlen \<bar>b\<bar> < 128 \<or> (b < 0 \<and> bitlen \<bar>b\<bar> = 128 \<and> \<bar>b\<bar> = push_bit 127 1))"

definition int128FromBig :: "int \<Rightarrow> int128" where
  "int128FromBig b =
     (if \<not> fitsInt128 b then (if b < 0 then Int128Min else Int128Max)
      else let neg = b < 0; mag = \<bar>b\<bar>;
               lo = word_of_int (mag AND uint (NOT 0 :: u64)); hi = word_of_int (drop_bit 64 mag);
               out = \<lparr>Hi = hi, Lo = lo\<rparr>
           in if neg then Neg out else out)"

definition narrowInt128 :: "int \<Rightarrow> int128 \<times> bool" where
  "narrowInt128 b = (if \<not> fitsInt128 b then (Zero128, False) else (int128FromBig b, True))"

definition bigPow10 :: "int \<Rightarrow> int" where
  "bigPow10 n = (let n = (if n < 0 then 0 else n) in 10 ^ nat n)"

definition bigDivRound :: "int \<Rightarrow> int \<Rightarrow> int128 \<times> bool" where
  "bigDivRound num den =
     (if den = 0 then (Zero128, False)
      else let q = num sdiv den; r = num smod den;
               q = (if r \<noteq> 0 then
                      (let r = push_bit 1 \<bar>r\<bar> in
                       if \<bar>r\<bar> \<ge> \<bar>den\<bar> then (if (num < 0) \<noteq> (den < 0) then q - 1 else q + 1) else q)
                    else q)
           in narrowInt128 q)"

definition bigRescale :: "int \<Rightarrow> int \<Rightarrow> int \<Rightarrow> int128 \<times> bool" where
  "bigRescale n fromScale toScale =
     (if toScale \<ge> fromScale then narrowInt128 (n * bigPow10 (toScale - fromScale))
      else bigDivRound n (bigPow10 (fromScale - toScale)))"

definition decStatus :: "int128 \<times> bool \<Rightarrow> int128 \<times> DecimalStatus" where
  "decStatus r = (case r of (v, ok) \<Rightarrow> if \<not> ok then (Zero128, DecimalOverflow) else (v, DecimalOK))"

text \<open>The table of powers of ten the package initialiser builds; \<open>None\<close> is its panic.\<close>

fun pow10Int128 :: "nat \<Rightarrow> int128 option" where
  "pow10Int128 0 = Some (Int128From 1)"
| "pow10Int128 (Suc i) =
     (case pow10Int128 i of
        None \<Rightarrow> None
      | Some v \<Rightarrow> (case MulPow10 1 v of (nxt, ok) \<Rightarrow> if \<not> ok then None else Some nxt))"

definition DecimalPow10 :: "int \<Rightarrow> (int128 \<times> bool) option" where
  "DecimalPow10 n = (if n < 0 \<or> n > MaxDecimalPrecision then Some (Zero128, False)
                     else map_option (\<lambda>v. (v, True)) (pow10Int128 (nat n)))"

definition absInt128 :: "int128 \<Rightarrow> int128 \<times> bool" where
  "absInt128 v = (if \<not> IsNegative v then (v, True)
                  else let m = Neg v in if IsNegative m then (Zero128, False) else (m, True))"

definition DecimalFitsPrecision :: "int128 \<Rightarrow> int \<Rightarrow> bool option" where
  "DecimalFitsPrecision v p = do {
     (limit, ok) \<leftarrow> DecimalPow10 p;
     if \<not> ok \<or> p \<le> 0 then Some True
     else let (mag, ok) = absInt128 v in if \<not> ok then Some False else Some (Cmp mag limit < 0) }"

definition Rescale :: "int128 \<Rightarrow> int \<Rightarrow> int \<Rightarrow> (int128 \<times> bool) option" where
  "Rescale v fromScale toScale =
     (if fromScale < 0 \<or> toScale < 0 then Some (Zero128, False)
      else if toScale = fromScale then Some (v, True)
      else if toScale > fromScale then Some (MulPow10 (toScale - fromScale) v)
      else let drp = fromScale - toScale in
        if drp > MaxDecimalPrecision then Some (Zero128, True)
        else do {
          dv \<leftarrow> pow10Int128 (nat drp);
          (q, r, ok) \<leftarrow> QuoRem v dv;
          if \<not> ok then Some (Zero128, False)
          else if IsZero r then Some (q, True)
          else let (mag, ok) = absInt128 r in
            if \<not> ok then Some (Zero128, False)
            else if Cmp mag (Sub dv mag) \<ge> 0 then
              (let step = Int128From 1; step = (if IsNegative v then Neg step else step)
               in Some (AddChecked q step))
            else Some (q, True) })"

definition decAddSub :: "int128 \<Rightarrow> int \<Rightarrow> int128 \<Rightarrow> int \<Rightarrow> int \<Rightarrow> bool \<Rightarrow> (int128 \<times> DecimalStatus) option" where
  "decAddSub a aScale b bScale outScale sub =
     (if aScale < 0 \<or> bScale < 0 \<or> outScale < 0 then Some (Zero128, DecimalInvalidScale)
      else do {
        let common = max aScale bScale;
        (x, okA) \<leftarrow> Rescale a aScale common;
        (y, okB) \<leftarrow> Rescale b bScale common;
        let (sm, ok) = (if okA \<and> okB then (if sub then SubChecked x y else AddChecked x y) else (Zero128, False));
        if ok then do {
          (out, ok) \<leftarrow> Rescale sm common outScale;
          if ok then Some (out, DecimalOK) else Some (Zero128, DecimalOverflow) }
        else
          let n = BigInt a * bigPow10 (common - aScale); m = BigInt b * bigPow10 (common - bScale);
              n = (if sub then n - m else n + m)
          in Some (decStatus (bigRescale n common outScale)) })"

definition DecimalAdd :: "int128 \<Rightarrow> int \<Rightarrow> int128 \<Rightarrow> int \<Rightarrow> int \<Rightarrow> (int128 \<times> DecimalStatus) option" where
  "DecimalAdd a aScale b bScale outScale = decAddSub a aScale b bScale outScale False"

definition DecimalSub :: "int128 \<Rightarrow> int \<Rightarrow> int128 \<Rightarrow> int \<Rightarrow> int \<Rightarrow> (int128 \<times> DecimalStatus) option" where
  "DecimalSub a aScale b bScale outScale = decAddSub a aScale b bScale outScale True"

definition mulRescale256 :: "int128 \<Rightarrow> int128 \<Rightarrow> nat \<Rightarrow> (int128 \<times> bool) option" where
  "mulRescale256 a b drp =
     (let (aHi, aLo, aNeg) = magnitude a; (bHi, bLo, bNeg) = magnitude b; neg = (aNeg \<noteq> bNeg);
          (r3, r2, r1, r0) = mulMag256 aHi aLo bHi bLo; d = pow10u64 drp
      in do {
        (q0, rem) \<leftarrow> Div64 0 r3 d;
        (q1, rem) \<leftarrow> Div64 rem r2 d;
        (q2, rem) \<leftarrow> Div64 rem r1 d;
        (q3, rem) \<leftarrow> Div64 rem r0 d;
        if q0 \<noteq> 0 \<or> q1 \<noteq> 0 then Some (Zero128, False)
        else
          let (hi, lo, carry) =
                (if rem \<ge> d - rem then
                   (let (lo, carry) = add64c q3 1 0; (hi, carry) = add64c q2 0 carry in (hi, lo, carry))
                 else (q2, q3, 0))
          in if carry \<noteq> 0 then Some (Zero128, False)
             else Some
               (if hi AND push_bit 63 1 \<noteq> 0
                then if \<not> neg \<or> hi \<noteq> push_bit 63 1 \<or> lo \<noteq> 0 then (Zero128, False) else (Int128Min, True)
                else let res = \<lparr>Hi = hi, Lo = lo\<rparr> in (if neg then Neg res else res, True)) })"

definition DecimalMul :: "int128 \<Rightarrow> int \<Rightarrow> int128 \<Rightarrow> int \<Rightarrow> int \<Rightarrow> (int128 \<times> DecimalStatus) option" where
  "DecimalMul a aScale b bScale outScale =
     (if aScale < 0 \<or> bScale < 0 \<or> outScale < 0 then Some (Zero128, DecimalInvalidScale)
      else let (p, ok) = Mul a b in
        if ok then do {
          (out, ok) \<leftarrow> Rescale p (wrap64 (aScale + bScale)) outScale;
          if ok then Some (out, DecimalOK) else Some (Zero128, DecimalOverflow) }
        else let drp = wrap64 (aScale + bScale - outScale) in
          if drp \<ge> 1 \<and> drp \<le> 19 then map_option decStatus (mulRescale256 a b (nat drp))
          else let n = BigInt a * BigInt b in Some (decStatus (bigRescale n (wrap64 (aScale + bScale)) outScale)))"

text \<open>The 128-bit division with rounding of \<^verbatim>\<open>DecimalDiv\<close>, which falls through to the wide result, and that result.\<close>

definition div_fast :: "int128 \<Rightarrow> int128 \<Rightarrow> (int128 \<times> DecimalStatus) option \<Rightarrow> (int128 \<times> DecimalStatus) option" where
  "div_fast num den wide = do {
     (q, r, ok) \<leftarrow> QuoRem num den;
     if ok then
       if IsZero r then Some (q, DecimalOK)
       else let (magR, okR) = absInt128 r; (magD, okD) = absInt128 den in
         if okR \<and> okD then
           if Cmp magR (Sub magD magR) \<ge> 0 then
             (let step = Int128From 1; step = (if IsNegative num \<noteq> IsNegative den then Neg step else step)
              in Some (decStatus (AddChecked q step)))
           else Some (q, DecimalOK)
         else wide
     else wide }"

definition div_wide :: "int128 \<Rightarrow> int128 \<Rightarrow> int \<Rightarrow> int128 \<times> DecimalStatus" where
  "div_wide a b e =
     (let bn = BigInt a; bd = BigInt b;
          (bn, bd) = (if e \<ge> 0 then (bn * bigPow10 e, bd) else (bn, bd * bigPow10 (- e)))
      in decStatus (bigDivRound bn bd))"

definition DecimalDiv :: "int128 \<Rightarrow> int \<Rightarrow> int128 \<Rightarrow> int \<Rightarrow> int \<Rightarrow> (int128 \<times> DecimalStatus) option" where
  "DecimalDiv a aScale b bScale outScale =
     (if aScale < 0 \<or> bScale < 0 \<or> outScale < 0 then Some (Zero128, DecimalInvalidScale)
      else if IsZero b then Some (Zero128, DecimalDivByZero)
      else
        let e = wrap64 (outScale + bScale - aScale);
            (num, den, fast) =
              (if e \<ge> 0 then (let (n, ok) = MulPow10 e a in if ok then (n, b, True) else (a, b, False))
               else (let (d, ok) = MulPow10 (- e) b in if ok then (a, d, True) else (a, b, False)));
            wide = Some (div_wide a b e)
        in if fast \<and> \<not> Equal den Int128Min then div_fast num den wide else wide)"

definition DecimalMod :: "int128 \<Rightarrow> int \<Rightarrow> int128 \<Rightarrow> int \<Rightarrow> int \<Rightarrow> (int128 \<times> DecimalStatus) option" where
  "DecimalMod a aScale b bScale outScale =
     (if aScale < 0 \<or> bScale < 0 \<or> outScale < 0 then Some (Zero128, DecimalInvalidScale)
      else if IsZero b then Some (Zero128, DecimalDivByZero)
      else do {
        let common = max aScale bScale;
        (x, okA) \<leftarrow> Rescale a aScale common;
        (y, okB) \<leftarrow> Rescale b bScale common;
        let wide = (let n = BigInt a * bigPow10 (common - aScale); m = BigInt b * bigPow10 (common - bScale) in
                    if m = 0 then Some (Zero128, DecimalDivByZero)
                    else Some (decStatus (bigRescale (n smod m) common outScale)));
        if okA \<and> okB \<and> \<not> IsZero y then do {
          (q, r, ok) \<leftarrow> QuoRem x y;
          if ok then map_option decStatus (Rescale r common outScale) else wide }
        else wide })"

definition decimalAtPrecision :: "int128 \<times> DecimalStatus \<Rightarrow> int \<Rightarrow> (int128 \<times> DecimalStatus) option" where
  "decimalAtPrecision r p = (case r of (v, st) \<Rightarrow>
     if st \<noteq> DecimalOK then Some (Zero128, st)
     else do { ok \<leftarrow> DecimalFitsPrecision v p; if \<not> ok then Some (Zero128, DecimalOverflow) else Some (v, DecimalOK) })"

definition DecimalAddAt :: "int128 \<Rightarrow> int \<Rightarrow> int128 \<Rightarrow> int \<Rightarrow> int \<Rightarrow> int \<Rightarrow> (int128 \<times> DecimalStatus) option" where
  "DecimalAddAt a aScale b bScale p s = do { r \<leftarrow> DecimalAdd a aScale b bScale s; decimalAtPrecision r p }"
definition DecimalSubAt :: "int128 \<Rightarrow> int \<Rightarrow> int128 \<Rightarrow> int \<Rightarrow> int \<Rightarrow> int \<Rightarrow> (int128 \<times> DecimalStatus) option" where
  "DecimalSubAt a aScale b bScale p s = do { r \<leftarrow> DecimalSub a aScale b bScale s; decimalAtPrecision r p }"
definition DecimalMulAt :: "int128 \<Rightarrow> int \<Rightarrow> int128 \<Rightarrow> int \<Rightarrow> int \<Rightarrow> int \<Rightarrow> (int128 \<times> DecimalStatus) option" where
  "DecimalMulAt a aScale b bScale p s = do { r \<leftarrow> DecimalMul a aScale b bScale s; decimalAtPrecision r p }"
definition DecimalDivAt :: "int128 \<Rightarrow> int \<Rightarrow> int128 \<Rightarrow> int \<Rightarrow> int \<Rightarrow> int \<Rightarrow> (int128 \<times> DecimalStatus) option" where
  "DecimalDivAt a aScale b bScale p s = do { r \<leftarrow> DecimalDiv a aScale b bScale s; decimalAtPrecision r p }"
definition DecimalModAt :: "int128 \<Rightarrow> int \<Rightarrow> int128 \<Rightarrow> int \<Rightarrow> int \<Rightarrow> int \<Rightarrow> (int128 \<times> DecimalStatus) option" where
  "DecimalModAt a aScale b bScale p s = do { r \<leftarrow> DecimalMod a aScale b bScale s; decimalAtPrecision r p }"

text \<open>Averages and the precision limit of \<^verbatim>\<open>decimal.go\<close>. The fast path of \<^verbatim>\<open>DecimalAvg\<close> is 64-bit arithmetic.\<close>

definition AvgScale :: "int \<Rightarrow> int" where
  "AvgScale inScale =
     (let s = wrap64 (inScale + AvgScaleIncrement); s = (if s > MaxDecimalScale then MaxDecimalScale else s)
      in if s < 0 then 0 else s)"

definition avg_fast :: "int128 \<Rightarrow> i64 \<Rightarrow> int128 \<times> bool" where
  "avg_fast scaled count =
     (let n = ToInt64 scaled;
          q = word_of_int (sint n sdiv sint count); rem = (word_of_int (sint n smod sint count) :: i64);
          rem = (if sint rem < 0 then - rem else rem);
          q = (if sint (rem * 2) \<ge> sint count then (if sint n < 0 then q - 1 else q + 1) else q)
      in (Int128From q, True))"

definition avg_wide :: "int128 \<Rightarrow> i64 \<Rightarrow> int \<Rightarrow> int128 \<times> bool" where
  "avg_wide sm count addScale =
     (let num = BigInt sm * 10 ^ nat addScale; den = sint count;
          q = num sdiv den; rem = \<bar>num smod den\<bar>;
          q = (if push_bit 1 rem \<ge> den then (if num < 0 then q - 1 else q + 1) else q)
      in if \<not> fitsInt128 q then (Zero128, False) else (int128FromBig q, True))"

text \<open>The rounding step of the middle path.\<close>

definition avg_middle :: "int128 \<Rightarrow> i64 \<Rightarrow> int128 \<Rightarrow> int128 \<Rightarrow> int128 \<times> bool" where
  "avg_middle scaled count q rem =
     (let den = Int128From count; rem = (if IsNegative rem then Neg rem else rem);
          (twice, ok) = AddChecked rem rem;
          q = (if ok \<and> \<not> Less twice den then
                 (if IsNegative scaled then Sub q (Int128From 1) else Add q (Int128From 1)) else q)
      in (q, True))"

definition DecimalAvg :: "int128 \<Rightarrow> i64 \<Rightarrow> int \<Rightarrow> (int128 \<times> bool) option" where
  "DecimalAvg sm count addScale =
     (if sint count \<le> 0 \<or> addScale < 0 then Some (Zero128, False)
      else let (scaled, ok) = MulPow10 addScale sm in
        if ok \<and> FitsInt64 scaled \<and> sint count < 2 ^ 62 then Some (avg_fast scaled count)
        else if ok \<and> sint count > 0 then do {
          (q, rem, ok) \<leftarrow> QuoRem scaled (Int128From count);
          if ok then Some (avg_middle scaled count q rem)
          else Some (avg_wide sm count addScale) }
        else Some (avg_wide sm count addScale))"

definition DecimalPrecisionLimit :: "int \<Rightarrow> int128 \<times> bool" where
  "DecimalPrecisionLimit precision =
     (if precision \<le> 0 then (Zero128, False)
      else let precision = (if precision > MaxDecimalPrecision then MaxDecimalPrecision else precision)
           in MulPow10 precision (Int128From 1))"

definition DecimalFitsLimit :: "int128 \<Rightarrow> int128 \<Rightarrow> bool" where
  "DecimalFitsLimit v limit =
     (if IsZero limit then True
      else if IsNegative v then
        (let mag = Neg v in if IsNegative mag then False else Cmp mag limit < 0)
      else Cmp v limit < 0)"

text \<open>The result type rule. \<open>op\<close> is the operator text after \<^verbatim>\<open>strings.TrimSpace\<close> and \<^verbatim>\<open>strings.ToLower\<close>.\<close>

definition normalizeDecimalPS :: "int \<Rightarrow> int \<Rightarrow> int \<times> int" where
  "normalizeDecimalPS p s =
     (let s = (if s < 0 then 0 else s); p = (if p < s then s else p); p = (if p < 1 then 1 else p) in (p, s))"

definition AdjustDecimalPrecisionScale :: "int \<Rightarrow> int \<Rightarrow> int \<times> int" where
  "AdjustDecimalPrecisionScale p s =
     (let (p, s) = normalizeDecimalPS p s in
      if p \<le> MaxDecimalPrecision then (p, s)
      else let intDigits = p - s; flr = min s 6; ns = MaxDecimalPrecision - intDigits;
               ns = (if ns < flr then flr else ns); ns = (if ns > MaxDecimalScale then MaxDecimalScale else ns)
           in (MaxDecimalPrecision, ns))"

definition op_type :: "string \<Rightarrow> int \<Rightarrow> int \<Rightarrow> int \<Rightarrow> int \<Rightarrow> (int \<times> int \<times> bool) option" where
  "op_type op p1 s1 p2 s2 =
     (if op = ''+'' \<or> op = ''-'' then let s = max s1 s2 in Some (wrap64 (s + max (p1 - s1) (p2 - s2) + 1), s, True)
      else if op = ''*'' then Some (wrap64 (p1 + p2 + 1), wrap64 (s1 + s2), True)
      else if op = ''/'' then let s = max 6 (wrap64 (s1 + p2 + 1)) in Some (wrap64 (p1 - s1 + s2 + s), s, False)
      else if op = ''%'' \<or> op = ''mod'' then let s = max s1 s2 in Some (wrap64 (min (p1 - s1) (p2 - s2) + s), s, True)
      else None)"

definition DecimalResultType :: "string \<Rightarrow> int \<Rightarrow> int \<Rightarrow> int \<Rightarrow> int \<Rightarrow> int \<times> int \<times> bool" where
  "DecimalResultType op p1 s1 p2 s2 =
     (let (p1, s1) = normalizeDecimalPS p1 s1; (p2, s2) = normalizeDecimalPS p2 s2 in
      case op_type op p1 s1 p2 s2 of
        None \<Rightarrow> (0, 0, False)
      | Some (p, s, exactScale) \<Rightarrow>
          if exactScale \<and> p > MaxDecimalPrecision \<and> s \<le> MaxDecimalScale then (MaxDecimalPrecision, s, True)
          else let (p, s) = AdjustDecimalPrecisionScale p s in (p, s, True))"

section \<open>Rounded division of integers\<close>

definition rdiv :: "int \<Rightarrow> int \<Rightarrow> int" where
  "rdiv n d = sgn n * sgn d * ((2 * \<bar>n\<bar> + \<bar>d\<bar>) div (2 * \<bar>d\<bar>))"

lemma half_up_div:
  fixes a b :: int
  assumes "0 \<le> a" "0 < b"
  shows "(2 * a + b) div (2 * b) = a div b + (if b \<le> 2 * (a mod b) then 1 else 0)"
proof -
  define q r where "q = a div b" and "r = a mod b"
  have a: "a = b * q + r" by (simp add: q_def r_def)
  have r: "0 \<le> r" "r < b" using assms by (simp_all add: r_def)
  have "2 * a + b = (2 * r + b) + q * (2 * b)" unfolding a by (simp add: algebra_simps)
  moreover have "((2 * r + b) + q * (2 * b)) div (2 * b) = q + (2 * r + b) div (2 * b)"
    using assms by (intro div_mult_self1) simp
  ultimately have "(2 * a + b) div (2 * b) = q + (2 * r + b) div (2 * b)" by (simp only:)
  moreover have "(2 * r + b) div (2 * b) = (if b \<le> 2 * r then 1 else 0)"
  proof (cases "b \<le> 2 * r")
    case True
    have "(2 * r + b) div (2 * b) = 1" by (rule int_div_pos_eq [where r = "2 * r - b"]) (use True r in auto)
    then show ?thesis using True by simp
  qed (use r in simp)
  ultimately show ?thesis by (simp add: q_def r_def)
qed

lemma rdiv_step:
  assumes "d \<noteq> 0"
  shows "rdiv n d = (if \<bar>d\<bar> \<le> 2 * \<bar>n smod d\<bar> then n sdiv d + sgn n * sgn d else n sdiv d)"
proof (cases "n = 0")
  case True
  then show ?thesis using assms by (simp add: rdiv_def signed_modulo_int_def)
next
  case False
  have "\<bar>n smod d\<bar> = \<bar>n\<bar> mod \<bar>d\<bar>" using False assms by (simp add: signed_modulo_int_def abs_mult)
  then show ?thesis using half_up_div [of "\<bar>n\<bar>" "\<bar>d\<bar>"] assms
    by (simp add: rdiv_def signed_divide_int_def algebra_simps)
qed

lemma rdiv_scale: "0 < c \<Longrightarrow> rdiv (n * c) (d * c) = rdiv n d"
proof -
  assume c: "0 < c"
  have "2 * \<bar>n * c\<bar> + \<bar>d * c\<bar> = (2 * \<bar>n\<bar> + \<bar>d\<bar>) * c" "2 * \<bar>d * c\<bar> = 2 * \<bar>d\<bar> * c"
    using c by (simp_all add: abs_mult algebra_simps)
  then show "rdiv (n * c) (d * c) = rdiv n d" using c by (simp add: rdiv_def sgn_mult)
qed

lemma rdiv_one [simp]: "rdiv n 1 = n"
  by (simp add: rdiv_step signed_modulo_int_def)

lemma rdiv_exact: "0 < d \<Longrightarrow> rdiv (n * d) d = n"
  using rdiv_scale [of d n 1] by simp

section \<open>The integers behind the operations\<close>

lemma BigInt_val [simp]: "BigInt d = val128 d"
  by (simp add: BigInt_def val128_def push_bit_eq_mult)

lemma fitsInt128_val [simp]: "fitsInt128 b = fits128 b"
proof -
  have "bitlen \<bar>b\<bar> < 128 \<longleftrightarrow> bitlen \<bar>b\<bar> \<le> 127" by linarith
  also have "\<dots> \<longleftrightarrow> \<bar>b\<bar> < 2 ^ 127" unfolding bitlen_le_iff_power by simp
  finally have l: "bitlen \<bar>b\<bar> < 128 \<longleftrightarrow> \<bar>b\<bar> < 2 ^ 127" .
  have m: "bitlen (2 ^ 127) = 128" using bitlen_pow2 [of 1 127] by (simp add: bitlen_def compute_floorlog)
  have p: "push_bit 127 1 = (2 :: int) ^ 127" by (simp add: push_bit_eq_mult)
  consider "\<bar>b\<bar> < 2 ^ 127" | "\<bar>b\<bar> = 2 ^ 127" | "2 ^ 127 < \<bar>b\<bar>" by linarith
  then show ?thesis
  proof cases
    case 2
    have "fits128 b \<longleftrightarrow> b < 0" using 2 unfolding fits128_def pow_num by linarith
    then show ?thesis using 2 l m p unfolding fitsInt128_def by simp
  next
    case 3
    have "\<not> fits128 b" using 3 unfolding fits128_def pow_num by linarith
    then show ?thesis using 3 l unfolding fitsInt128_def p by simp
  qed (use l in \<open>auto simp: fitsInt128_def fits128_def\<close>)
qed

lemma int128FromBig_val: "fits128 b \<Longrightarrow> int128FromBig b = int128_of b"
proof -
  assume f: "fits128 b"
  define hi lo where "hi = (word_of_int (drop_bit 64 \<bar>b\<bar>) :: u64)" and "lo = (word_of_int (\<bar>b\<bar> AND uint (NOT 0 :: u64)) :: u64)"
  have m: "\<bar>b\<bar> \<le> 2 ^ 127" using f unfolding fits128_def pow_num by linarith
  have "uint (NOT 0 :: u64) = mask 64" by (simp add: unsigned_minus_1_eq_mask)
  then have lo: "uint lo = \<bar>b\<bar> mod 2 ^ 64" by (simp add: lo_def uint_word_of_int take_bit_eq_mask [symmetric] take_bit_eq_mod)
  have "\<bar>b\<bar> div 2 ^ 64 < 2 ^ 64"
    using m div_mult_mod_eq [of "\<bar>b\<bar>" "2 ^ 64"] pos_mod_sign [of "2 ^ 64" "\<bar>b\<bar>"] unfolding pow_num by linarith
  moreover have "0 \<le> \<bar>b\<bar> div 2 ^ 64" by (simp add: pos_imp_zdiv_nonneg_iff)
  ultimately have hi: "uint hi = \<bar>b\<bar> div 2 ^ 64" by (simp add: hi_def uint_word_of_int drop_bit_eq_div)
  have V: "int (V128 hi lo) = \<bar>b\<bar>" by (simp add: V128_def hi lo)
  then have "V128 hi lo < 2 ^ 127 \<or> (b < 0 \<and> V128 hi lo = 2 ^ 127)"
    using f unfolding fits128_def pow_num pow_num_nat by linarith
  then have "(if b < 0 then Neg \<lparr>Hi = hi, Lo = lo\<rparr> else \<lparr>Hi = hi, Lo = lo\<rparr>) = int128_of b" using sign_mag V by simp
  then show "int128FromBig b = int128_of b"
    unfolding int128FromBig_def Let_def hi_def [symmetric] lo_def [symmetric] using f by simp
qed

lemma narrowInt128_val [simp]: "narrowInt128 b = narrow b"
  by (simp add: narrowInt128_def narrow_def int128FromBig_val)

lemma bigPow10_val [simp]: "0 \<le> n \<Longrightarrow> bigPow10 n = 10 ^ nat n"
  by (simp add: bigPow10_def)

lemma bigDivRound_val: "den \<noteq> 0 \<Longrightarrow> bigDivRound num den = narrow (rdiv num den)"
proof -
  assume d: "den \<noteq> 0"
  have "sgn num * sgn den = (if (num < 0) \<noteq> (den < 0) then - 1 else 1)" if "num smod den \<noteq> 0"
    using that d by (auto simp: signed_modulo_int_def sgn_if split: if_splits)
  then show "bigDivRound num den = narrow (rdiv num den)"
    using d by (auto simp: bigDivRound_def rdiv_step Let_def push_bit_eq_mult)
qed

lemma rdiv_raise:
  assumes "0 \<le> f" "f \<le> t"
  shows "rdiv (n * 10 ^ nat t) (10 ^ nat f) = n * 10 ^ nat (t - f)"
proof -
  have "(10 :: int) ^ nat t = 10 ^ nat (t - f) * 10 ^ nat f" using assms by (simp add: power_add [symmetric] nat_diff_distrib)
  then show ?thesis using rdiv_exact [of "10 ^ nat f" "n * 10 ^ nat (t - f)"] by (simp add: mult.assoc)
qed

lemma rdiv_drop:
  assumes "0 \<le> t" "t \<le> f"
  shows "rdiv (n * 10 ^ nat t) (10 ^ nat f) = rdiv n (10 ^ nat (f - t))"
proof -
  have "(10 :: int) ^ nat f = 10 ^ nat (f - t) * 10 ^ nat t" using assms by (simp add: power_add [symmetric] nat_diff_distrib)
  then show ?thesis using rdiv_scale [of "10 ^ nat t" n "10 ^ nat (f - t)"] by simp
qed

lemma bigRescale_val:
  assumes "0 \<le> f" "0 \<le> t"
  shows "bigRescale n f t = narrow (rdiv (n * 10 ^ nat t) (10 ^ nat f))"
  using assms by (simp add: bigRescale_def bigDivRound_val rdiv_raise rdiv_drop)

lemma MulPow10_narrow: "0 \<le> n \<Longrightarrow> MulPow10 n d = narrow (val128 d * 10 ^ nat n)"
proof -
  assume n: "0 \<le> n"
  obtain r ok where r: "MulPow10 n d = (r, ok)" by fastforce
  note v = MulPow10_val [OF n r]
  have "\<not> 5 dvd (2 :: int) ^ 127" by simp
  then have nm: "val128 d * 10 ^ nat n \<noteq> - (2 ^ 127)" if "n \<noteq> 0"
  proof -
    have "(5 :: int) dvd 10 ^ nat n" using that n by (intro dvd_power_le [of 5 10 1 "nat n", simplified]) auto
    then show ?thesis using \<open>\<not> 5 dvd (2 :: int) ^ 127\<close> by (metis dvd_minus_iff dvd_mult)
  qed
  have a: "\<bar>val128 d\<bar> * 10 ^ nat n = \<bar>val128 d * 10 ^ nat n\<bar>" by (simp add: abs_mult)
  have "ok \<longleftrightarrow> fits128 (val128 d * 10 ^ nat n)"
  proof (cases "n = 0")
    case True
    then show ?thesis using v(1) by simp
  next
    case False
    then show ?thesis using v(1) nm unfolding a fits128_def pow_num by linarith
  qed
  moreover have "ok \<Longrightarrow> r = int128_of (val128 d * 10 ^ nat n)" using v(2) by (rule val128_eqI)
  moreover have "\<not> ok \<Longrightarrow> r = Zero128"
    using r by (auto simp: MulPow10_def Let_def split: if_splits option.splits prod.splits)
  ultimately show "MulPow10 n d = narrow (val128 d * 10 ^ nat n)" using r by (auto simp: narrow_def)
qed

lemma fits128_pow10: "n \<le> 38 \<Longrightarrow> fits128 (10 ^ n)"
proof -
  assume "n \<le> 38"
  then have "(10 :: int) ^ n \<le> 10 ^ 38" by (intro power_increasing) simp_all
  also have "\<dots> < 2 ^ 127" by simp
  finally show "fits128 (10 ^ n)" unfolding fits128_def using zero_le_power [of "10 :: int" n] unfolding pow_num by linarith
qed

lemma Int128From_of: "Int128From v = int128_of (sint v)"
  by (rule val128_eqI) (rule Int128From_val)

lemma pow10Int128_val: "n \<le> 38 \<Longrightarrow> pow10Int128 n = Some (int128_of (10 ^ n))"
proof (induction n)
  case (Suc n)
  then show ?case using fits128_pow10 [of n] fits128_pow10 [of "Suc n"]
    by (simp add: MulPow10_narrow narrow_def mult.commute)
qed (simp add: Int128From_of)

lemma absInt128_val: "absInt128 v = narrow \<bar>val128 v\<bar>"
proof -
  have "Neg v = int128_of (- val128 v)" if "val128 v \<noteq> - (2 ^ 127)" using that Neg_val [of v] by (intro val128_eqI) simp
  then show ?thesis using val128_range [of v]
    by (auto simp: absInt128_def narrow_def IsNegative_val Neg_val fits128_def Let_def)
qed

lemma Cmp_ge: "Cmp d e \<ge> 0 \<longleftrightarrow> val128 e \<le> val128 d"
  by (simp add: Cmp_val)

lemma Cmp_lt: "Cmp d e < 0 \<longleftrightarrow> val128 d < val128 e"
  by (simp add: Cmp_val)

lemma DecimalFitsPrecision_val:
  "DecimalFitsPrecision v p = Some (p \<le> 0 \<or> 38 < p \<or> \<bar>val128 v\<bar> < 10 ^ nat p)"
proof (cases "p \<le> 0 \<or> 38 < p")
  case True
  then show ?thesis by (cases "p = 0") (auto simp: DecimalFitsPrecision_def DecimalPow10_def MaxDecimalPrecision_def)
next
  case False
  have f: "fits128 (10 ^ nat p)" using False by (intro fits128_pow10) linarith
  then have "10 ^ nat p < (2 :: int) ^ 127" by (simp add: fits128_def)
  then have "\<not> \<bar>val128 v\<bar> < 10 ^ nat p" if "\<not> fits128 \<bar>val128 v\<bar>" using that unfolding fits128_def pow_num by linarith
  then show ?thesis using False f pow10Int128_val [of "nat p"]
    by (auto simp: DecimalFitsPrecision_def DecimalPow10_def MaxDecimalPrecision_def absInt128_val narrow_def Cmp_lt)
qed

section \<open>Quotients in range\<close>

lemma smod_bounds: "b \<noteq> 0 \<Longrightarrow> \<bar>a smod b\<bar> < \<bar>b\<bar>" "\<bar>a smod b\<bar> \<le> \<bar>a\<bar>" for a b :: int
proof -
  have "0 \<le> \<bar>a\<bar> mod \<bar>b\<bar>" by (cases "b = 0") simp_all
  then have "\<bar>a smod b\<bar> = (if a = 0 then 0 else \<bar>a\<bar> mod \<bar>b\<bar>)" by (simp add: signed_modulo_int_def abs_mult)
  then show "b \<noteq> 0 \<Longrightarrow> \<bar>a smod b\<bar> < \<bar>b\<bar>" "\<bar>a smod b\<bar> \<le> \<bar>a\<bar>" by (simp_all add: zmod_le_nonneg_dividend)
qed

lemma smod_fits: "fits128 b \<Longrightarrow> b \<noteq> 0 \<Longrightarrow> fits128 (a smod b)" "fits128 b \<Longrightarrow> b \<noteq> 0 \<Longrightarrow> fits128 \<bar>a smod b\<bar>"
  using smod_bounds(1) [of b a] unfolding fits128_def pow_num by linarith+

lemma sdiv_half: "2 \<le> \<bar>b\<bar> \<Longrightarrow> 2 * \<bar>a sdiv b\<bar> \<le> \<bar>a\<bar>" for a b :: int
proof -
  assume b: "2 \<le> \<bar>b\<bar>"
  have "\<bar>a sdiv b\<bar> \<le> \<bar>a\<bar> div \<bar>b\<bar>" by (simp add: signed_divide_int_def abs_mult sgn_if pos_imp_zdiv_nonneg_iff)
  also have "\<dots> \<le> \<bar>a\<bar> div 2" using b by (intro zdiv_mono2) simp_all
  finally show "2 * \<bar>a sdiv b\<bar> \<le> \<bar>a\<bar>" by linarith
qed

lemma sdiv_fits: "fits128 a \<Longrightarrow> \<not> (a = - (2 ^ 127) \<and> b = - 1) \<Longrightarrow> fits128 (a sdiv b)"
proof -
  assume a: "fits128 a" and n: "\<not> (a = - (2 ^ 127) \<and> b = - 1)"
  consider "2 \<le> \<bar>b\<bar>" | "b = 0" | "b = 1" | "b = - 1" by linarith
  then show "fits128 (a sdiv b)"
  proof cases
    case 1
    show ?thesis using sdiv_half [OF 1, of a] a unfolding fits128_def pow_num by linarith
  qed (use a n in \<open>auto simp: fits128_def\<close>)
qed

section \<open>Rescaling\<close>

lemma Sub_exact: "fits128 (val128 d - val128 e) \<Longrightarrow> val128 (Sub d e) = val128 d - val128 e"
  by (simp add: Sub_val fits128_def Let_def)

lemma AddChecked_narrow: "fits128 (val128 d + val128 e) \<Longrightarrow> AddChecked d e = narrow (val128 d + val128 e)"
  using AddChecked_fits [of d e] by (cases "AddChecked d e") (simp add: narrow_def)


text \<open>The unit step away from zero both rounding sites take.\<close>

lemma step_val: "val128 (if neg then Neg (Int128From 1) else Int128From 1) = (if neg then - 1 else 1)"
  by (simp add: Neg_val Int128From_val)

lemma round_test:
  assumes "fits128 D" "fits128 \<bar>D\<bar>" "D \<noteq> 0"
  shows "Cmp (int128_of \<bar>V smod D\<bar>) (Sub (int128_of \<bar>D\<bar>) (int128_of \<bar>V smod D\<bar>)) \<ge> 0 \<longleftrightarrow> \<bar>D\<bar> \<le> 2 * \<bar>V smod D\<bar>"
proof -
  note m = smod_fits [OF assms(1,3), of V]
  have "fits128 (\<bar>D\<bar> - \<bar>V smod D\<bar>)" using m(2) assms(2) smod_bounds(1) [OF assms(3), of V] unfolding fits128_def pow_num by linarith
  then show ?thesis using m assms(2) by (auto simp: Cmp_ge Sub_exact)
qed

lemma Rescale_val:
  assumes "0 \<le> f" "0 \<le> t"
  shows "Rescale v f t = Some (narrow (rdiv (val128 v * 10 ^ nat t) (10 ^ nat f)))"
proof -
  consider "t = f" | "f < t" | "t < f" "38 < f - t" | "t < f" "f - t \<le> 38" by linarith
  then show ?thesis
  proof cases
    case 1
    then show ?thesis using assms rdiv_raise [of f t] by (simp add: Rescale_def narrow_def)
  next
    case 2
    then show ?thesis using assms by (simp add: Rescale_def MulPow10_narrow rdiv_raise)
  next
    case 3
    have "(10 :: int) ^ 39 \<le> 10 ^ nat (f - t)" using 3 by (intro power_increasing) simp_all
    moreover have "2 * \<bar>val128 v\<bar> < 10 ^ 39" using val128_range [of v] by simp
    ultimately have "(2 * \<bar>val128 v\<bar> + 10 ^ nat (f - t)) div (2 * 10 ^ nat (f - t)) = 0" by (intro div_pos_pos_trivial) linarith+
    then have "rdiv (val128 v) (10 ^ nat (f - t)) = 0" by (simp add: rdiv_def)
    then show ?thesis using 3 assms by (simp add: Rescale_def MaxDecimalPrecision_def rdiv_drop narrow_def fits128_def val128_eqI)
  next
    case 4
    define D V where "D = (10 :: int) ^ nat (f - t)" and "V = val128 v"
    have D: "fits128 D" unfolding D_def using 4 by (intro fits128_pow10) simp
    have "(10 :: int) ^ 1 \<le> 10 ^ nat (f - t)" using 4 by (intro power_increasing) simp_all
    then have D10: "10 \<le> D" by (simp add: D_def)
    have p: "pow10Int128 (nat (f - t)) = Some (int128_of D)" using 4 pow10Int128_val by (simp add: D_def)
    have q: "QuoRem v (int128_of D) = Some (int128_of (V sdiv D), int128_of (V smod D), True)"
      using QuoRem_val [of "int128_of D" v] D D10 by (simp add: V_def)
    have h: "2 * \<bar>V sdiv D\<bar> \<le> \<bar>V\<bar>" using D10 by (intro sdiv_half) simp
    have Vb: "\<bar>V\<bar> \<le> 2 ^ 127" using val128_range [of v] unfolding V_def pow_num by linarith
    have qf: "fits128 (V sdiv D)" "fits128 (V sdiv D + 1)" "fits128 (V sdiv D - 1)"
      using h Vb unfolding fits128_def pow_num by linarith+
    note m = smod_fits [OF D, of V]
    have "Rescale v f t = Some (narrow (rdiv V D))"
    proof (cases "V smod D = 0")
      case True
      then show ?thesis using 4 assms p q qf D10 by (simp add: Rescale_def MaxDecimalPrecision_def rdiv_step IsZero_val narrow_def fits128_def)
    next
      case False
      have sg: "sgn V * sgn D = (if IsNegative v then - 1 else 1)"
        using False D10 by (auto simp: IsNegative_val V_def [symmetric] sgn_if signed_modulo_int_def)
      have nz: "\<not> IsZero (int128_of (V smod D))" using False m D10 by (simp add: IsZero_val)
      have ab: "absInt128 (int128_of (V smod D)) = (int128_of \<bar>V smod D\<bar>, True)"
        using m D10 by (simp add: absInt128_val narrow_def)
      have rt: "Cmp (int128_of \<bar>V smod D\<bar>) (Sub (int128_of D) (int128_of \<bar>V smod D\<bar>)) \<ge> 0 \<longleftrightarrow> \<bar>D\<bar> \<le> 2 * \<bar>V smod D\<bar>"
        using round_test [of D V] D D10 by simp
      have st: "AddChecked (int128_of (V sdiv D)) (if IsNegative v then Neg (Int128From 1) else Int128From 1) =
          narrow (V sdiv D + sgn V * sgn D)"
        using AddChecked_narrow [of "int128_of (V sdiv D)" "if IsNegative v then Neg (Int128From 1) else Int128From 1"]
        unfolding step_val sg using qf by simp
      have "\<not> (f < 0 \<or> t < 0)" "t \<noteq> f" "\<not> f < t" "\<not> MaxDecimalPrecision < f - t" using 4 assms by (simp_all add: MaxDecimalPrecision_def)
      then show ?thesis using D10 qf
        by (simp add: Rescale_def Let_def p q nz ab rt st rdiv_step narrow_def [of "V sdiv D"])
    qed
    then show ?thesis using 4 assms by (simp add: rdiv_drop V_def D_def)
  qed
qed

section \<open>Rational specification\<close>

text \<open>The number a carrier at a scale denotes, rounding to the nearest integer with ties away from zero, and the
  result every operation should report for a rational at a scale.\<close>

definition dec :: "int128 \<Rightarrow> int \<Rightarrow> rat" where "dec v s = of_int (val128 v) / 10 ^ nat s"

definition round_away :: "rat \<Rightarrow> int" where
  "round_away q = (if q < 0 then - \<lfloor>- q + 1 / 2\<rfloor> else \<lfloor>q + 1 / 2\<rfloor>)"

definition rounded :: "int \<Rightarrow> rat \<Rightarrow> int128 \<times> DecimalStatus" where
  "rounded s q = decStatus (narrow (round_away (q * 10 ^ nat s)))"

lemma round_away_nonneg:
  assumes "0 \<le> a" "0 < b"
  shows "\<lfloor>(of_int a / of_int b :: rat) + 1 / 2\<rfloor> = (2 * a + b) div (2 * b)"
proof -
  have "(of_int a / of_int b :: rat) + 1 / 2 = of_int (2 * a + b) / of_int (2 * b)"
    using assms by (simp add: field_simps)
  then show ?thesis by (simp only: floor_divide_of_int_eq)
qed

lemma round_away_quotient:
  assumes "d \<noteq> 0"
  shows "round_away (of_int n / of_int d) = rdiv n d"
proof -
  define q :: rat where "q = of_int \<bar>n\<bar> / of_int \<bar>d\<bar>"
  have q: "\<lfloor>q + 1 / 2\<rfloor> = (2 * \<bar>n\<bar> + \<bar>d\<bar>) div (2 * \<bar>d\<bar>)"
    unfolding q_def using assms by (intro round_away_nonneg) simp_all
  show ?thesis
  proof (cases "n = 0")
    case True
    have "\<lfloor>1 / 2 :: rat\<rfloor> = 0" by (simp add: floor_eq_iff)
    then show ?thesis using True assms by (simp add: round_away_def rdiv_def)
  next
    case False
    have "(of_int n / of_int d :: rat) = (if (n < 0) = (d < 0) then q else - q)"
      unfolding q_def by (simp add: abs_if)
    moreover have "0 < q" unfolding q_def using False assms by simp
    moreover have "sgn n * sgn d = (if (n < 0) = (d < 0) then 1 else - 1)" using False assms by (auto simp: sgn_if)
    ultimately show ?thesis unfolding round_away_def rdiv_def q [symmetric] by (simp add: add.commute)
  qed
qed

lemma rounded_eq: "q * 10 ^ nat s = of_int n / of_int d \<Longrightarrow> d \<noteq> 0 \<Longrightarrow> rounded s q = decStatus (narrow (rdiv n d))"
  by (simp add: rounded_def round_away_quotient)

lemma decStatus_narrow_pair:
  "(case narrow k of (out, ok) \<Rightarrow> if ok then Some (out, DecimalOK) else Some (Zero128, DecimalOverflow)) = Some (decStatus (narrow k))"
  by (simp add: narrow_def decStatus_def)

lemma pow10_split: "s \<le> c \<Longrightarrow> 0 \<le> s \<Longrightarrow> (10 :: 'a :: {comm_semiring_1}) ^ nat c = 10 ^ nat (c - s) * 10 ^ nat s"
  by (simp add: power_add [symmetric] nat_diff_distrib)

text \<open>A carrier raised to a common scale.\<close>

lemma dec_common:
  assumes "0 \<le> s" "s \<le> c"
  shows "dec v s = of_int (val128 v * 10 ^ nat (c - s)) / 10 ^ nat c"
  unfolding dec_def pow10_split [OF assms(2,1)] by simp

lemma decAddSub_val:
  assumes "0 \<le> sa" "0 \<le> sb" "0 \<le> so"
  shows "decAddSub a sa b sb so sub = Some (rounded so (if sub then dec a sa - dec b sb else dec a sa + dec b sb))"
proof -
  define c where "c = max sa sb"
  have c: "sa \<le> c" "sb \<le> c" "0 \<le> c" using assms by (auto simp: c_def)
  define A B where "A = val128 a * 10 ^ nat (c - sa)" and "B = val128 b * 10 ^ nat (c - sb)"
  define N where "N = (if sub then A - B else A + B)"
  have q: "(if sub then dec a sa - dec b sb else dec a sa + dec b sb) = of_int N / 10 ^ nat c"
    unfolding dec_common [OF assms(1) c(1)] dec_common [OF assms(2) c(2)] N_def A_def B_def
    by (simp add: diff_divide_distrib add_divide_distrib)
  have R: "rounded so (if sub then dec a sa - dec b sb else dec a sa + dec b sb) = decStatus (narrow (rdiv (N * 10 ^ nat so) (10 ^ nat c)))"
    unfolding q by (rule rounded_eq) simp_all
  have x: "Rescale a sa c = Some (narrow A)" "Rescale b sb c = Some (narrow B)"
    using Rescale_val [of sa c a] Rescale_val [of sb c b] assms c by (simp_all add: rdiv_raise A_def B_def)
  have wide: "decStatus (bigRescale (if sub then A - B else A + B) c so) = decStatus (narrow (rdiv (N * 10 ^ nat so) (10 ^ nat c)))"
    using bigRescale_val [of c so] c assms by (simp add: N_def)
  have i: "\<not> (sa < 0 \<or> sb < 0 \<or> so < 0)" using assms by simp
  have big: "BigInt a * bigPow10 (c - sa) = A" "BigInt b * bigPow10 (c - sb) = B" using c by (simp_all add: A_def B_def)
  define pr where "pr = (if snd (narrow A) \<and> snd (narrow B) then if sub then SubChecked (fst (narrow A)) (fst (narrow B))
     else AddChecked (fst (narrow A)) (fst (narrow B)) else (Zero128, False))"
  have sum: "pr = (int128_of N, True) \<and> fits128 N \<or> \<not> snd pr"
    using AddChecked_fits [of "int128_of A" "int128_of B"] SubChecked_val [of "int128_of A" "int128_of B"]
    unfolding pr_def N_def narrow_def by (auto simp: prod_eq_iff)
  have unf: "decAddSub a sa b sb so sub = (case pr of (sm, ok) \<Rightarrow>
      if ok then Option.bind (Rescale sm c so) (\<lambda>(out, ok). if ok then Some (out, DecimalOK) else Some (Zero128, DecimalOverflow))
      else Some (decStatus (bigRescale (if sub then A - B else A + B) c so)))"
    using i unfolding decAddSub_def c_def [symmetric] x big Let_def
    by (simp add: x big pr_def split: prod.split)
  from sum show ?thesis
  proof
    assume p: "pr = (int128_of N, True) \<and> fits128 N"
    then have "Rescale (int128_of N) c so = Some (narrow (rdiv (N * 10 ^ nat so) (10 ^ nat c)))"
      using Rescale_val [of c so "int128_of N"] c assms by simp
    then show ?thesis using p unfolding unf R by (simp add: decStatus_narrow_pair)
  next
    assume "\<not> snd pr"
    then show ?thesis unfolding unf R wide by (simp add: split_beta)
  qed
qed

section \<open>Multiplication\<close>

text \<open>One word of the long division by a single word.\<close>

lemma long_division_word:
  fixes n K r d :: nat
  assumes "0 < d"
  shows "(n * K + r) div d = n div d * K + (n mod d * K + r) div d" "(n * K + r) mod d = (n mod d * K + r) mod d"
proof -
  have regroup: "(q * d + m) * K + r = (m * K + r) + d * (q * K)" for q m :: nat by (simp add: algebra_simps)
  have n: "n * K + r = (n mod d * K + r) + d * (n div d * K)" using regroup [of "n div d" "n mod d"] by (simp only: div_mult_mod_eq)
  have "d \<noteq> 0" using assms by simp
  then show "(n * K + r) div d = n div d * K + (n mod d * K + r) div d" unfolding n by (rule div_mult_self2)
  show "(n * K + r) mod d = (n mod d * K + r) mod d" unfolding n by (rule mod_mult_self2)
qed

lemma long_division_256:
  assumes d: "0 < unat d"
  obtains q0 q1 q2 q3 e0 e1 e2 rem where
    "Div64 0 r3 d = Some (q0, e0)" "Div64 e0 r2 d = Some (q1, e1)" "Div64 e1 r1 d = Some (q2, e2)" "Div64 e2 r0 d = Some (q3, rem)"
    "V128 q0 q1 * 2 ^ 128 + V128 q2 q3 = (V128 r3 r2 * 2 ^ 128 + V128 r1 r0) div unat d"
    "unat rem = (V128 r3 r2 * 2 ^ 128 + V128 r1 r0) mod unat d"
proof -
  let ?d = "unat d" and ?N2 = "V128 r3 r2"
  define N3 where "N3 = ?N2 * 2 ^ 64 + unat r1"
  obtain q0 e0 where 0: "Div64 0 r3 d = Some (q0, e0)" "unat q0 = unat r3 div ?d" "unat e0 = unat r3 mod ?d"
    using Div64_val [of 0 d r3] d by (auto simp: V128_def)
  obtain q1 e1 where 1: "Div64 e0 r2 d = Some (q1, e1)" "unat q1 = V128 e0 r2 div ?d" "unat e1 = V128 e0 r2 mod ?d"
    using Div64_val [of e0 d r2] d 0(3) by auto
  obtain q2 e2 where 2: "Div64 e1 r1 d = Some (q2, e2)" "unat q2 = V128 e1 r1 div ?d" "unat e2 = V128 e1 r1 mod ?d"
    using Div64_val [of e1 d r1] d 1(3) by auto
  obtain q3 rem where 3: "Div64 e2 r0 d = Some (q3, rem)" "unat q3 = V128 e2 r0 div ?d" "unat rem = V128 e2 r0 mod ?d"
    using Div64_val [of e2 d r0] d 2(3) by auto
  note ld = long_division_word [OF d, where K = "2 ^ 64"]
  have n2: "?N2 div ?d = V128 q0 q1" "?N2 mod ?d = unat e1"
    using ld [of "unat r3" "unat r2"] 0 1 by (simp_all only: V128_def)
  have n3: "N3 div ?d = V128 q0 q1 * 2 ^ 64 + unat q2" "N3 mod ?d = unat e2"
    using ld [of ?N2 "unat r1"] 2 unfolding N3_def n2 by (simp_all only: V128_def)
  have n4: "(N3 * 2 ^ 64 + unat r0) div ?d = (V128 q0 q1 * 2 ^ 64 + unat q2) * 2 ^ 64 + unat q3" "(N3 * 2 ^ 64 + unat r0) mod ?d = unat rem"
    using ld [of N3 "unat r0"] 3 unfolding n3 by (simp_all only: V128_def)
  have "V128 r3 r2 * 2 ^ 128 + V128 r1 r0 = N3 * 2 ^ 64 + unat r0" by (simp add: N3_def V128_def [of r1 r0])
  moreover have "V128 q0 q1 * 2 ^ 128 + V128 q2 q3 = (V128 q0 q1 * 2 ^ 64 + unat q2) * 2 ^ 64 + unat q3" by (simp add: V128_def [of q2 q3])
  ultimately show ?thesis using that 0(1) 1(1) 2(1) 3(1) n4 by metis
qed

lemma increment_val:
  assumes "add64c lo 1 0 = (lo', c)" "add64c hi 0 c = (hi', c')"
  shows "V128 hi' lo' + unat c' * 2 ^ 128 = V128 hi lo + 1"
proof -
  have "unat c \<le> 1" "unat lo' + unat c * 18446744073709551616 = unat lo + 1" using add64c_num [OF assms(1)] by simp_all
  moreover have "unat hi' + unat c' * 18446744073709551616 = unat hi + unat c" using add64c_num [OF assms(2) calculation(1)] by simp
  ultimately show ?thesis unfolding V128_num pow_num_nat by linarith
qed

lemma mulRescale256_val:
  assumes "1 \<le> n" "n \<le> 19"
  shows "mulRescale256 a b n = Some (narrow (rdiv (val128 a * val128 b) (10 ^ n)))"
proof -
  obtain aHi aLo aNeg where a: "magnitude a = (aHi, aLo, aNeg)" using prod_cases3 by blast
  obtain bHi bLo bNeg where b: "magnitude b = (bHi, bLo, bNeg)" using prod_cases3 by blast
  obtain r3 r2 r1 r0 where r: "mulMag256 aHi aLo bHi bLo = (r3, r2, r1, r0)" using prod_cases4 by blast
  define P d where "P = V128 r3 r2 * 2 ^ 128 + V128 r1 r0" and "d = unat (pow10u64 n)"
  define neg where "neg = (aNeg \<noteq> bNeg)"
  have d: "d = 10 ^ n" "0 < d" using pow10_val [OF assms(2)] by (simp_all add: d_def)
  have dd: "0 < unat (pow10u64 n)" using d(2) by (simp only: d_def)
  obtain q0 q1 q2 q3 e0 e1 e2 rem where
    dv: "Div64 0 r3 (pow10u64 n) = Some (q0, e0)" "Div64 e0 r2 (pow10u64 n) = Some (q1, e1)"
      "Div64 e1 r1 (pow10u64 n) = Some (q2, e2)" "Div64 e2 r0 (pow10u64 n) = Some (q3, rem)"
    and Q: "V128 q0 q1 * 2 ^ 128 + V128 q2 q3 = P div d" and rm: "unat rem = P mod d"
    unfolding P_def d_def by (rule long_division_256 [OF dd])
  have "P = V128 aHi aLo * V128 bHi bLo" using mulMag256_val [OF r] by (simp add: P_def)
  then have Pi: "int P = \<bar>val128 a * val128 b\<bar>" using magnitude_val [OF a] magnitude_val [OF b] by (simp add: abs_mult)
  have ng: "neg \<longleftrightarrow> (val128 a < 0) \<noteq> (val128 b < 0)" using magnitude_val [OF a] magnitude_val [OF b] by (simp add: neg_def)
  define M where "M = P div d + (if d \<le> 2 * (P mod d) then 1 else 0)"
  have Mi: "int M = (2 * int P + int d) div (2 * int d)"
  proof -
    have "d \<le> 2 * (P mod d) \<longleftrightarrow> int d \<le> int (2 * (P mod d))" by (simp only: of_nat_le_iff)
    then have "d \<le> 2 * (P mod d) \<longleftrightarrow> int d \<le> 2 * (int P mod int d)" by (simp add: zmod_int)
    then show ?thesis using half_up_div [of "int P" "int d"] d(2) by (simp add: M_def zdiv_int)
  qed
  have res: "rdiv (val128 a * val128 b) (10 ^ n) = (if neg then - int M else int M)"
  proof (cases "val128 a * val128 b = 0")
    case True
    have "int P = 0" unfolding Pi True by simp
    then have "M = 0" using d(2) by (simp add: M_def)
    then show ?thesis unfolding True by (simp add: rdiv_def)
  next
    case False
    have "rdiv (val128 a * val128 b) (10 ^ n) = sgn (val128 a * val128 b) * int M"
      unfolding rdiv_def Mi Pi [symmetric] using d(1) by simp
    moreover have "sgn (val128 a * val128 b) = (if neg then - 1 else 1)" using False ng by (auto simp: sgn_if mult_less_0_iff zero_less_mult_iff)
    ultimately show ?thesis by simp
  qed
  have le: "pow10u64 n - rem \<le> rem \<longleftrightarrow> d \<le> 2 * (P mod d)"
  proof -
    have "unat rem < d" using rm d(2) by simp
    then have "unat (pow10u64 n - rem) = d - unat rem" by (simp add: d_def unat_sub word_le_nat_alt)
    then show ?thesis unfolding word_le_nat_alt using rm by linarith
  qed
  obtain lo' c where i1: "add64c q3 1 0 = (lo', c)" by fastforce
  obtain hi' c' where i2: "add64c q2 0 c = (hi', c')" by fastforce
  have big: "narrow (if neg then - int M else int M) = (Zero128, False)" if "2 ^ 128 \<le> M"
  proof -
    have "\<not> fits128 (if neg then - int M else int M)" using that unfolding fits128_def pow_num pow_num_nat by auto
    then show ?thesis by (simp add: narrow_def)
  qed
  show ?thesis
  proof (cases "q0 = 0 \<and> q1 = 0")
    case False
    then have "V128 q0 q1 \<noteq> 0" using V128_inject [of q0 q1 0 0] by (auto simp: V128_def)
    then have "2 ^ 128 \<le> M" using Q unfolding M_def pow_num_nat by linarith
    then show ?thesis using False a b r dv big res by (auto simp: mulRescale256_def)
  next
    case True
    then have Q2: "V128 q2 q3 = P div d" using Q by (simp add: V128_def)
    show ?thesis
    proof (cases "d \<le> 2 * (P mod d)")
      case up: True
      then have M: "V128 hi' lo' + unat c' * 2 ^ 128 = M" using increment_val [OF i1 i2] Q2 by (simp add: M_def)
      show ?thesis
      proof (cases "c' = 0")
        case c0: True
        then have "M = V128 hi' lo'" using M by simp
        then show ?thesis unfolding res using True up le a b r dv i1 i2 c0
          by (simp only: sign_narrow [symmetric] neg_def) (simp add: mulRescale256_def Let_def)
      next
        case False
        then have "1 \<le> unat c'" using unat_eq_zero [of c'] by linarith
        then have "2 ^ 128 \<le> M" using M unfolding pow_num_nat by linarith
        then show ?thesis using True up le a b r dv i1 i2 False big res by (simp add: mulRescale256_def Let_def)
      qed
    next
      case down: False
      then have "M = V128 q2 q3" using Q2 by (simp add: M_def)
      then show ?thesis unfolding res using True down le a b r dv
        by (simp only: sign_narrow [symmetric] neg_def) (simp add: mulRescale256_def Let_def)
    qed
  qed
qed

lemma DecimalMul_val:
  assumes "0 \<le> sa" "0 \<le> sb" "0 \<le> so" "so < 2 ^ 63" "sa + sb < 2 ^ 63"
  shows "DecimalMul a sa b sb so = Some (rounded so (dec a sa * dec b sb))"
proof -
  let ?P = "val128 a * val128 b"
  have w: "wrap64 (sa + sb) = sa + sb" "wrap64 (sa + sb - so) = sa + sb - so" using assms by simp_all
  have "dec a sa * dec b sb * 10 ^ nat so = of_int (?P * 10 ^ nat so) / of_int (10 ^ nat (sa + sb))"
    using assms by (simp add: dec_def nat_add_distrib power_add)
  then have R: "rounded so (dec a sa * dec b sb) = decStatus (narrow (rdiv (?P * 10 ^ nat so) (10 ^ nat (sa + sb))))"
    by (rule rounded_eq) simp
  show ?thesis
  proof (cases "fits128 ?P")
    case True
    then show ?thesis unfolding R using assms Rescale_val [of "sa + sb" so "int128_of ?P"]
      by (simp add: DecimalMul_def w Mul_val narrow_def [of ?P] decStatus_narrow_pair)
  next
    case False
    have "mulRescale256 a b (nat (sa + sb - so)) = Some (narrow (rdiv (?P * 10 ^ nat so) (10 ^ nat (sa + sb))))"
      if "1 \<le> sa + sb - so" "sa + sb - so \<le> 19"
      using mulRescale256_val [of "nat (sa + sb - so)" a b] rdiv_drop [of so "sa + sb" ?P] that assms by simp
    then show ?thesis unfolding R using assms False bigRescale_val [of "sa + sb" so ?P]
      by (auto simp: DecimalMul_def w Mul_val narrow_def [of ?P] Let_def)
  qed
qed

section \<open>Division and remainder\<close>








section \<open>Declared precision\<close>

text \<open>The result an operation reports when it must also respect a declared precision.\<close>

definition at_precision :: "int \<Rightarrow> int128 \<times> DecimalStatus \<Rightarrow> int128 \<times> DecimalStatus" where
  "at_precision p r = (if snd r = DecimalOK \<and> 0 < p \<and> p \<le> 38 \<and> 10 ^ nat p \<le> \<bar>val128 (fst r)\<bar> then (Zero128, DecimalOverflow) else r)"

lemma decimalAtPrecision_val:
  "snd r \<noteq> DecimalOK \<longrightarrow> fst r = Zero128 \<Longrightarrow> decimalAtPrecision r p = Some (at_precision p r)"
  by (cases r) (auto simp: decimalAtPrecision_def DecimalFitsPrecision_val at_precision_def)

lemma rounded_zero: "snd (rounded s q) \<noteq> DecimalOK \<longrightarrow> fst (rounded s q) = Zero128"
  by (auto simp: rounded_def decStatus_def narrow_def)


lemma at_precision_exact:
  assumes "x * 10 ^ nat s = of_int n" and "1 \<le> p" "p \<le> 38"
  shows "at_precision p (rounded s x) = (if \<bar>n\<bar> < 10 ^ nat p then (int128_of n, DecimalOK) else (Zero128, DecimalOverflow))"
proof -
  have r: "rounded s x = decStatus (narrow n)" using rounded_eq [of x s n 1] assms(1) by simp
  have "(10::int) ^ nat p \<le> 10 ^ 38" using assms by (intro power_increasing) auto
  then have "fits128 n" if "\<bar>n\<bar> < 10 ^ nat p" using that unfolding fits128_def pow_num by auto
  then show ?thesis using assms unfolding r at_precision_def by (auto simp: narrow_def decStatus_def)
qed

section \<open>Averages\<close>

lemma fits64_val: "FitsInt64 v \<Longrightarrow> sint (ToInt64 v) = val128 v"
proof -
  assume v: "FitsInt64 v"
  then have "Int128From (ToInt64 v) = v"
    by (cases v) (auto simp: Int128From_def ToInt64_def FitsInt64_def sint_of_top)
  then show ?thesis using Int128From_val [of "ToInt64 v"] by simp
qed

lemma sdiv_between:
  fixes n c :: int
  assumes "0 < c"
  shows "0 \<le> n \<Longrightarrow> 0 \<le> n sdiv c \<and> n sdiv c \<le> n" "n \<le> 0 \<Longrightarrow> n \<le> n sdiv c \<and> n sdiv c \<le> 0"
proof -
  have d: "n sdiv c = sgn n * (\<bar>n\<bar> div c)" using assms by (simp add: signed_divide_int_def)
  have q: "0 \<le> \<bar>n\<bar> div c" "\<bar>n\<bar> div c \<le> \<bar>n\<bar>"
    using assms zdiv_mono2 [of "\<bar>n\<bar>" 1 c] by (simp_all add: pos_imp_zdiv_nonneg_iff)
  show "0 \<le> n \<Longrightarrow> 0 \<le> n sdiv c \<and> n sdiv c \<le> n" using q unfolding d by (cases "n = 0") (simp_all add: sgn_if)
  show "n \<le> 0 \<Longrightarrow> n \<le> n sdiv c \<and> n sdiv c \<le> 0" using q unfolding d by (cases "n = 0") (simp_all add: sgn_if)
qed

lemma rdiv_pos:
  assumes "0 < c"
  shows "rdiv n c = (if c \<le> 2 * \<bar>n smod c\<bar> then (if n < 0 then n sdiv c - 1 else n sdiv c + 1) else n sdiv c)"
proof -
  have "n \<noteq> 0" if "c \<le> 2 * \<bar>n smod c\<bar>" using that assms by (auto simp: signed_modulo_int_def)
  then show ?thesis using assms by (auto simp: rdiv_step sgn_if)
qed

lemma rdiv_between:
  assumes c: "0 < c" and n: "2 \<le> B" "- B \<le> n" "n < B"
  shows "- B \<le> rdiv n c \<and> rdiv n c < B"
proof (cases "c \<le> 2 * \<bar>n smod c\<bar>")
  case True
  then have "2 \<le> c" using c smod_bounds(1) [of c n] by auto
  then have "2 * \<bar>n sdiv c\<bar> \<le> \<bar>n\<bar>" by (intro sdiv_half) simp
  then show ?thesis using n unfolding rdiv_pos [OF c] by (auto split: if_splits)
next
  case False
  then show ?thesis using n sdiv_between [OF c, of n] unfolding rdiv_pos [OF c] by (cases "0 \<le> n") auto
qed

lemma avg_fast_val:
  assumes v: "FitsInt64 v" and c: "0 < sint c" "sint c < 2 ^ 62"
  shows "avg_fast v c = narrow (rdiv (val128 v) (sint c))"
proof -
  let ?n = "val128 v" and ?c = "sint c"
  have n: "- (2 ^ 63) \<le> ?n" "?n < 2 ^ 63" using v by (simp_all add: FitsInt64_val)
  have rb: "- (2 ^ 63) \<le> rdiv ?n ?c \<and> rdiv ?n ?c < 2 ^ 63" using rdiv_between [OF c(1), of "2 ^ 63" ?n] n by simp
  have m: "\<bar>?n smod ?c\<bar> < ?c" using smod_bounds(1) [of ?c ?n] c by simp
  define r where "r = (word_of_int \<bar>?n smod ?c\<bar> :: i64)"
  have rs: "sint (word_of_int (?n smod ?c) :: i64) = ?n smod ?c" using m c unfolding sint_wrap by (intro wrap64_id) auto
  then have r: "(if sint (word_of_int (?n smod ?c) :: i64) < 0 then - word_of_int (?n smod ?c) else word_of_int (?n smod ?c)) = r"
    by (auto simp: r_def abs_if)
  have r2: "r * 2 = word_of_int (\<bar>?n smod ?c\<bar> * 2)" by (simp add: r_def)
  have t: "sint (r * 2) = 2 * \<bar>?n smod ?c\<bar>" using m c unfolding r2 sint_wrap by simp
  let ?q = "word_of_int (?n sdiv ?c) :: i64"
  have "(if sint (r * 2) \<ge> ?c then (if ?n < 0 then ?q - 1 else ?q + 1) else ?q) = word_of_int (rdiv ?n ?c)"
    unfolding t rdiv_pos [OF c(1)] by simp
  then have "avg_fast v c = (Int128From (word_of_int (rdiv ?n ?c)), True)"
    unfolding avg_fast_def Let_def fits64_val [OF v] r by simp
  moreover have "sint (word_of_int (rdiv ?n ?c) :: i64) = rdiv ?n ?c"
    unfolding sint_wrap using rb by (intro wrap64_id) auto
  moreover have "fits128 (rdiv ?n ?c)" using rb by (auto simp: fits128_def)
  ultimately show ?thesis by (simp add: Int128From_of narrow_def)
qed

lemma avg_wide_val:
  assumes "0 < sint c"
  shows "avg_wide sm c k = narrow (rdiv (val128 sm * 10 ^ nat k) (sint c))"
proof -
  have "push_bit (Suc 0) x = 2 * x" for x :: int by (simp add: push_bit_eq_mult)
  then show ?thesis unfolding rdiv_pos [OF assms]
    by (auto simp: avg_wide_def Let_def narrow_def int128FromBig_val)
qed

lemma avg_middle_val:
  assumes c: "0 < sint c" and f: "fits128 N"
  shows "avg_middle (int128_of N) c (int128_of (N sdiv sint c)) (int128_of (N smod sint c)) = narrow (rdiv N (sint c))"
proof -
  let ?r = "int128_of (N smod sint c)" and ?a = "\<bar>N smod sint c\<bar>"
  have a: "?a < 2 ^ 63" using smod_bounds(1) [of "sint c" N] c sint_range64 [of c] by simp
  then have fr: "fits128 (N smod sint c)" "fits128 ?a" "fits128 (?a + ?a)" unfolding fits128_def pow_num by auto
  have ab: "(if IsNegative ?r then Neg ?r else ?r) = int128_of ?a"
    by (rule val128_eqI) (use a fr in \<open>auto simp: IsNegative_val Neg_val\<close>)
  have ad: "AddChecked (int128_of ?a) (int128_of ?a) = (int128_of (?a + ?a), True)"
    using AddChecked_narrow [of "int128_of ?a" "int128_of ?a"] fr by (simp add: narrow_def)
  have fq: "fits128 (N sdiv sint c)" using f c by (intro sdiv_fits) auto
  have le: "Less (int128_of (?a + ?a)) (Int128From c) \<longleftrightarrow> \<not> sint c \<le> 2 * ?a" using fr by (auto simp: Less_val Int128From_val)
  have rf: "fits128 (rdiv N (sint c))" using rdiv_between [OF c, of "2 ^ 127" N] f by (simp add: fits128_def)
  then have "(if sint c \<le> 2 * ?a then (if IsNegative (int128_of N) then Sub (int128_of (N sdiv sint c)) (Int128From 1)
      else Add (int128_of (N sdiv sint c)) (Int128From 1)) else int128_of (N sdiv sint c)) = int128_of (rdiv N (sint c))"
    using f fq unfolding rdiv_pos [OF c]
    by (intro val128_eqI) (auto simp: IsNegative_val Int128From_val Sub_exact Add_val Let_def fits128_def split: if_splits)
  then show ?thesis using rf unfolding avg_middle_def Let_def ab ad prod.case le by (simp add: narrow_def)
qed

lemma DecimalAvg_val:
  assumes c: "0 < sint c" and k: "0 \<le> k"
  shows "DecimalAvg sm c k = Some (narrow (rdiv (val128 sm * 10 ^ nat k) (sint c)))"
proof -
  define N where "N = val128 sm * 10 ^ nat k"
  have g: "\<not> (sint c \<le> 0 \<or> k < 0)" using c k by simp
  have m: "MulPow10 k sm = narrow N" using MulPow10_narrow [OF k] by (simp add: N_def)
  have wide: "avg_wide sm c k = narrow (rdiv N (sint c))" using avg_wide_val [OF c] by (simp add: N_def)
  have "DecimalAvg sm c k = Some (narrow (rdiv N (sint c)))"
  proof (cases "fits128 N")
    case False
    then show ?thesis using g m wide by (simp add: DecimalAvg_def narrow_def [of N])
  next
    case f: True
    show ?thesis
    proof (cases "FitsInt64 (int128_of N) \<and> sint c < 2 ^ 62")
      case True
      then show ?thesis using g m f avg_fast_val [of "int128_of N" c] c by (simp add: DecimalAvg_def narrow_def [of N])
    next
      case False
      have sp: "\<not> (N = - (2 ^ 127) \<and> sint c = - 1)" using c by simp
      have q: "QuoRem (int128_of N) (Int128From c) = Some (int128_of (N sdiv sint c), int128_of (N smod sint c), True)"
        using QuoRem_val [of "Int128From c" "int128_of N"] f c sp by (simp add: Int128From_val)
      have "DecimalAvg sm c k = Some (avg_middle (int128_of N) c (int128_of (N sdiv sint c)) (int128_of (N smod sint c)))"
        using g m f False q c by (auto simp: DecimalAvg_def narrow_def [of N])
      then show ?thesis using avg_middle_val [OF c f] by simp
    qed
  qed
  then show ?thesis by (simp add: N_def)
qed

section \<open>Result types\<close>

definition declared :: "int \<Rightarrow> int \<Rightarrow> bool" where
  "declared p s = (1 \<le> p \<and> p \<le> MaxDecimalPrecision \<and> 0 \<le> s \<and> s \<le> p)"

lemma declared_normal: "declared p s \<Longrightarrow> normalizeDecimalPS p s = (p, s)"
  by (simp add: declared_def normalizeDecimalPS_def)

lemmas max_digits = MaxDecimalPrecision_def MaxDecimalScale_def

lemma add_type:
  assumes "declared p1 s1" "declared p2 s2" "op = ''+'' \<or> op = ''-''"
  shows "DecimalResultType op p1 s1 p2 s2 = (min 38 (max s1 s2 + max (p1 - s1) (p2 - s2) + 1), max s1 s2, True)"
proof -
  have "wrap64 (max s1 s2 + max (p1 - s1) (p2 - s2) + 1) = max s1 s2 + max (p1 - s1) (p2 - s2) + 1"
    using assms(1,2) by (intro wrap64_id) (auto simp: declared_def max_digits max_def)
  then show ?thesis using assms declared_normal [OF assms(1)] declared_normal [OF assms(2)]
    by (auto simp: DecimalResultType_def op_type_def Let_def AdjustDecimalPrecisionScale_def normalizeDecimalPS_def declared_def max_digits)
qed

lemma mul_type:
  assumes "declared p1 s1" "declared p2 s2" "s1 + s2 \<le> 38"
  shows "DecimalResultType ''*'' p1 s1 p2 s2 = (min 38 (p1 + p2 + 1), s1 + s2, True)"
  using assms declared_normal [OF assms(1)] declared_normal [OF assms(2)]
  by (simp add: DecimalResultType_def op_type_def Let_def AdjustDecimalPrecisionScale_def normalizeDecimalPS_def declared_def max_digits)

text \<open>A result that needs no rounding at its scale, in a type wide enough or at the widest precision.\<close>

definition exact_or_overflow :: "(int128 \<times> DecimalStatus) option \<Rightarrow> int \<Rightarrow> int \<Rightarrow> rat \<Rightarrow> bool" where
  "exact_or_overflow r p s x =
     (case r of None \<Rightarrow> False
      | Some (v, st) \<Rightarrow> st = DecimalOK \<and> dec v s = x \<and> \<bar>val128 v\<bar> < 10 ^ nat p \<or>
          st = DecimalOverflow \<and> v = Zero128 \<and> p = 38 \<and> 10 ^ 38 \<le> \<bar>x\<bar> * 10 ^ nat s)"

lemma exact_typed:
  assumes x: "x = of_int n / 10 ^ nat s" and p: "1 \<le> p" "p \<le> 38" "p < 38 \<Longrightarrow> \<bar>n\<bar> < 10 ^ nat p"
  shows "exact_or_overflow (Some (at_precision p (rounded s x))) p s x"
proof -
  have e: "at_precision p (rounded s x) = (if \<bar>n\<bar> < 10 ^ nat p then (int128_of n, DecimalOK) else (Zero128, DecimalOverflow))"
    by (rule at_precision_exact) (use x p in simp_all)
  show ?thesis
  proof (cases "\<bar>n\<bar> < 10 ^ nat p")
    case True
    have "(10::int) ^ nat p \<le> 10 ^ 38" using p by (intro power_increasing) auto
    then have "fits128 n" using True unfolding fits128_def pow_num by auto
    then show ?thesis using True x unfolding exact_or_overflow_def e by (simp add: dec_def)
  next
    case False
    then have p38: "p = 38" using p by linarith
    have "rat_of_int (10 ^ 38) \<le> rat_of_int \<bar>n\<bar>" using False p38 by (simp only: of_int_le_iff) simp
    moreover have "\<bar>x\<bar> * 10 ^ nat s = rat_of_int \<bar>n\<bar>" using x by (simp add: abs_divide)
    ultimately show ?thesis using False p38 unfolding exact_or_overflow_def e by simp
  qed
qed

lemma scaled_bound:
  assumes "\<bar>v\<bar> < 10 ^ nat p" and "0 \<le> p" "0 \<le> k" "p + k \<le> m"
  shows "\<bar>v * 10 ^ nat k\<bar> < (10::int) ^ nat m"
proof -
  have "\<bar>v * 10 ^ nat k\<bar> < 10 ^ nat p * 10 ^ nat k" using assms(1) by (simp add: abs_mult)
  also have "\<dots> = 10 ^ (nat p + nat k)" by (simp add: power_add)
  also have "\<dots> \<le> 10 ^ nat m" using assms by (intro power_increasing) auto
  finally show ?thesis .
qed

lemma at_precision_rounded: "decimalAtPrecision (rounded s x) p = Some (at_precision p (rounded s x))"
  by (rule decimalAtPrecision_val [OF rounded_zero])

lemma add_sub_typed:
  assumes d: "declared p1 s1" "declared p2 s2" and v: "\<bar>val128 a\<bar> < 10 ^ nat p1" "\<bar>val128 b\<bar> < 10 ^ nat p2"
  defines "s \<equiv> max s1 s2" and "p \<equiv> min 38 (max s1 s2 + max (p1 - s1) (p2 - s2) + 1)"
  shows "exact_or_overflow (DecimalAddAt a s1 b s2 p s) p s (dec a s1 + dec b s2)"
    "exact_or_overflow (DecimalSubAt a s1 b s2 p s) p s (dec a s1 - dec b s2)"
proof -
  let ?m = "max s1 s2 + max (p1 - s1) (p2 - s2)"
  have b: "0 \<le> s1" "0 \<le> s2" "0 \<le> s" "s1 \<le> s" "s2 \<le> s" "1 \<le> p" "p \<le> 38" "0 \<le> ?m"
    using d by (auto simp: declared_def s_def p_def)
  define A B where "A = val128 a * 10 ^ nat (s - s1)" and "B = val128 b * 10 ^ nat (s - s2)"
  have ab: "\<bar>A\<bar> < 10 ^ nat ?m" "\<bar>B\<bar> < 10 ^ nat ?m"
    unfolding A_def B_def using v b d by (auto intro!: scaled_bound simp: declared_def s_def)
  have up: "\<bar>A\<bar> + \<bar>B\<bar> < 10 ^ nat p" if "p < 38"
  proof -
    have "nat p = Suc (nat ?m)" using that b(8) unfolding p_def by linarith
    then have z: "10 ^ nat p = 10 * (10::int) ^ nat ?m" by simp
    have "X + Y < 10 * Z" if "0 \<le> X" "X < Z" "Y < Z" for X Y Z :: int using that by linarith
    from this [OF abs_ge_zero ab] show ?thesis unfolding z .
  qed
  then have up2: "\<bar>A + B\<bar> < 10 ^ nat p" "\<bar>A - B\<bar> < 10 ^ nat p" if "p < 38"
    using that abs_triangle_ineq [of A B] abs_triangle_ineq4 [of A B] by fastforce+
  have e: "dec a s1 = of_int A / 10 ^ nat s" "dec b s2 = of_int B / 10 ^ nat s"
    using dec_common [of s1 s a] dec_common [of s2 s b] b by (simp_all add: A_def B_def)
  show "exact_or_overflow (DecimalAddAt a s1 b s2 p s) p s (dec a s1 + dec b s2)"
    using exact_typed [of "dec a s1 + dec b s2" "A + B" s p] b up2 e decAddSub_val [of s1 s2 s a b False]
    by (auto simp: DecimalAddAt_def DecimalAdd_def at_precision_rounded add_divide_distrib)
  show "exact_or_overflow (DecimalSubAt a s1 b s2 p s) p s (dec a s1 - dec b s2)"
    using exact_typed [of "dec a s1 - dec b s2" "A - B" s p] b up2 e decAddSub_val [of s1 s2 s a b True]
    by (auto simp: DecimalSubAt_def DecimalSub_def at_precision_rounded diff_divide_distrib)
qed

lemma mul_typed:
  assumes d: "declared p1 s1" "declared p2 s2" and v: "\<bar>val128 a\<bar> < 10 ^ nat p1" "\<bar>val128 b\<bar> < 10 ^ nat p2"
  defines "p \<equiv> min 38 (p1 + p2 + 1)"
  shows "exact_or_overflow (DecimalMulAt a s1 b s2 p (s1 + s2)) p (s1 + s2) (dec a s1 * dec b s2)"
proof -
  have b: "0 \<le> s1" "0 \<le> s2" "s1 \<le> 38" "s2 \<le> 38" "1 \<le> p" "p \<le> 38" "0 \<le> p1" "0 \<le> p2" using d by (auto simp: declared_def p_def max_digits)
  have n: "\<bar>val128 a * val128 b\<bar> < 10 ^ nat p" if "p < 38"
  proof -
    have "\<bar>val128 a * val128 b\<bar> < 10 ^ nat p1 * 10 ^ nat p2"
      unfolding abs_mult using v by (intro mult_strict_mono) auto
    also have "\<dots> = 10 ^ (nat p1 + nat p2)" by (simp add: power_add)
    also have "\<dots> \<le> 10 ^ nat p" using that b by (intro power_increasing) (auto simp: p_def)
    finally show ?thesis .
  qed
  have "dec a s1 * dec b s2 = of_int (val128 a * val128 b) / 10 ^ nat (s1 + s2)"
    using b by (simp add: dec_def nat_add_distrib power_add)
  then show ?thesis using exact_typed [of _ "val128 a * val128 b" "s1 + s2" p] b n DecimalMul_val [of s1 s2 "s1 + s2" a b]
    by (auto simp: DecimalMulAt_def at_precision_rounded)
qed

lemma Adjust_declared: "AdjustDecimalPrecisionScale p s = (p', s') \<Longrightarrow> declared p' s'"
  by (auto simp: AdjustDecimalPrecisionScale_def normalizeDecimalPS_def declared_def max_digits Let_def split: if_splits)

lemma op_type_scale:
  assumes "0 \<le> s1" "s1 \<le> 2 ^ 60" "0 \<le> s2" "s2 \<le> 2 ^ 60" and "op_type op p1 s1 p2 s2 = Some (p, s, x)"
  shows "0 \<le> s"
proof -
  have "wrap64 (s1 + s2) = s1 + s2" using assms by simp
  then show ?thesis using assms by (auto simp: op_type_def Let_def split: if_splits)
qed

lemma DecimalResultType_declared:
  assumes "s1 \<le> 2 ^ 60" "s2 \<le> 2 ^ 60" and "DecimalResultType op p1 s1 p2 s2 = (p, s, True)"
  shows "declared p s"
proof -
  obtain q1 t1 where n1: "normalizeDecimalPS p1 s1 = (q1, t1)" by fastforce
  obtain q2 t2 where n2: "normalizeDecimalPS p2 s2 = (q2, t2)" by fastforce
  have t: "0 \<le> t1" "t1 \<le> 2 ^ 60" "0 \<le> t2" "t2 \<le> 2 ^ 60"
    using n1 n2 assms(1,2) by (auto simp: normalizeDecimalPS_def Let_def split: if_splits)
  obtain p0 s0 x where o: "op_type op q1 t1 q2 t2 = Some (p0, s0, x)"
    using assms(3) n1 n2 by (auto simp: DecimalResultType_def split: option.splits)
  have "0 \<le> s0" by (rule op_type_scale [OF t o])
  then show ?thesis using assms(3) n1 n2 o Adjust_declared [of p0 s0]
    by (auto simp: DecimalResultType_def declared_def max_digits split: if_splits prod.splits)
qed

section \<open>Properties\<close>

text \<open>
  C15: DecimalAdd and DecimalSub return the exact sum and difference, rounded once. For any two carrier values at
  any non-negative scales the result is the exact rational sum (difference) rounded half away from zero at the
  output scale, or an overflow with value zero exactly when that integer has no 128-bit carrier; neither the
  128-bit path nor the wide one rounds twice, overflows silently or fails to return. A negative scale is refused.
\<close>

theorem decimal_add_sub_rounded:
  "DecimalAdd a sa b sb so = Some (if sa < 0 \<or> sb < 0 \<or> so < 0 then (Zero128, DecimalInvalidScale)
     else rounded so (dec a sa + dec b sb)) \<and>
   DecimalSub a sa b sb so = Some (if sa < 0 \<or> sb < 0 \<or> so < 0 then (Zero128, DecimalInvalidScale)
     else rounded so (dec a sa - dec b sb))"
  using decAddSub_val [of sa sb so a b] by (auto simp: DecimalAdd_def DecimalSub_def decAddSub_def not_less)

text \<open>
  C14: DecimalMul returns the exact product, rounded once. Whatever path answers (the 128-bit product, the 256-bit
  product divided back by a power of ten, or big integers), the result is the exact rational product rounded half
  away from zero at the output scale, or an overflow exactly when that integer has no 128-bit carrier. A
  negative scale is refused. The scales are non-overflowing ints.
\<close>

theorem decimal_mul_rounded:
  assumes "so < 2 ^ 63" and "sa + sb < 2 ^ 63"
  shows "DecimalMul a sa b sb so = Some (if sa < 0 \<or> sb < 0 \<or> so < 0 then (Zero128, DecimalInvalidScale)
     else rounded so (dec a sa * dec b sb))"
  using DecimalMul_val [of sa sb so a b] assms by (auto simp: DecimalMul_def not_less)

theorem decimal_mul_rounded_witness:
  "DecimalMul (Int128From 15) 1 (Int128From (- 3)) 0 0 = Some (rounded 0 (dec (Int128From 15) 1 * dec (Int128From (- 3)) 0))"
  using decimal_mul_rounded [of 0 1 0 "Int128From 15" "Int128From (- 3)"] by simp




text \<open>
  C17: DecimalAvg divides an exact sum by a row count without error. On each of its three paths (64-bit, 128-bit and
  big integers) the result is the exact quotient at the raised scale rounded half away from zero, refused exactly
  when that integer has no 128-bit carrier; a count that is not positive and a negative scale increment are refused.
\<close>

theorem decimal_avg_rounded:
  "DecimalAvg sm count addScale = Some (if sint count \<le> 0 \<or> addScale < 0 then (Zero128, False)
     else narrow (round_away (of_int (val128 sm) * 10 ^ nat addScale / of_int (sint count))))"
proof (cases "sint count \<le> 0 \<or> addScale < 0")
  case False
  then have "round_away (of_int (val128 sm) * 10 ^ nat addScale / of_int (sint count)) =
      rdiv (val128 sm * 10 ^ nat addScale) (sint count)"
    using round_away_quotient [of "sint count" "val128 sm * 10 ^ nat addScale"] by simp
  then show ?thesis using False DecimalAvg_val [of count addScale sm] by (simp add: not_le)
qed (simp add: DecimalAvg_def)

text \<open>
  C18: The result types are sound. For operands of declared types that hold their values, DecimalResultType gives +
  and - the larger scale and, when the scales sum to at most 38, * the sum of the scales; at that
  type DecimalAddAt, DecimalSubAt and DecimalMulAt either return the exact result, without any rounding, within the
  declared precision, or report an overflow, which happens only when the precision was capped at 38 and the result
  needs more than 38 digits.
\<close>

theorem result_types_exact:
  assumes "declared p1 s1" and "declared p2 s2" and "\<bar>val128 a\<bar> < 10 ^ nat p1" and "\<bar>val128 b\<bar> < 10 ^ nat p2"
  shows "(case DecimalResultType ''+'' p1 s1 p2 s2 of (p, s, ok) \<Rightarrow> ok \<and> s = max s1 s2 \<and>
        exact_or_overflow (DecimalAddAt a s1 b s2 p s) p s (dec a s1 + dec b s2)) \<and>
    (case DecimalResultType ''-'' p1 s1 p2 s2 of (p, s, ok) \<Rightarrow> ok \<and> s = max s1 s2 \<and>
        exact_or_overflow (DecimalSubAt a s1 b s2 p s) p s (dec a s1 - dec b s2)) \<and>
    (s1 + s2 \<le> 38 \<longrightarrow> (case DecimalResultType ''*'' p1 s1 p2 s2 of (p, s, ok) \<Rightarrow> ok \<and> s = s1 + s2 \<and>
        exact_or_overflow (DecimalMulAt a s1 b s2 p s) p s (dec a s1 * dec b s2)))"
  using add_sub_typed [OF assms] mul_typed [OF assms] mul_type [OF assms(1,2)] by (simp add: add_type [OF assms(1,2)])

theorem result_types_exact_witness:
  "case DecimalResultType ''*'' 5 2 4 1 of (p, s, ok) \<Rightarrow> ok \<and> s = 3 \<and>
     exact_or_overflow (DecimalMulAt (Int128From 12345) 2 (Int128From (- 21)) 1 p s) p s
       (dec (Int128From 12345) 2 * dec (Int128From (- 21)) 1)"
  using result_types_exact [of 5 2 4 1 "Int128From 12345" "Int128From (- 21)"]
  by (simp add: declared_def max_digits Int128From_val)

text \<open>
  C31: Every result type is one a column can declare: whatever operator and operand types (scales of at most 2^60,
  well-formed or not) DecimalResultType is asked about, an answer has a precision from 1 to 38 and a scale from 0
  to the precision, and there is an answer exactly for the operators +, -, *, /, % and mod.
\<close>

theorem result_type_declarable:
  assumes "s1 \<le> 2 ^ 60" and "s2 \<le> 2 ^ 60" and "DecimalResultType op p1 s1 p2 s2 = (p, s, ok)"
  shows "(ok \<longleftrightarrow> op \<in> {''+'', ''-'', ''*'', ''/'', ''%'', ''mod''}) \<and> (ok \<longrightarrow> declared p s)"
  using assms(3) DecimalResultType_declared [OF assms(1,2), of op p1 p2 p s]
  by (auto simp: DecimalResultType_def op_type_def Let_def split: if_splits prod.splits)

theorem result_type_declarable_witness:
  "DecimalResultType ''/'' 38 10 38 10 = (38, 6, True) \<and> declared 38 6"
proof -
  have "DecimalResultType ''/'' 38 10 38 10 = (38, 6, True)"
    by (simp add: DecimalResultType_def op_type_def AdjustDecimalPrecisionScale_def normalizeDecimalPS_def max_digits)
  then show ?thesis using result_type_declarable [of 10 10 "''/''" 38 38 38 6 True] by simp
qed

end
