(* ===== verification/Spec2Isabelle.thy ===== *)
theory Spec2Isabelle
  imports Circuit_Breaker Mem_Concurrent Cpu_Tokens Packed_Hash Null_Bitmap Dec_Arith
begin

text \<open>A verification development of the wadjet engine.\<close>

end
